(* ===== verification/Prelude.thy ===== *)
theory Prelude
  imports Main "HOL-Library.Word"
begin

text \<open>
  The prelude of the development: the machine types of the Rust sources, the
  crate's error type, checked, wrapping and saturating \<^verbatim>\<open>usize\<close> arithmetic for a
  64-bit target, little-endian byte codecs, and the generic lemmas on lists,
  options and words that the component theories share.  The collections
  \<^verbatim>\<open>arith_simps\<close>, \<^verbatim>\<open>codec_simps\<close> and \<^verbatim>\<open>bits_simps\<close> carry the component proofs.
\<close>

unbundle bit_operations_syntax

named_theorems arith_simps \<open>unfolding of the saturating and checked arithmetic\<close>
named_theorems codec_simps \<open>round trips of the elementary codecs\<close>
named_theorems bits_simps \<open>bitwise readings of word operations\<close>

section \<open>Machine types\<close>

type_synonym u8 = "8 word"
type_synonym u16 = "16 word"
type_synonym u32 = "32 word"
type_synonym u64 = "64 word"
type_synonym bytes = "8 word list"

section \<open>Errors (lib.rs)\<close>

datatype TelemetryError =
    GenericError "string option"
  | InvalidType
  | SizeMismatch nat nat
  | SizeMismatchError
  | EmptyEndpoints
  | TimestampInvalid
  | MissingPayload
  | HandlerError string
  | BadArg
  | PermissionDenied
  | Pack string
  | Unpack string
  | Io string
  | InvalidUtf8
  | TypeMismatch nat nat
  | InvalidLinkId string
  | PacketTooLarge string

type_synonym 'a result = "TelemetryError + 'a"

abbreviation Ok :: "'a \<Rightarrow> 'a result" where "Ok \<equiv> Inr"
abbreviation Err :: "TelemetryError \<Rightarrow> 'a result" where "Err \<equiv> Inl"

definition is_ok :: "'e + 'a \<Rightarrow> bool" where
  "is_ok r = (case r of Inl _ \<Rightarrow> False | Inr _ \<Rightarrow> True)"

definition is_err :: "'e + 'a \<Rightarrow> bool" where
  "is_err r = (case r of Inl _ \<Rightarrow> True | Inr _ \<Rightarrow> False)"

text \<open>The \<^verbatim>\<open>?\<close> operator: an error returns early, a value goes on.\<close>

definition bind_r :: "'err + 'x \<Rightarrow> ('x \<Rightarrow> 'err + 'y) \<Rightarrow> 'err + 'y" where
  "bind_r r f = (case r of Inl e \<Rightarrow> Inl e | Inr x \<Rightarrow> f x)"

section \<open>Unsigned arithmetic of \<^verbatim>\<open>usize\<close> and \<^verbatim>\<open>u64\<close> on a 64-bit target\<close>

definition USIZE_MAX :: nat where
  "USIZE_MAX = 2 ^ 64 - 1"

definition saturating_add :: "nat \<Rightarrow> nat \<Rightarrow> nat" where
  "saturating_add a b = min (a + b) USIZE_MAX"

definition saturating_mul :: "nat \<Rightarrow> nat \<Rightarrow> nat" where
  "saturating_mul a b = min (a * b) USIZE_MAX"

definition saturating_sub :: "nat \<Rightarrow> nat \<Rightarrow> nat" where
  "saturating_sub a b = a - b"

definition checked_add :: "nat \<Rightarrow> nat \<Rightarrow> nat option" where
  "checked_add a b = (if a + b \<le> USIZE_MAX then Some (a + b) else None)"

definition checked_mul :: "nat \<Rightarrow> nat \<Rightarrow> nat option" where
  "checked_mul a b = (if a * b \<le> USIZE_MAX then Some (a * b) else None)"

definition checked_sub :: "nat \<Rightarrow> nat \<Rightarrow> nat option" where
  "checked_sub a b = (if b \<le> a then Some (a - b) else None)"

definition wrapping_add :: "nat \<Rightarrow> nat \<Rightarrow> nat" where
  "wrapping_add a b = (a + b) mod 2 ^ 64"

lemmas usize_defs = saturating_add_def saturating_mul_def saturating_sub_def
  checked_add_def checked_mul_def checked_sub_def

section \<open>Little-endian codecs\<close>

primrec le_bytes :: "nat \<Rightarrow> 'a::len word \<Rightarrow> bytes" where
  "le_bytes 0 w = []"
| "le_bytes (Suc n) w = ucast w # le_bytes n (drop_bit 8 w)"

primrec from_le_bytes :: "bytes \<Rightarrow> 'a::len word" where
  "from_le_bytes [] = 0"
| "from_le_bytes (b # bs) = ucast b OR push_bit 8 (from_le_bytes bs)"

section \<open>Generic lemmas\<close>

lemma is_ok_simps [simp]: "is_ok (Inr x)" "\<not> is_ok (Inl e)" "is_err (Inl e)" "\<not> is_err (Inr x)"
  by (simp_all add: is_ok_def is_err_def)

lemma bind_r_simps [simp]: "bind_r (Inr x) f = f x" "bind_r (Inl e) f = Inl e"
  by (simp_all add: bind_r_def)

lemma bind_r_ok_iff: "bind_r r f = Inr y \<longleftrightarrow> (\<exists>x. r = Inr x \<and> f x = Inr y)"
  by (cases r) auto

lemma saturating_add_le_max [simp]: "saturating_add a b \<le> USIZE_MAX"
  by (simp add: saturating_add_def)

lemma saturating_mul_le_max [simp]: "saturating_mul a b \<le> USIZE_MAX"
  by (simp add: saturating_mul_def)

lemma saturating_add_exact [simp]: "a + b \<le> USIZE_MAX \<Longrightarrow> saturating_add a b = a + b"
  by (simp add: saturating_add_def)

lemma saturating_add_le_iff:
  "m < USIZE_MAX \<Longrightarrow> saturating_add a b \<le> m \<longleftrightarrow> a + b \<le> m"
  by (auto simp: saturating_add_def)

lemma saturating_sub_eq [simp]: "saturating_sub a b = a - b"
  by (simp add: saturating_sub_def)

lemma checked_add_eq_Some [simp]: "checked_add a b = Some c \<longleftrightarrow> c = a + b \<and> a + b \<le> USIZE_MAX"
  by (auto simp: checked_add_def)

lemma checked_sub_eq_Some [simp]: "checked_sub a b = Some c \<longleftrightarrow> b \<le> a \<and> c = a - b"
  by (auto simp: checked_sub_def)

lemma length_le_bytes [simp]: "length (le_bytes n w) = n"
  by (induction n arbitrary: w) simp_all

lemma bit_from_le_bytes_le:
  fixes w :: "'a::len word"
  shows "bit (from_le_bytes (le_bytes n w) :: 'a word) i \<longleftrightarrow> i < 8 * n \<and> bit w i"
proof (induction n arbitrary: w i)
  case 0
  then show ?case by simp
next
  case (Suc n)
  show ?case
    by (cases "i < 8")
      (auto simp: bit_or_iff bit_push_bit_iff Suc.IH bit_ucast_iff bit_drop_bit_eq
        dest: bit_imp_le_length)
qed

lemma from_le_bytes_le_bytes [codec_simps]:
  fixes w :: "'a::len word"
  assumes "LENGTH('a) \<le> 8 * n"
  shows "from_le_bytes (le_bytes n w) = w"
  by (rule bit_word_eqI) (use assms in \<open>auto simp: bit_from_le_bytes_le\<close>)

lemma bit_from_le_bytes_bound: "bit (from_le_bytes bs :: 'a::len word) i \<Longrightarrow> i < 8 * length bs"
proof (induction bs arbitrary: i)
  case (Cons b bs)
  then consider "bit b i" | "8 \<le> i" "bit (from_le_bytes bs :: 'a word) (i - 8)"
    by (auto simp: bit_or_iff bit_push_bit_iff bit_ucast_iff)
  then show ?case
  proof cases
    case 1
    then show ?thesis using bit_imp_le_length [OF 1] by simp
  next
    case 2
    from Cons.IH [OF 2(2)] 2(1) show ?thesis by simp
  qed
qed simp

lemma le_bytes_from_le_bytes [codec_simps]:
  assumes "8 * length bs \<le> LENGTH('a)" "n = length bs"
  shows "le_bytes n (from_le_bytes bs :: 'a::len word) = bs"
  using assms
proof (induction bs arbitrary: n)
  case (Cons b bs)
  define v where "v = (from_le_bytes bs :: 'a word)"
  have l: "8 + 8 * length bs \<le> LENGTH('a)" using Cons.prems(1) by simp
  have "ucast (ucast b OR push_bit 8 v) = b"
    by (rule bit_word_eqI) (use l in \<open>auto simp: bit_ucast_iff bit_or_iff bit_push_bit_iff\<close>)
  moreover have "drop_bit 8 (ucast b OR push_bit 8 v) = v"
  proof (rule bit_word_eqI)
    fix i
    assume "i < LENGTH('a)"
    have "8 + i < LENGTH('a)" if "bit v i"
      using bit_from_le_bytes_bound [OF that [unfolded v_def]] l by simp
    then show "bit (drop_bit 8 (ucast b OR push_bit 8 v)) i = bit v i"
      by (auto simp: bit_drop_bit_eq bit_or_iff bit_push_bit_iff bit_ucast_iff dest: bit_imp_le_length)
  qed
  moreover have "le_bytes (length bs) v = bs" unfolding v_def using l by (intro Cons.IH) simp_all
  ultimately show ?case by (simp add: Cons.prems(2) v_def)
qed simp

lemma take_drop_append_exact [simp]:
  "n = length xs \<Longrightarrow> take n (xs @ ys) = xs" "n = length xs \<Longrightarrow> drop n (xs @ ys) = ys"
  by simp_all

lemma sum_list_filter_le:
  fixes f :: "'a \<Rightarrow> nat"
  shows "sum_list (map f (filter P xs)) \<le> sum_list (map f xs)"
  by (induction xs) auto

lemma sum_list_insert_at:
  fixes f :: "'a \<Rightarrow> nat"
  shows "sum_list (map f (take i xs @ x # drop i xs)) = sum_list (map f xs) + f x"
proof -
  have "sum_list (map f (take i xs)) + sum_list (map f (drop i xs)) = sum_list (map f xs)"
    by (metis append_take_drop_id map_append sum_list_append)
  then show ?thesis by simp
qed

lemma sum_list_delete_at:
  fixes f :: "'a \<Rightarrow> nat"
  assumes "i < length xs"
  shows "sum_list (map f (take i xs @ drop (Suc i) xs)) + f (xs ! i) = sum_list (map f xs)"
proof -
  have "sum_list (map f xs) = sum_list (map f (take i xs @ xs ! i # drop (Suc i) xs))"
    using id_take_nth_drop [OF assms] by simp
  then show ?thesis by simp
qed

lemma u8_le_255 [simp]: "(x :: u8) \<le> 255"
  using unsigned_less [of x, where ?'a = nat] by (simp add: word_le_nat_alt)

section \<open>Decimal numbers\<close>

text \<open>\<^verbatim>\<open>str::parse::<u32>\<close>: an optional plus sign and at least one digit, no overflow.\<close>

fun parse_digits :: "nat \<Rightarrow> string \<Rightarrow> nat option" where
  "parse_digits acc [] = Some acc"
| "parse_digits acc (c # cs) =
    (let d = of_char c :: nat in
     if 48 \<le> d \<and> d \<le> 57 \<and> acc * 10 + (d - 48) < 2 ^ 32 then parse_digits (acc * 10 + (d - 48)) cs
     else None)"

definition parse_u32 :: "string \<Rightarrow> u32 option" where
  "parse_u32 s =
    (let ds = (case s of c # cs \<Rightarrow> if c = CHR ''+'' then cs else s | [] \<Rightarrow> s) in
     if ds = [] then None else map_option of_nat (parse_digits 0 ds))"

text \<open>Digits are produced from the last one, each in front of those already there.\<close>

fun decimal_loop :: "nat \<Rightarrow> string \<Rightarrow> string" where
  "decimal_loop n acc =
    (let acc = char_of (48 + n mod 10) # acc in
     if n div 10 = 0 then acc else decimal_loop (n div 10) acc)"

declare decimal_loop.simps [simp del]

definition decimal :: "nat \<Rightarrow> string" where
  "decimal n = decimal_loop n []"

lemma decimal_loop_append: "decimal_loop n acc = decimal n @ acc"
proof (induction n arbitrary: acc rule: less_induct)
  case (less n)
  show ?case
  proof (cases "n div 10 = 0")
    case True
    then show ?thesis by (simp add: decimal_def decimal_loop.simps [of n] Let_def)
  next
    case False
    then have "n div 10 < n" by simp
    note IH = less.IH [OF this]
    have step: "decimal_loop n acc = decimal_loop (n div 10) (char_of (48 + n mod 10) # acc)" for acc
      using False by (subst decimal_loop.simps) (simp add: Let_def)
    show ?thesis
      unfolding decimal_def [of n] step IH by simp
  qed
qed

lemma decimal_rec:
  "decimal n = (if n < 10 then [] else decimal (n div 10)) @ [char_of (48 + n mod 10)]"
  unfolding decimal_def [of n] decimal_loop.simps [of n] Let_def
  by (auto simp: decimal_loop_append)

lemma decimal_ne [simp]: "decimal n \<noteq> []"
  by (subst decimal_rec) simp

lemma parse_digits_append:
  "parse_digits acc (xs @ ys) = (case parse_digits acc xs of None \<Rightarrow> None | Some m \<Rightarrow> parse_digits m ys)"
  by (induction xs arbitrary: acc) (auto simp: Let_def)

lemma parse_digits_decimal: "n < 2 ^ 32 \<Longrightarrow> parse_digits 0 (decimal n) = Some n"
proof (induction n rule: less_induct)
  case (less n)
  have digit: "parse_digits m [char_of (48 + n mod 10)] = Some (m * 10 + n mod 10)" if "m * 10 + n mod 10 < 2 ^ 32" for m
    using that by simp
  show ?case
  proof (cases "n < 10")
    case True
    then show ?thesis using digit [of 0] less.prems by (subst decimal_rec) simp
  next
    case False
    then have "parse_digits 0 (decimal (n div 10)) = Some (n div 10)"
      using less by simp
    then show ?thesis
      using digit [of "n div 10"] False less.prems
      by (subst decimal_rec) (simp add: parse_digits_append)
  qed
qed

lemma digit_not_plus: "char_of (48 + n mod 10 :: nat) \<noteq> CHR ''+''"
proof
  assume "char_of (48 + n mod 10) = CHR ''+''"
  then have "of_char (char_of (48 + n mod 10 :: nat)) = (of_char CHR ''+'' :: nat)" by simp
  then show False by simp
qed

lemma hd_decimal: "\<exists>m. hd (decimal n) = char_of (48 + m mod 10 :: nat)"
proof (induction n rule: less_induct)
  case (less n)
  show ?case
  proof (cases "n < 10")
    case True
    then have "hd (decimal n) = char_of (48 + n mod 10)" by (subst decimal_rec) simp
    then show ?thesis by blast
  next
    case False
    then have "hd (decimal n) = hd (decimal (n div 10))" by (subst decimal_rec) simp
    with less.IH [of "n div 10"] False show ?thesis by simp
  qed
qed

lemma parse_u32_decimal: "parse_u32 (decimal (unat w)) = Some w"
proof -
  obtain c cs where c: "decimal (unat w) = c # cs" by (cases "decimal (unat w)") auto
  moreover obtain m :: nat where "hd (decimal (unat w)) = char_of (48 + m mod 10)"
    using hd_decimal by blast
  ultimately have plus: "c \<noteq> CHR ''+''" using digit_not_plus [of m] by simp
  have "unat w < 2 ^ 32" using unsigned_less [of w, where ?'a = nat] by simp
  from parse_digits_decimal [OF this] have "parse_digits 0 (c # cs) = Some (unat w)"
    unfolding c .
  then show ?thesis
    unfolding parse_u32_def c Let_def using plus by (simp del: parse_digits.simps)
qed

section \<open>Invariants of operation sequences\<close>

text \<open>The contract of a stateful component: every operation keeps its invariant and the
  configuration fixed at construction.  Sequences of operations then keep both.\<close>

locale stateful_component =
  fixes inv :: "'s \<Rightarrow> bool" and config :: "'s \<Rightarrow> 'c" and step :: "'s \<Rightarrow> 's \<Rightarrow> bool"
  assumes step_inv: "step s s' \<Longrightarrow> inv s \<Longrightarrow> inv s'"
    and step_config: "step s s' \<Longrightarrow> inv s \<Longrightarrow> config s' = config s"
begin

lemma run_inv: "step\<^sup>*\<^sup>* s s' \<Longrightarrow> inv s \<Longrightarrow> inv s'"
  by (induction rule: rtranclp_induct) (auto intro: step_inv)

lemma run_config: "step\<^sup>*\<^sup>* s s' \<Longrightarrow> inv s \<Longrightarrow> config s' = config s"
  by (induction rule: rtranclp_induct) (auto dest: step_config run_inv)

end

end
