(* ===== verification/Varint.thy ===== *)
theory Varint
  imports Prelude
begin

text \<open>
  The bounded ULEB128 codec: the two decoders of \<^verbatim>\<open>src/src/varint.rs\<close> (the loop of
  64-bit targets and the two-halves unrolled one of 32-bit targets) and the
  encoder of \<^verbatim>\<open>src/src/wire_format.rs\<close>.  A decoder returns its result and the
  offset it leaves behind, because the source advances the caller's offset on
  malformed input too.  Proved: the encoder's output decodes to the value, the
  predicted size is the encoded length, both decoders agree on every input,
  offset included, and a decoder never reads past the buffer or more than ten
  bytes.
\<close>

section \<open>Definitions\<close>

abbreviation short_read :: "'a result" where
  "short_read \<equiv> Err (Unpack ''short read'')"

abbreviation too_long :: "'a result" where
  "too_long \<equiv> Err (Unpack ''uleb128 too long'')"

text \<open>\<^verbatim>\<open>buf.get(off)\<close>\<close>

definition buf_get :: "bytes \<Rightarrow> nat \<Rightarrow> u8 option" where
  "buf_get buf off = (if off < length buf then Some (buf ! off) else None)"

text \<open>The \<^verbatim>\<open>for _ in 0..10\<close> loop of \<^verbatim>\<open>read_u64\<close>; the first argument is the number
  of iterations left.\<close>

primrec read_u64_loop :: "nat \<Rightarrow> bytes \<Rightarrow> nat \<Rightarrow> u64 \<Rightarrow> nat \<Rightarrow> u64 result \<times> nat" where
  "read_u64_loop 0 buf off val shift = (too_long, off)"
| "read_u64_loop (Suc k) buf off val shift =
    (case buf_get buf off of
      None \<Rightarrow> (short_read, off)
    | Some byte \<Rightarrow>
        let off = off + 1;
            val = val OR push_bit shift (ucast (byte AND 0x7f)) in
        if byte AND 0x80 = 0 then
          if shift = 63 \<and> byte > 1 then (too_long, off) else (Ok val, off)
        else read_u64_loop k buf off val (shift + 7))"

definition read_u64 :: "bytes \<Rightarrow> nat \<Rightarrow> u64 result \<times> nat" where
  "read_u64 buf off = read_u64_loop 10 buf off 0 0"

text \<open>The macro \<^verbatim>\<open>byte!\<close> of the 32-bit decoder: read one byte, apply the body to
  the halves \<^verbatim>\<open>(low, high)\<close>, and return unless the continuation bit is set.\<close>

definition join32 :: "u32 \<times> u32 \<Rightarrow> u64" where
  "join32 lh = push_bit 32 (ucast (snd lh)) OR ucast (fst lh)"

definition byte_step ::
  "bytes \<Rightarrow> (u8 \<Rightarrow> u32 \<times> u32 \<Rightarrow> u32 \<times> u32) \<Rightarrow>
    (nat \<Rightarrow> u32 \<times> u32 \<Rightarrow> u64 result \<times> nat) \<Rightarrow> nat \<Rightarrow> u32 \<times> u32 \<Rightarrow> u64 result \<times> nat" where
  "byte_step buf body rest off lh =
    (case buf_get buf off of
      None \<Rightarrow> (short_read, off)
    | Some byte \<Rightarrow>
        let off = off + 1; lh = body byte lh in
        if byte AND 0x80 = 0 then (Ok (join32 lh), off) else rest off lh)"

definition low7 :: "u8 \<Rightarrow> u32" where
  "low7 b = ucast (b AND 0x7f)"

definition last_step :: "bytes \<Rightarrow> nat \<Rightarrow> u32 \<times> u32 \<Rightarrow> u64 result \<times> nat" where
  "last_step buf off lh =
    (case buf_get buf off of
      None \<Rightarrow> (short_read, off)
    | Some lst \<Rightarrow>
        let off = off + 1 in
        if lst > 1 then (too_long, off)
        else (Ok (join32 (fst lh, snd lh OR push_bit 31 (ucast lst))), off))"

definition read_u64_32_slow :: "bytes \<Rightarrow> nat \<Rightarrow> u64 result \<times> nat" where
  "read_u64_32_slow buf off =
    byte_step buf (\<lambda>b (low, high). (low7 b, high))
    (byte_step buf (\<lambda>b (low, high). (low OR push_bit 7 (low7 b), high))
    (byte_step buf (\<lambda>b (low, high). (low OR push_bit 14 (low7 b), high))
    (byte_step buf (\<lambda>b (low, high). (low OR push_bit 21 (low7 b), high))
    (byte_step buf (\<lambda>b (low, high). (low OR push_bit 28 (low7 b), drop_bit 4 (low7 b)))
    (byte_step buf (\<lambda>b (low, high). (low, high OR push_bit 3 (low7 b)))
    (byte_step buf (\<lambda>b (low, high). (low, high OR push_bit 10 (low7 b)))
    (byte_step buf (\<lambda>b (low, high). (low, high OR push_bit 17 (low7 b)))
    (byte_step buf (\<lambda>b (low, high). (low, high OR push_bit 24 (low7 b)))
    (last_step buf))))))))) off (0, 0)"

definition read_u64_32 :: "bytes \<Rightarrow> nat \<Rightarrow> u64 result \<times> nat" where
  "read_u64_32 buf off =
    (case buf_get buf off of
      Some byte \<Rightarrow> if byte < 0x80 then (Ok (ucast byte), off + 1) else read_u64_32_slow buf off
    | None \<Rightarrow> read_u64_32_slow buf off)"

text \<open>The encoder and its size (\<^verbatim>\<open>wire_format.rs\<close>).\<close>

lemma unat_drop_bit_7: "unat (drop_bit 7 v) = unat v div 128" for v :: u64
  by (simp add: drop_bit_eq_div unat_div)

lemma drop_bit_7_less: "drop_bit 7 v \<noteq> 0 \<Longrightarrow> unat (drop_bit 7 v) < unat v" for v :: u64
proof -
  assume "drop_bit 7 v \<noteq> 0"
  then have "unat v div 128 \<noteq> 0"
    by (metis unat_drop_bit_7 unat_eq_zero)
  then show ?thesis
    unfolding unat_drop_bit_7 by (auto intro!: div_less_dividend)
qed

function write_uleb128 :: "u64 \<Rightarrow> bytes \<Rightarrow> bytes" where
  "write_uleb128 v out =
    (let byte = ucast (v AND 0x7f) :: u8; v = drop_bit 7 v in
     if v \<noteq> 0 then write_uleb128 v (out @ [byte OR 0x80])
     else out @ [byte])"
  by pat_completeness auto
termination
  by (relation "measure (\<lambda>(v, _). unat v)") (auto intro: drop_bit_7_less)

function uleb128_size_loop :: "u64 \<Rightarrow> nat \<Rightarrow> nat" where
  "uleb128_size_loop v n = (if v \<ge> 0x80 then uleb128_size_loop (drop_bit 7 v) (n + 1) else n)"
  by pat_completeness auto
termination
  by (relation "measure (\<lambda>(v, _). unat v)")
    (auto simp: word_le_nat_alt unat_drop_bit_7 simp del: drop_bit_eq_div)

definition uleb128_size :: "u64 \<Rightarrow> nat" where
  "uleb128_size v = uleb128_size_loop v 1"

declare write_uleb128.simps [simp del] uleb128_size_loop.simps [simp del]

section \<open>Encoding\<close>

text \<open>The encoding as a list on its own; the encoder appends it to its output.\<close>

definition uleb :: "u64 \<Rightarrow> bytes" where
  "uleb v = write_uleb128 v []"

lemma write_uleb128_append: "write_uleb128 v out = out @ uleb v"
proof (induction "unat v" arbitrary: v out rule: less_induct)
  case less
  show ?case
  proof (cases "drop_bit 7 v = 0")
    case True
    then show ?thesis
      by (simp add: uleb_def write_uleb128.simps [of v])
  next
    case False
    note IH = less [OF drop_bit_7_less [OF False]]
    show ?thesis
      using False by (simp add: uleb_def [of v] write_uleb128.simps [of v] IH)
  qed
qed

lemma uleb_rec:
  "uleb v = (if drop_bit 7 v = 0 then [ucast (v AND 0x7f)]
             else (ucast (v AND 0x7f) OR 0x80) # uleb (drop_bit 7 v))"
  by (simp add: uleb_def [of v] write_uleb128.simps [of v] write_uleb128_append [of "drop_bit 7 v"])

lemma uleb_ne [simp]: "uleb v \<noteq> []"
  by (subst uleb_rec) simp

lemma drop_bit_7_eq_0_iff: "drop_bit 7 v = 0 \<longleftrightarrow> v < 0x80" for v :: u64
proof -
  have "drop_bit 7 v = 0 \<longleftrightarrow> unat v div 128 = 0"
    by (metis unat_drop_bit_7 unat_eq_zero)
  then show ?thesis
    by (simp add: word_less_nat_alt div_eq_0_iff)
qed

lemma uleb128_size_loop_eq: "uleb128_size_loop v n + 1 = n + length (uleb v)"
proof (induction v n rule: uleb128_size_loop.induct)
  case (1 v n)
  show ?case
  proof (cases "0x80 \<le> v")
    case True
    then show ?thesis
      using 1 [OF True] drop_bit_7_eq_0_iff [of v]
      by (simp add: uleb128_size_loop.simps [of v] uleb_rec [of v])
  next
    case False
    then show ?thesis
      using drop_bit_7_eq_0_iff [of v]
      by (simp add: uleb128_size_loop.simps [of v] uleb_rec [of v])
  qed
qed

lemma uleb128_size_eq_length: "uleb128_size v = length (uleb v)"
  using uleb128_size_loop_eq [of v 1] by (simp add: uleb128_size_def)

section \<open>Decoding what was encoded\<close>

lemma and_0x7f: "w AND 0x7f = take_bit 7 w" for w :: "'a::len word"
  by (simp add: take_bit_eq_mask mask_numeral)

lemma and_0x80_eq_0_iff: "b AND 0x80 = 0 \<longleftrightarrow> \<not> bit b 7" for b :: u8
proof -
  have "0x80 = (push_bit 7 1 :: u8)"
    by simp
  then show ?thesis
    by (metis and_exp_eq_0_iff_not_bit push_bit_of_1)
qed

lemma bit_0x80: "bit (0x80 :: u8) n \<longleftrightarrow> n = 7"
proof -
  have "0x80 = (2 ^ 7 :: u8)"
    by simp
  then show ?thesis
    by (simp only: bit_exp_iff) auto
qed

lemma uleb_byte_facts:
  fixes v :: u64
  shows uleb_byte_stop: "(ucast (v AND 0x7f) :: u8) AND 0x80 = 0"
    and uleb_byte_cont: "((ucast (v AND 0x7f) :: u8) OR 0x80) AND 0x80 \<noteq> 0"
    and uleb_byte_stop_val: "ucast ((ucast (v AND 0x7f) :: u8) AND 0x7f) = v AND 0x7f"
    and uleb_byte_cont_val: "ucast (((ucast (v AND 0x7f) :: u8) OR 0x80) AND 0x7f) = v AND 0x7f"
proof -
  show "(ucast (v AND 0x7f) :: u8) AND 0x80 = 0"
    by (simp only: and_0x80_eq_0_iff and_0x7f) (simp add: bit_simps)
  show "((ucast (v AND 0x7f) :: u8) OR 0x80) AND 0x80 \<noteq> 0"
    by (simp only: and_0x80_eq_0_iff and_0x7f bit_or_iff bit_0x80) simp
  show "ucast ((ucast (v AND 0x7f) :: u8) AND 0x7f) = v AND 0x7f"
    by (rule bit_word_eqI) (simp only: and_0x7f, auto simp: bit_simps)
  show "ucast (((ucast (v AND 0x7f) :: u8) OR 0x80) AND 0x7f) = v AND 0x7f"
    by (rule bit_word_eqI) (simp only: and_0x7f, auto simp: bit_simps bit_0x80)
qed

lemma uleb_accumulate:
  fixes v :: u64
  shows "push_bit s (v AND 0x7f) OR push_bit (s + 7) (drop_bit 7 v) = push_bit s v"
proof (rule bit_word_eqI)
  fix n assume "n < LENGTH(64)"
  moreover have "s + 7 \<le> n \<Longrightarrow> 7 + (n - (s + 7)) = n - s"
    by simp
  ultimately show "bit (push_bit s (v AND 0x7f) OR push_bit (s + 7) (drop_bit 7 v)) n =
      bit (push_bit s v) n"
    by (cases "s + 7 \<le> n") (simp_all only: and_0x7f, auto simp: bit_simps)
qed

lemma buf_get_append [simp]: "buf_get (pre @ b # post) (length pre) = Some b"
  by (simp add: buf_get_def)

lemma uleb_shift_room:
  fixes v :: u64
  assumes "unat v < 2 ^ (64 - 7 * i)" "drop_bit 7 v \<noteq> 0" "i \<le> 9"
  shows "i < 9" "unat (drop_bit 7 v) < 2 ^ (64 - 7 * Suc i)"
proof -
  have big: "128 \<le> unat v"
    using assms(2) drop_bit_7_eq_0_iff [of v] by (simp add: word_less_nat_alt)
  show "i < 9"
  proof (rule ccontr)
    assume "\<not> i < 9"
    then have "i = 9" using assms(3) by simp
    then show False using assms(1) big by simp
  qed
  then have "64 - 7 * i = 7 + (64 - 7 * Suc i)"
    by simp
  then have "(2::nat) ^ (64 - 7 * i) = 128 * 2 ^ (64 - 7 * Suc i)"
    by (simp only: power_add) simp
  then show "unat (drop_bit 7 v) < 2 ^ (64 - 7 * Suc i)"
    using assms(1) by (simp add: unat_drop_bit_7 less_mult_imp_div_less mult.commute)
qed

lemma read_u64_loop_uleb:
  assumes "unat v < 2 ^ (64 - 7 * i)" "i \<le> 9" "buf = pre @ uleb v @ post"
  shows "read_u64_loop (10 - i) buf (length pre) acc (7 * i) =
    (Ok (acc OR push_bit (7 * i) v), length pre + length (uleb v))"
  using assms
proof (induction "unat v" arbitrary: v i pre acc rule: less_induct)
  case less
  obtain k where k: "10 - i = Suc k" "k = 10 - Suc i"
    using less.prems(2) by (cases "10 - i") auto
  show ?case
  proof (cases "drop_bit 7 v = 0")
    case True
    have v: "v AND 0x7f = v"
      using uleb_accumulate [of 0 v] True by simp
    have "\<not> (i = 9 \<and> (ucast v :: u8) > 1)"
    proof
      assume "i = 9 \<and> (ucast v :: u8) > 1"
      then have "unat v < 2" "1 < unat (ucast v :: u8)"
        using less.prems(1) by (auto simp: word_less_nat_alt)
      then show False
        by (simp add: unsigned_ucast_eq)
          (metis leD linorder_not_less nless_le numeral_2_eq_2 take_bit_nat_less_eq_self
            less_Suc_eq_le One_nat_def order_less_le_trans)
    qed
    then show ?thesis
      using True v uleb_byte_stop [of v] uleb_byte_stop_val [of v]
      by (auto simp: k less.prems(3) uleb_rec [of v] Let_def)
  next
    case False
    note room = uleb_shift_room [OF less.prems(1) False less.prems(2)]
    define b where "b = (ucast (v AND 0x7f) :: u8) OR 0x80"
    have u: "uleb v = b # uleb (drop_bit 7 v)"
      using False by (simp add: uleb_rec [of v] b_def)
    have "read_u64_loop (10 - i) buf (length pre) acc (7 * i) =
      read_u64_loop (10 - Suc i) buf (length (pre @ [b])) (acc OR push_bit (7 * i) (v AND 0x7f))
        (7 * Suc i)"
      using uleb_byte_cont [of v] uleb_byte_cont_val [of v]
      by (simp add: k less.prems(3) u b_def add.commute)
    also have "\<dots> = (Ok ((acc OR push_bit (7 * i) (v AND 0x7f)) OR push_bit (7 * Suc i) (drop_bit 7 v)),
        length (pre @ [b]) + length (uleb (drop_bit 7 v)))"
      using room by (intro less.hyps drop_bit_7_less False) (simp_all add: less.prems(3) u)
    finally show ?thesis
      using uleb_accumulate [of "7 * i" v] by (simp add: u or.assoc add.commute)
  qed
qed

text \<open>C21: decoding what the encoder appended to any prefix returns the value, and
  leaves the offset right behind the encoding, whatever follows it.\<close>

theorem read_u64_write_uleb128:
  "read_u64 (write_uleb128 v pre @ post) (length pre) = (Ok v, length (write_uleb128 v pre))"
  using read_u64_loop_uleb [of v 0 "write_uleb128 v pre @ post" pre post 0] unsigned_less [of v]
  by (simp add: read_u64_def write_uleb128_append)

section \<open>The 32-bit decoder\<close>

lemma bit_low7 [bit_simps]: "bit (low7 b) n \<longleftrightarrow> n < 7 \<and> bit b n"
  by (simp only: low7_def and_0x7f) (auto simp: bit_simps)

lemma bit_join32 [bit_simps]:
  "bit (join32 (low, high)) n \<longleftrightarrow> (n < 32 \<and> bit low n) \<or> (32 \<le> n \<and> n < 64 \<and> bit high (n - 32))"
  by (auto simp: join32_def bit_simps dest: bit_imp_le_length)

lemma byte_step_sim:
  assumes "\<And>b. join32 (body b lh) = join32 lh OR push_bit s (ucast (b AND 0x7f))"
    and "s \<noteq> 63"
    and "\<And>off b. rest off (body b lh) = read_u64_loop k buf off (join32 (body b lh)) (s + 7)"
  shows "byte_step buf body rest off lh = read_u64_loop (Suc k) buf off (join32 lh) s"
  using assms by (simp add: byte_step_def Let_def split: option.split)

lemma join32_low:
  assumes "s < 25"
  shows "join32 (low OR push_bit s (low7 b), 0) = join32 (low, 0) OR push_bit s (ucast (b AND 0x7f))"
proof (rule bit_word_eqI)
  fix n assume "n < LENGTH(64)"
  then show "bit (join32 (low OR push_bit s (low7 b), 0)) n =
      bit (join32 (low, 0) OR push_bit s (ucast (b AND 0x7f))) n"
    using assms by (simp only: and_0x7f) (auto simp: bit_simps)
qed

lemma join32_mid:
  "join32 (low OR push_bit 28 (low7 b), drop_bit 4 (low7 b)) =
    join32 (low, 0) OR push_bit 28 (ucast (b AND 0x7f))"
proof (rule bit_word_eqI)
  fix n assume "n < LENGTH(64)"
  moreover have "32 \<le> n \<Longrightarrow> 4 + (n - 32) = n - 28"
    by simp
  ultimately show "bit (join32 (low OR push_bit 28 (low7 b), drop_bit 4 (low7 b))) n =
      bit (join32 (low, 0) OR push_bit 28 (ucast (b AND 0x7f))) n"
    by (cases "32 \<le> n") (simp_all only: and_0x7f, auto simp: bit_simps)
qed

lemma join32_high:
  assumes "s < 25"
  shows "join32 (low, high OR push_bit s (low7 b)) =
    join32 (low, high) OR push_bit (32 + s) (ucast (b AND 0x7f))"
proof (rule bit_word_eqI)
  fix n assume "n < LENGTH(64)"
  moreover have "32 + s \<le> n \<Longrightarrow> n - 32 - s = n - (32 + s)"
    by simp
  ultimately show "bit (join32 (low, high OR push_bit s (low7 b))) n =
      bit (join32 (low, high) OR push_bit (32 + s) (ucast (b AND 0x7f))) n"
    using assms by (simp only: and_0x7f) (auto simp: bit_simps)
qed

lemma join32_last:
  fixes b :: u8
  assumes "b \<le> 1"
  shows "b AND 0x80 = 0"
    "join32 (low, high OR push_bit 31 (ucast b)) = join32 (low, high) OR push_bit 63 (ucast (b AND 0x7f))"
proof -
  have "unat b < 2 ^ 1"
    using assms by (simp add: word_le_nat_alt)
  then have b: "b = take_bit 1 b"
    by (metis take_bit_nat_eq_self unsigned_take_bit_eq unsigned_word_eqI)
  have bit: "bit b n \<longleftrightarrow> n = 0 \<and> bit b 0" for n
    by (subst b) (auto simp: bit_simps bit_0)
  show "b AND 0x80 = 0"
    unfolding and_0x80_eq_0_iff using bit [of 7] by simp
  show "join32 (low, high OR push_bit 31 (ucast b)) = join32 (low, high) OR push_bit 63 (ucast (b AND 0x7f))"
    (is "?l = ?r")
  proof (rule bit_word_eqI)
    fix n assume n: "n < LENGTH(64)"
    show "bit ?l n = bit ?r n"
      using n bit [of "n - 32 - 31"] bit [of "n - 63"]
      by (cases "n = 63") (simp_all only: and_0x7f, auto simp: bit_simps)
  qed
qed

lemma last_step_sim:
  "last_step buf off (low, high) = read_u64_loop 1 buf off (join32 (low, high)) 63"
  using join32_last by (auto simp: last_step_def Let_def not_less split: option.split)

lemma step_low_sim:
  assumes "\<And>off low. rest off (low, 0) = read_u64_loop k buf off (join32 (low, 0)) s'"
    and "s < 25" "s' = s + 7"
  shows "byte_step buf (\<lambda>b (low, high). (low OR push_bit s (low7 b), high)) rest off (low, 0) =
    read_u64_loop (Suc k) buf off (join32 (low, 0)) s"
  using assms by (intro byte_step_sim) (auto simp: join32_low)

lemma step_mid_sim:
  assumes "\<And>off low high. rest off (low, high) = read_u64_loop k buf off (join32 (low, high)) 35"
  shows "byte_step buf (\<lambda>b (low, high). (low OR push_bit 28 (low7 b), drop_bit 4 (low7 b)))
      rest off (low, 0) =
    read_u64_loop (Suc k) buf off (join32 (low, 0)) 28"
  using assms by (intro byte_step_sim) (auto simp: join32_mid)

lemma step_high_sim:
  assumes "\<And>off low high. rest off (low, high) = read_u64_loop k buf off (join32 (low, high)) t'"
    and "s < 25" "t = 32 + s" "t' = t + 7"
  shows "byte_step buf (\<lambda>b (low, high). (low, high OR push_bit s (low7 b))) rest off (low, high) =
    read_u64_loop (Suc k) buf off (join32 (low, high)) t"
  using assms by (intro byte_step_sim) (auto simp: join32_high)

lemma step_first_sim:
  assumes "\<And>off low. rest off (low, 0) = read_u64_loop k buf off (join32 (low, 0)) 7"
  shows "byte_step buf (\<lambda>b (low, high). (low7 b, high)) rest off (0, 0) =
    read_u64_loop (Suc k) buf off (join32 (0, 0)) 0"
  using assms join32_low [of 0 0] by (intro byte_step_sim) auto

lemma read_u64_32_slow_eq: "read_u64_32_slow buf off = read_u64 buf off"
proof -
  have unrolled: "read_u64 buf off =
      read_u64_loop (Suc (Suc (Suc (Suc (Suc (Suc (Suc (Suc (Suc 1))))))))) buf off (join32 (0, 0)) 0"
    by (simp add: read_u64_def join32_def eval_nat_numeral del: read_u64_loop.simps)
  show ?thesis
    unfolding read_u64_32_slow_def unrolled
    by (intro step_first_sim step_low_sim [where s = 7 and s' = 14]
        step_low_sim [where s = 14 and s' = 21] step_low_sim [where s = 21 and s' = 28] step_mid_sim
        step_high_sim [where s = 3 and t = 35 and t' = 42]
        step_high_sim [where s = 10 and t = 42 and t' = 49]
        step_high_sim [where s = 17 and t = 49 and t' = 56]
        step_high_sim [where s = 24 and t = 56 and t' = 63] last_step_sim) simp_all
qed

lemma byte_small_stop:
  fixes b :: u8
  assumes "b < 0x80"
  shows "b AND 0x80 = 0" "(ucast (b AND 0x7f) :: u64) = ucast b"
proof -
  have "unat b < 2 ^ 7"
    using assms by (simp add: word_less_nat_alt)
  then have b: "b = take_bit 7 b"
    by (metis take_bit_nat_eq_self unsigned_take_bit_eq unsigned_word_eqI)
  show "b AND 0x80 = 0"
    by (subst b) (simp only: and_0x80_eq_0_iff, simp add: bit_simps)
  show "(ucast (b AND 0x7f) :: u64) = ucast b"
    using b by (simp add: and_0x7f)
qed

text \<open>C23: the 32-bit decoder (fast path, two 32-bit halves, constant shifts) and
  the 64-bit loop return the same value or error and leave the same offset, on
  every buffer and offset.\<close>

theorem read_u64_32_eq: "read_u64_32 buf off = read_u64 buf off"
proof (cases "buf_get buf off")
  case None
  then show ?thesis by (simp add: read_u64_32_def read_u64_32_slow_eq)
next
  case (Some b)
  have "read_u64 buf off = (Ok (ucast b), off + 1)" if "b < 0x80"
    using that byte_small_stop [of b] Some
    by (simp add: read_u64_def numeral_eq_Suc [of num.One] eval_nat_numeral)
  then show ?thesis
    using Some by (simp add: read_u64_32_def read_u64_32_slow_eq)
qed

section \<open>Bounds\<close>

lemma read_u64_loop_offset:
  "off \<le> snd (read_u64_loop k buf off acc s) \<and>
   snd (read_u64_loop k buf off acc s) \<le> off + k \<and>
   snd (read_u64_loop k buf off acc s) \<le> max off (length buf)"
proof (induction k arbitrary: off acc s)
  case 0
  then show ?case by simp
next
  case (Suc k)
  show ?case
    using Suc.IH [of "off + 1"]
    by (auto simp: buf_get_def Let_def max_def split: option.split if_splits)
      (meson le_Suc_eq le_trans Suc_leD)+
qed

section \<open>The positional value\<close>

text \<open>The number a group of ULEB128 bytes denotes, with no width limit.\<close>

primrec uleb_value :: "bytes \<Rightarrow> nat" where
  "uleb_value [] = 0"
| "uleb_value (b # bs) = unat (b AND 0x7f) + 128 * uleb_value bs"

lemma bit_less_exp:
  fixes a :: u64
  assumes "unat a < 2 ^ s" "bit a n"
  shows "n < s"
proof (rule ccontr)
  assume "\<not> n < s"
  then have "unat a div 2 ^ n = 0"
    using assms(1) by (metis div_less less_le_trans not_less one_le_numeral power_increasing)
  moreover have "bit (unat a) n"
    using assms(2) by (simp add: bit_unsigned_iff bit_imp_le_length)
  ultimately show False
    by (simp add: bit_iff_odd)
qed

lemma or_push_bit_eq_add:
  fixes a x :: u64
  assumes a: "unat a < 2 ^ s" and x: "unat x < 2 ^ (64 - s)" and s: "s \<le> 64"
  shows "unat (a OR push_bit s x) = unat a + unat x * 2 ^ s"
    "unat a + unat x * 2 ^ s < 2 ^ 64"
proof -
  have "Suc (unat x) * 2 ^ s \<le> 2 ^ (64 - s) * 2 ^ s"
    using x by (intro mult_right_mono) auto
  also have "\<dots> = 2 ^ 64"
    using s by (simp flip: power_add)
  finally have fits: "unat a + unat x * 2 ^ s < 2 ^ 64"
    using a by simp
  have "unat (push_bit s x) = take_bit 64 (push_bit s (unat x))"
    by (simp only: unsigned_push_bit_eq) simp
  also have "\<dots> = unat x * 2 ^ s"
    using fits by (simp add: push_bit_eq_mult take_bit_nat_eq_self)
  finally have shift: "unat (push_bit s x) = unat x * 2 ^ s" .
  have "a AND push_bit s x = 0"
    by (rule bit_word_eqI) (auto simp: bit_simps dest: bit_less_exp [OF a])
  then have "a OR push_bit s x = a + push_bit s x"
    by (simp add: disjunctive_add_eq_or)
  then show "unat (a OR push_bit s x) = unat a + unat x * 2 ^ s"
    using shift fits by (simp add: unat_word_ariths)
  show "unat a + unat x * 2 ^ s < 2 ^ 64"
    by (rule fits)
qed

lemma unat_low7:
  fixes b :: u8
  shows unat_low7_ucast: "unat (ucast (b AND 0x7f) :: u64) = unat (b AND 0x7f)"
    and unat_low7_less: "unat (b AND 0x7f) < 128"
    and unat_low7_le: "unat (b AND 0x7f) \<le> unat b"
proof -
  show lt: "unat (b AND 0x7f) < 128"
    by (simp only: and_0x7f unsigned_take_bit_eq) (simp add: take_bit_eq_mod)
  show "unat (ucast (b AND 0x7f) :: u64) = unat (b AND 0x7f)"
    by (simp add: unsigned_ucast_eq) (rule take_bit_nat_eq_self, use lt in simp)
  show "unat (b AND 0x7f) \<le> unat b"
    by (simp only: and_0x7f unsigned_take_bit_eq) simp
qed

lemma low7_room:
  fixes b :: u8
  assumes "i < 9 \<or> i = 9 \<and> b \<le> 1"
  shows "unat (b AND 0x7f) < 2 ^ (64 - 7 * i)"
proof (cases "i < 9")
  case True
  have "unat (b AND 0x7f) < 2 ^ 7"
    using unat_low7_less [of b] by simp
  also have "(2::nat) ^ 7 \<le> 2 ^ (64 - 7 * i)"
    using True by (intro power_increasing) auto
  finally show ?thesis .
next
  case False
  then show ?thesis
    using assms unat_low7_le [of b] by (simp add: word_le_nat_alt)
qed

lemma read_u64_loop_value:
  assumes "read_u64_loop k buf off acc (7 * i) = (Ok v, off')"
    and "unat acc < 2 ^ (7 * i)" "i + k = 10"
  shows "off < off' \<and> off' \<le> off + k \<and> off' \<le> length buf \<and>
    unat v = unat acc + 2 ^ (7 * i) * uleb_value (take (off' - off) (drop off buf))"
  using assms
proof (induction k arbitrary: off acc i)
  case 0
  then show ?case by simp
next
  case (Suc k)
  obtain b where b: "buf_get buf off = Some b"
    using Suc.prems(1) by (cases "buf_get buf off") auto
  then have off: "off < length buf" "drop off buf = b # drop (Suc off) buf"
    by (auto simp: buf_get_def Cons_nth_drop_Suc split: if_splits)
  define acc' where "acc' = acc OR push_bit (7 * i) (ucast (b AND 0x7f))"
  have acc': "unat acc' = unat acc + unat (b AND 0x7f) * 2 ^ (7 * i)" if "i < 9 \<or> i = 9 \<and> b \<le> 1"
    using or_push_bit_eq_add(1) [OF Suc.prems(2), of "ucast (b AND 0x7f)"] low7_room [OF that] that
    by (auto simp: acc'_def unat_low7_ucast)
  show ?case
  proof (cases "b AND 0x80 = 0")
    case True
    then have "i < 9 \<or> i = 9 \<and> b \<le> 1" and v: "v = acc'" and off': "off' = Suc off"
      using Suc.prems b by (auto simp: acc'_def Let_def not_less split: if_splits)
    then show ?thesis
      using acc' off by simp
  next
    case False
    then have loop: "read_u64_loop k buf (Suc off) acc' (7 * Suc i) = (Ok v, off')"
      using Suc.prems(1) b by (simp add: acc'_def add.commute)
    then have i: "i < 9"
      using Suc.prems(3) by (cases k) auto
    have "unat acc' < Suc (unat (b AND 0x7f)) * 2 ^ (7 * i)"
      using acc' i Suc.prems(2) by simp
    also have "\<dots> \<le> 128 * 2 ^ (7 * i)"
      using unat_low7_less [of b] by (intro mult_right_mono) simp_all
    finally have "unat acc' < 2 ^ (7 * Suc i)"
      by (simp add: power_add)
    from Suc.IH [OF loop this] Suc.prems(3)
    have IH: "Suc off < off'" "off' \<le> Suc off + k" "off' \<le> length buf"
      "unat v = unat acc' + 2 ^ (7 * Suc i) * uleb_value (take (off' - Suc off) (drop (Suc off) buf))"
      by auto
    then have "take (off' - off) (drop off buf) = b # take (off' - Suc off) (drop (Suc off) buf)"
      using off by (simp add: take_Cons' Suc_diff_Suc)
    then show ?thesis
      using IH acc' i by (simp add: power_add algebra_simps)
  qed
qed

text \<open>C24: a decoded value is exactly the number its bytes denote: no bit is lost to
  the 64-bit width, the decoder consumed between one and ten bytes, and all of
  them lie inside the buffer.\<close>

theorem read_u64_exact:
  assumes "read_u64 buf off = (Ok v, off')"
  shows "off < off' \<and> off' \<le> off + 10 \<and> off' \<le> length buf \<and>
    unat v = uleb_value (take (off' - off) (drop off buf))"
  using read_u64_loop_value [of 10 buf off 0 0 v off'] assms by (simp add: read_u64_def)

theorem read_u64_exact_witness:
  "read_u64 [0xff, 0xe5, 0x8e, 0x26] 1 = (Ok 624485, 4) \<and>
   unat (624485 :: u64) = uleb_value [0xe5, 0x8e, 0x26]"
proof -
  have "read_u64 [0xff, 0xe5, 0x8e, 0x26] 1 = (Ok 624485, 4)"
    by code_simp
  then show ?thesis
    using read_u64_exact [of "[0xff, 0xe5, 0x8e, 0x26]" 1 624485 4] by simp
qed

end
