(* ===== verification/Telemetry_Types.thy ===== *)
theory Telemetry_Types
  imports Prelude
begin

text \<open>
  The shared vocabulary of the crate (\<^verbatim>\<open>src/src/lib.rs\<close>, \<^verbatim>\<open>src/src/macros.rs\<close> and the
  code tables of \<^verbatim>\<open>src/src/config.rs\<close>): element types, message shapes, delivery
  modes, the numeric error codes of the foreign-function boundary and the
  generic conversion of raw integers to \<^verbatim>\<open>#[repr(i32)]\<close> enums.
  Proved: the one-byte code tables are inverse to each other and reject every
  other byte, and which raw integers the enum conversion accepts.
\<close>

section \<open>Element types and message shapes\<close>

datatype MessageDataType =
    Float64 | Float32 | UInt8 | UInt16 | UInt32 | UInt64 | UInt128
  | Int8 | Int16 | Int32 | Int64 | Int128 | DBool | DString | Binary | NoData

datatype MessageClass = CData | CError | CWarning

datatype MessageElement =
    Static nat MessageDataType MessageClass
  | Dynamic MessageDataType MessageClass

datatype ReliableMode = RNone | Ordered | Unordered

datatype E2eEncryptionPolicy = PreferOff | PreferOn | RequireOn

fun data_type :: "MessageElement \<Rightarrow> MessageDataType" where
  "data_type (Static _ dt _) = dt"
| "data_type (Dynamic dt _) = dt"

fun message_type :: "MessageElement \<Rightarrow> MessageClass" where
  "message_type (Static _ _ mt) = mt"
| "message_type (Dynamic _ mt) = mt"

text \<open>\<^verbatim>\<open>MessageElement::into\<close>: the element count, zero for dynamic shapes.\<close>

fun element_into :: "MessageElement \<Rightarrow> nat" where
  "element_into (Static a _ _) = a"
| "element_into _ = 0"

text \<open>The two runtime tunables that give strings and binaries their static width.\<close>

record StaticLengths =
  static_string_length :: nat
  static_hex_length :: nat

fun data_type_size :: "StaticLengths \<Rightarrow> MessageDataType \<Rightarrow> nat" where
  "data_type_size cfg Float64 = 8"
| "data_type_size cfg Float32 = 4"
| "data_type_size cfg UInt8 = 1"
| "data_type_size cfg UInt16 = 2"
| "data_type_size cfg UInt32 = 4"
| "data_type_size cfg UInt64 = 8"
| "data_type_size cfg UInt128 = 16"
| "data_type_size cfg Int8 = 1"
| "data_type_size cfg Int16 = 2"
| "data_type_size cfg Int32 = 4"
| "data_type_size cfg Int64 = 8"
| "data_type_size cfg Int128 = 16"
| "data_type_size cfg DBool = 1"
| "data_type_size cfg DString = static_string_length cfg"
| "data_type_size cfg Binary = static_hex_length cfg"
| "data_type_size cfg NoData = 0"

section \<open>One-byte codes (config.rs)\<close>

fun message_data_type_code :: "MessageDataType \<Rightarrow> u8" where
  "message_data_type_code Float64 = 0"
| "message_data_type_code Float32 = 1"
| "message_data_type_code UInt8 = 2"
| "message_data_type_code UInt16 = 3"
| "message_data_type_code UInt32 = 4"
| "message_data_type_code UInt64 = 5"
| "message_data_type_code UInt128 = 6"
| "message_data_type_code Int8 = 7"
| "message_data_type_code Int16 = 8"
| "message_data_type_code Int32 = 9"
| "message_data_type_code Int64 = 10"
| "message_data_type_code Int128 = 11"
| "message_data_type_code DBool = 12"
| "message_data_type_code DString = 13"
| "message_data_type_code Binary = 14"
| "message_data_type_code NoData = 15"

definition message_data_type_from_code :: "u8 \<Rightarrow> MessageDataType option" where
  "message_data_type_from_code code =
    (if code = 0 then Some Float64
     else if code = 1 then Some Float32
     else if code = 2 then Some UInt8
     else if code = 3 then Some UInt16
     else if code = 4 then Some UInt32
     else if code = 5 then Some UInt64
     else if code = 6 then Some UInt128
     else if code = 7 then Some Int8
     else if code = 8 then Some Int16
     else if code = 9 then Some Int32
     else if code = 10 then Some Int64
     else if code = 11 then Some Int128
     else if code = 12 then Some DBool
     else if code = 13 then Some DString
     else if code = 14 then Some Binary
     else if code = 15 then Some NoData
     else None)"

fun message_class_code :: "MessageClass \<Rightarrow> u8" where
  "message_class_code CData = 0"
| "message_class_code CError = 1"
| "message_class_code CWarning = 2"

definition message_class_from_code :: "u8 \<Rightarrow> MessageClass option" where
  "message_class_from_code code =
    (if code = 0 then Some CData
     else if code = 1 then Some CError
     else if code = 2 then Some CWarning
     else None)"

fun reliable_code :: "ReliableMode \<Rightarrow> u8" where
  "reliable_code RNone = 0"
| "reliable_code Ordered = 1"
| "reliable_code Unordered = 2"

definition reliable_from_code :: "u8 \<Rightarrow> ReliableMode option" where
  "reliable_from_code code =
    (if code = 0 then Some RNone
     else if code = 1 then Some Ordered
     else if code = 2 then Some Unordered
     else None)"

fun e2e_encryption_policy_code :: "E2eEncryptionPolicy \<Rightarrow> u8" where
  "e2e_encryption_policy_code PreferOff = 0"
| "e2e_encryption_policy_code PreferOn = 1"
| "e2e_encryption_policy_code RequireOn = 2"

definition e2e_encryption_policy_from_code :: "u8 \<Rightarrow> E2eEncryptionPolicy option" where
  "e2e_encryption_policy_from_code code =
    (if code = 0 then Some PreferOff
     else if code = 1 then Some PreferOn
     else if code = 2 then Some RequireOn
     else None)"

section \<open>Error codes of the foreign-function boundary (lib.rs)\<close>

datatype TelemetryErrorCode =
    EC_GenericError | EC_InvalidType | EC_SizeMismatch | EC_SizeMismatchError
  | EC_EmptyEndpoints | EC_TimestampInvalid | EC_MissingPayload | EC_HandlerError
  | EC_BadArg | EC_PermissionDenied | EC_Pack | EC_Unpack | EC_Io | EC_InvalidUtf8
  | EC_TypeMismatch | EC_InvalidLinkId | EC_PacketTooLarge

fun error_code_i32 :: "TelemetryErrorCode \<Rightarrow> int" where
  "error_code_i32 EC_GenericError = -2"
| "error_code_i32 EC_InvalidType = -3"
| "error_code_i32 EC_SizeMismatch = -4"
| "error_code_i32 EC_SizeMismatchError = -5"
| "error_code_i32 EC_EmptyEndpoints = -6"
| "error_code_i32 EC_TimestampInvalid = -7"
| "error_code_i32 EC_MissingPayload = -8"
| "error_code_i32 EC_HandlerError = -9"
| "error_code_i32 EC_BadArg = -10"
| "error_code_i32 EC_PermissionDenied = -11"
| "error_code_i32 EC_Pack = -12"
| "error_code_i32 EC_Unpack = -13"
| "error_code_i32 EC_Io = -14"
| "error_code_i32 EC_InvalidUtf8 = -15"
| "error_code_i32 EC_TypeMismatch = -16"
| "error_code_i32 EC_InvalidLinkId = -17"
| "error_code_i32 EC_PacketTooLarge = -18"

fun to_error_code :: "TelemetryError \<Rightarrow> TelemetryErrorCode" where
  "to_error_code (GenericError _) = EC_GenericError"
| "to_error_code InvalidType = EC_InvalidType"
| "to_error_code (SizeMismatch _ _) = EC_SizeMismatch"
| "to_error_code SizeMismatchError = EC_SizeMismatchError"
| "to_error_code EmptyEndpoints = EC_EmptyEndpoints"
| "to_error_code TimestampInvalid = EC_TimestampInvalid"
| "to_error_code MissingPayload = EC_MissingPayload"
| "to_error_code (HandlerError _) = EC_HandlerError"
| "to_error_code BadArg = EC_BadArg"
| "to_error_code PermissionDenied = EC_PermissionDenied"
| "to_error_code (Pack _) = EC_Pack"
| "to_error_code (Unpack _) = EC_Unpack"
| "to_error_code (Io _) = EC_Io"
| "to_error_code InvalidUtf8 = EC_InvalidUtf8"
| "to_error_code (TypeMismatch _ _) = EC_TypeMismatch"
| "to_error_code (InvalidLinkId _) = EC_InvalidLinkId"
| "to_error_code (PacketTooLarge _) = EC_PacketTooLarge"

definition error_code_MAX :: int where
  "error_code_MAX = error_code_i32 EC_InvalidType"

definition error_code_MIN :: int where
  "error_code_MIN = error_code_i32 EC_PacketTooLarge"

datatype RouteSelectionMode = Fanout | Weighted | Failover

fun route_mode_i32 :: "RouteSelectionMode \<Rightarrow> int" where
  "route_mode_i32 Fanout = 0"
| "route_mode_i32 Weighted = 1"
| "route_mode_i32 Failover = 2"

text \<open>The associated constants the macro \<^verbatim>\<open>impl_repr_i32_enum!\<close> gives a type; its
  arguments are the type, the maximum and the minimum, in this order.\<close>

record ReprI32Enum =
  repr_MAX :: int
  repr_MIN :: int

definition impl_repr_i32_enum :: "int \<Rightarrow> int \<Rightarrow> ReprI32Enum" where
  "impl_repr_i32_enum mx mn = \<lparr>repr_MAX = mx, repr_MIN = mn\<rparr>"

definition error_code_repr :: ReprI32Enum where
  "error_code_repr = impl_repr_i32_enum error_code_MAX error_code_MIN"

definition route_mode_repr :: ReprI32Enum where
  "route_mode_repr = impl_repr_i32_enum (route_mode_i32 Fanout) (route_mode_i32 Failover)"

text \<open>\<^verbatim>\<open>try_enum_from_i32\<close>: the range guard, then the reinterpreting read, here the
  search for the variant with that discriminant.\<close>

definition try_enum_from_i32 :: "ReprI32Enum \<Rightarrow> (int \<times> 'e) list \<Rightarrow> int \<Rightarrow> 'e option" where
  "try_enum_from_i32 E variants x =
    (if x < repr_MIN E \<or> x > repr_MAX E then None else map_of variants x)"

definition all_error_codes :: "TelemetryErrorCode list" where
  "all_error_codes =
    [EC_GenericError, EC_InvalidType, EC_SizeMismatch, EC_SizeMismatchError, EC_EmptyEndpoints,
     EC_TimestampInvalid, EC_MissingPayload, EC_HandlerError, EC_BadArg, EC_PermissionDenied,
     EC_Pack, EC_Unpack, EC_Io, EC_InvalidUtf8, EC_TypeMismatch, EC_InvalidLinkId, EC_PacketTooLarge]"

definition try_from_i32 :: "int \<Rightarrow> TelemetryErrorCode option" where
  "try_from_i32 x =
    try_enum_from_i32 error_code_repr (map (\<lambda>c. (error_code_i32 c, c)) all_error_codes) x"

definition route_mode_try_from_i32 :: "int \<Rightarrow> RouteSelectionMode option" where
  "route_mode_try_from_i32 x =
    try_enum_from_i32 route_mode_repr
      (map (\<lambda>m. (route_mode_i32 m, m)) [Fanout, Weighted, Failover]) x"

fun as_str :: "TelemetryErrorCode \<Rightarrow> string" where
  "as_str EC_GenericError = ''GenericError''"
| "as_str EC_InvalidType = ''{Invalid Type}''"
| "as_str EC_SizeMismatch = ''{Size Mismatch}''"
| "as_str EC_SizeMismatchError = ''{Size Mismatch Error}''"
| "as_str EC_EmptyEndpoints = ''{Empty Endpoints}''"
| "as_str EC_TimestampInvalid = ''{Timestamp Invalid}''"
| "as_str EC_MissingPayload = ''{Missing Payload}''"
| "as_str EC_HandlerError = ''{Handler Error}''"
| "as_str EC_BadArg = ''{Bad Arg}''"
| "as_str EC_PermissionDenied = ''{Permission Denied}''"
| "as_str EC_Pack = ''{Pack Error}''"
| "as_str EC_Unpack = ''{Unpack Error}''"
| "as_str EC_Io = ''{IO Error}''"
| "as_str EC_InvalidUtf8 = ''{Invalid UTF-8}''"
| "as_str EC_TypeMismatch = ''{Type Mismatch}''"
| "as_str EC_InvalidLinkId = ''{Invalid Link ID}''"
| "as_str EC_PacketTooLarge = ''{Packet Too Large}''"

text \<open>\<^verbatim>\<open>error_code_to_string\<close> of the C interface (\<^verbatim>\<open>c_api.rs\<close>), with
  \<^verbatim>\<open>SedsOk = 0\<close> and \<^verbatim>\<open>SedsErr = 1\<close>.\<close>

definition error_code_to_string :: "int \<Rightarrow> string" where
  "error_code_to_string error_code =
    (case try_from_i32 error_code of
      Some s \<Rightarrow> as_str s
    | None \<Rightarrow> if error_code = 0 then ''SEDS OK''
              else if error_code = 1 then ''SEDS ERROR''
              else ''Unknown error'')"

section \<open>Lemmas\<close>

lemma message_data_type_from_to [codec_simps, simp]:
  "message_data_type_from_code (message_data_type_code dt) = Some dt"
  by (cases dt) (simp_all add: message_data_type_from_code_def)

lemma message_class_from_to [codec_simps, simp]:
  "message_class_from_code (message_class_code c) = Some c"
  by (cases c) (simp_all add: message_class_from_code_def)

lemma reliable_from_to [codec_simps, simp]: "reliable_from_code (reliable_code m) = Some m"
  by (cases m) (simp_all add: reliable_from_code_def)

lemma e2e_policy_from_to [codec_simps, simp]:
  "e2e_encryption_policy_from_code (e2e_encryption_policy_code p) = Some p"
  by (cases p) (simp_all add: e2e_encryption_policy_from_code_def)

lemma message_data_type_to_from:
  "message_data_type_from_code c = Some dt \<Longrightarrow> message_data_type_code dt = c"
  by (auto simp: message_data_type_from_code_def split: if_splits)

lemma message_class_to_from:
  "message_class_from_code c = Some m \<Longrightarrow> message_class_code m = c"
  by (auto simp: message_class_from_code_def split: if_splits)

lemma reliable_to_from: "reliable_from_code c = Some m \<Longrightarrow> reliable_code m = c"
  by (auto simp: reliable_from_code_def split: if_splits)

lemma e2e_policy_to_from:
  "e2e_encryption_policy_from_code c = Some m \<Longrightarrow> e2e_encryption_policy_code m = c"
  by (auto simp: e2e_encryption_policy_from_code_def split: if_splits)

text \<open>The four one-byte code tables are bijections onto the bytes they accept:
  a code read back gives the variant it was written for, and a byte is accepted
  exactly when it is some variant's code.\<close>

theorem code_tables_bijective:
  "(message_data_type_from_code b = Some dt \<longleftrightarrow> message_data_type_code dt = b) \<and>
   (message_class_from_code b = Some cl \<longleftrightarrow> message_class_code cl = b) \<and>
   (reliable_from_code b = Some rm \<longleftrightarrow> reliable_code rm = b) \<and>
   (e2e_encryption_policy_from_code b = Some ep \<longleftrightarrow> e2e_encryption_policy_code ep = b)"
  using message_data_type_to_from message_class_to_from reliable_to_from e2e_policy_to_from
  by auto

lemma try_from_i32_in_range:
  "code \<noteq> EC_GenericError \<Longrightarrow> try_from_i32 (error_code_i32 code) = Some code"
  by (cases code)
    (simp_all add: try_from_i32_def try_enum_from_i32_def error_code_repr_def impl_repr_i32_enum_def
      error_code_MAX_def error_code_MIN_def all_error_codes_def)

text \<open>C26: the error code of an error reads back to itself, and prints as its own
  name, except for the generic error, whose code \<^verbatim>\<open>-2\<close> lies above the declared
  maximum: it is rejected and prints as an unknown error.\<close>

theorem try_from_i32_error_code:
  "(try_from_i32 (error_code_i32 (to_error_code e)),
    error_code_to_string (error_code_i32 (to_error_code e))) =
    (if (\<exists>msg. e = GenericError msg) then (None, ''Unknown error'')
     else (Some (to_error_code e), as_str (to_error_code e)))"
proof (cases "to_error_code e = EC_GenericError")
  case True
  then have "\<exists>msg. e = GenericError msg"
    by (cases e) auto
  then show ?thesis
    using True by (auto simp: error_code_to_string_def try_from_i32_def try_enum_from_i32_def error_code_repr_def
        impl_repr_i32_enum_def error_code_MAX_def error_code_MIN_def)
next
  case False
  then have "\<not> (\<exists>msg. e = GenericError msg)"
    by auto
  then show ?thesis
    using try_from_i32_in_range [OF False] by (simp add: error_code_to_string_def)
qed

text \<open>The route selection modes register their bounds in the wrong order, so
  the conversion of a raw integer rejects every value, the three valid ones
  included.\<close>

theorem route_mode_try_from_i32_rejects: "route_mode_try_from_i32 x = None"
  by (auto simp: route_mode_try_from_i32_def try_enum_from_i32_def route_mode_repr_def
      impl_repr_i32_enum_def)

end
