(* ===== verification/Schema_Identity.thy ===== *)
theory Schema_Identity
  imports Prelude
begin

text \<open>
  Stable schema identities (\<^verbatim>\<open>src/src/schema_identity.rs\<close>): the 28-bit FNV-1a hash that
  gives an application name its wire id, the reserved protocol names that keep
  small ids, and the resolution of an explicit id.  Proved: the reserved table
  of hash constants is exact, a name has a protocol id only if it is that
  protocol name, and resolution accepts an id exactly when no protocol identity
  is stolen or renamed.
\<close>

section \<open>Definitions\<close>

text \<open>\<^verbatim>\<open>as_bytes\<close> of a string slice.\<close>

definition as_bytes :: "string \<Rightarrow> bytes" where
  "as_bytes s = map of_char s"

definition name_id :: "string \<Rightarrow> u32 \<Rightarrow> u32" where
  "name_id name namespace =
    0x10000 OR
    (foldl (\<lambda>hash b. (hash XOR ucast b) * 0x01000193) (0x811c9dc5 XOR namespace) (as_bytes name)
      AND 0x0fffffff)"

text \<open>\<^verbatim>\<open>equal\<close>: the byte-by-byte comparison loop.\<close>

fun equal_loop :: "bytes \<Rightarrow> bytes \<Rightarrow> bool" where
  "equal_loop (x # xs) (y # ys) = (if x \<noteq> y then False else equal_loop xs ys)"
| "equal_loop _ _ = True"

definition equal_str :: "string \<Rightarrow> string \<Rightarrow> bool" where
  "equal_str a b =
    (if length (as_bytes a) \<noteq> length (as_bytes b) then False
     else equal_loop (as_bytes a) (as_bytes b))"

definition reserved_endpoints :: "(u32 \<times> string \<times> u32) list" where
  "reserved_endpoints =
    [(179412986, ''SEDSNET_ERROR'', 202),
     (108886069, ''SEDSNET_TIME_SYNC'', 200),
     (216355494, ''SEDSNET_DISCOVERY'', 201)]"

definition endpoint_id :: "string \<Rightarrow> u32" where
  "endpoint_id name =
    (let hashed = name_id name 0x4550 in
     case map_of reserved_endpoints hashed of
       None \<Rightarrow> hashed
     | Some (reserved_name, pid) \<Rightarrow> if equal_str name reserved_name then pid else hashed)"

definition reserved_types :: "(u32 \<times> string \<times> u32) list" where
  "reserved_types =
    [(58436129, ''SEDSNET_ERROR'', 0),
     (106117325, ''SEDSNET_RELIABLE_ACK'', 1),
     (196062750, ''SEDSNET_RELIABLE_PACKET_REQUEST'', 2),
     (148884243, ''SEDSNET_RELIABLE_PARTIAL_ACK'', 3),
     (109685708, ''SEDSNET_TIME_SYNC_ANNOUNCE'', 4),
     (170500828, ''SEDSNET_TIME_SYNC_REQUEST'', 5),
     (205765904, ''SEDSNET_TIME_SYNC_RESPONSE'', 6),
     (30659965, ''SEDSNET_DISCOVERY_ANNOUNCE'', 7),
     (235996729, ''SEDSNET_DISCOVERY_TIMESYNC_SOURCES'', 8),
     (240880835, ''SEDSNET_DISCOVERY_TOPOLOGY'', 9),
     (180082409, ''SEDSNET_DISCOVERY_SCHEMA'', 10),
     (9124173, ''SEDSNET_DISCOVERY_TOPOLOGY_REQUEST'', 11),
     (259220559, ''SEDSNET_DISCOVERY_SCHEMA_REQUEST'', 12),
     (190130393, ''SEDSNET_MANAGED_VARIABLE_REQUEST'', 13),
     (148495321, ''SEDSNET_MANAGED_VARIABLE_VALUE'', 14),
     (79804237, ''SEDSNET_DISCOVERY_LEAVE'', 15),
     (155796665, ''SEDSNET_DISCOVERY_LINK_CAPABILITIES'', 16),
     (133165958, ''SEDSNET_DISCOVERY_ADDRESS'', 17),
     (32457485, ''SEDSNET_P2P_MESSAGE'', 18)]"

definition type_id :: "string \<Rightarrow> u32" where
  "type_id name =
    (let hashed = name_id name 0x5459 in
     case map_of reserved_types hashed of
       None \<Rightarrow> hashed
     | Some (reserved_name, pid) \<Rightarrow> if equal_str name reserved_name then pid else hashed)"

text \<open>\<^verbatim>\<open>resolve\<close>; its errors are static strings.\<close>

definition resolve :: "string \<Rightarrow> u32 option \<Rightarrow> u32 \<Rightarrow> bool \<Rightarrow> bool \<Rightarrow> string + u32" where
  "resolve name explicit dflt protocol_name endpoint =
    (if name = [] then Inl ''schema name must not be empty''
     else
       let id = (case explicit of Some x \<Rightarrow> x | None \<Rightarrow> dflt);
           protocol_id = (if endpoint then 200 \<le> id \<and> id \<le> 202 else id \<le> 18) in
       if (protocol_name \<and> id \<noteq> dflt) \<or> (protocol_id \<and> (\<not> protocol_name \<or> id \<noteq> dflt))
       then Inl ''schema ID conflicts with a reserved SEDSNET protocol identity''
       else Inr id)"

definition resolve_endpoint :: "string \<Rightarrow> u32 option \<Rightarrow> string + u32" where
  "resolve_endpoint name explicit =
    resolve name explicit (endpoint_id name)
      (200 \<le> endpoint_id name \<and> endpoint_id name \<le> 202) True"

definition resolve_type :: "string \<Rightarrow> u32 option \<Rightarrow> string + u32" where
  "resolve_type name explicit =
    resolve name explicit (type_id name) (type_id name \<le> 18) False"

section \<open>Lemmas\<close>

lemma of_char_u8_inject: "(of_char c :: u8) = of_char d \<longleftrightarrow> c = d"
proof -
  have nat: "unat (of_char e :: u8) = (of_char e :: nat)" for e
  proof -
    have "unat (of_nat (of_char e) :: u8) = (of_char e :: nat) mod 256"
      by (simp only: unsigned_of_nat take_bit_eq_mod) simp
    then show ?thesis
      by (simp only: of_nat_of_char of_char_mod_256)
  qed
  show ?thesis
  proof
    assume "(of_char c :: u8) = of_char d"
    then have "(of_char c :: nat) = of_char d"
      by (metis nat)
    then show "c = d"
      by simp
  qed simp
qed

lemma equal_loop_iff: "length xs = length ys \<Longrightarrow> equal_loop xs ys \<longleftrightarrow> xs = ys"
  by (induction xs ys rule: equal_loop.induct) auto

lemma equal_str_iff [simp]: "equal_str a b \<longleftrightarrow> a = b"
proof -
  have "inj (of_char :: char \<Rightarrow> u8)"
    by (rule injI) (simp add: of_char_u8_inject)
  then show ?thesis
    unfolding equal_str_def as_bytes_def
    by (auto simp: equal_loop_iff inj_map_eq_map)
qed

lemma name_id_large: "0x10000 \<le> name_id name ns"
  by (simp add: name_id_def le_word_or2)

text \<open>The protocol names with their ids, in table order.\<close>

definition protocol_types :: "(string \<times> u32) list" where
  "protocol_types = map snd reserved_types"

definition protocol_endpoints :: "(string \<times> u32) list" where
  "protocol_endpoints = map snd reserved_endpoints"

lemma reserved_types_exact: "list_all (\<lambda>(h, name, _). name_id name 0x5459 = h) reserved_types"
  by code_simp

lemma reserved_endpoints_exact: "list_all (\<lambda>(h, name, _). name_id name 0x4550 = h) reserved_endpoints"
  by code_simp

lemma reserved_distinct:
  "distinct (map fst reserved_types)" "distinct (map fst protocol_types)"
  "distinct (map fst reserved_endpoints)" "distinct (map fst protocol_endpoints)"
  by code_simp+

lemma reserved_lookup:
  assumes exact: "list_all (\<lambda>(h, name, _). f name = h) tab"
    and dist: "distinct (map fst tab)" "distinct (map fst (map snd tab))"
  shows "(case map_of tab (f name) of None \<Rightarrow> f name
          | Some (reserved_name, pid) \<Rightarrow> if name = reserved_name then pid else f name) =
    (case map_of (map snd tab) name of Some i \<Rightarrow> i | None \<Rightarrow> f name)"
proof (cases "map_of (map snd tab) name")
  case None
  then have "map_of tab (f name) = Some (n, i) \<Longrightarrow> n \<noteq> name" for n i
    by (force simp: map_of_eq_None_iff dest!: map_of_SomeD)
  then show ?thesis
    using None by (auto split: option.split)
next
  case (Some i)
  then obtain h where "(h, name, i) \<in> set tab"
    by (auto dest!: map_of_SomeD)
  moreover from this have "h = f name"
    using exact by (auto simp: list_all_iff)
  ultimately have "map_of tab (f name) = Some (name, i)"
    using dist(1) by (intro map_of_is_SomeI) auto
  then show ?thesis
    using Some by simp
qed

lemma type_id_eq:
  "type_id name = (case map_of protocol_types name of Some i \<Rightarrow> i | None \<Rightarrow> name_id name 0x5459)"
  unfolding type_id_def Let_def equal_str_iff protocol_types_def
  by (rule reserved_lookup [OF reserved_types_exact reserved_distinct(1)
        reserved_distinct(2) [unfolded protocol_types_def]])

lemma endpoint_id_eq:
  "endpoint_id name =
    (case map_of protocol_endpoints name of Some i \<Rightarrow> i | None \<Rightarrow> name_id name 0x4550)"
  unfolding endpoint_id_def Let_def equal_str_iff protocol_endpoints_def
  by (rule reserved_lookup [OF reserved_endpoints_exact reserved_distinct(3)
        reserved_distinct(4) [unfolded protocol_endpoints_def]])

lemma protocol_ids_small:
  "list_all (\<lambda>(_, i). i \<le> 18) protocol_types"
  "list_all (\<lambda>(_, i). 200 \<le> i \<and> i \<le> 202) protocol_endpoints"
  by code_simp+

lemma type_id_protocol_iff: "type_id name \<le> 18 \<longleftrightarrow> map_of protocol_types name \<noteq> None"
proof (cases "map_of protocol_types name")
  case None
  have "\<not> name_id name 0x5459 \<le> 18"
    using name_id_large [of name "0x5459"] by (auto simp: word_le_nat_alt)
  then show ?thesis
    using None by (simp add: type_id_eq)
next
  case (Some i)
  then show ?thesis
    using protocol_ids_small(1) by (auto simp: type_id_eq list_all_iff dest: map_of_SomeD)
qed

lemma endpoint_id_protocol_iff:
  "200 \<le> endpoint_id name \<and> endpoint_id name \<le> 202 \<longleftrightarrow> map_of protocol_endpoints name \<noteq> None"
proof (cases "map_of protocol_endpoints name")
  case None
  have "\<not> name_id name 0x4550 \<le> 202"
    using name_id_large [of name "0x4550"] by (auto simp: word_le_nat_alt)
  then show ?thesis
    using None by (simp add: endpoint_id_eq)
next
  case (Some i)
  then show ?thesis
    using protocol_ids_small(2) by (auto simp: endpoint_id_eq list_all_iff dest: map_of_SomeD)
qed

lemma resolve_type_eq:
  "resolve_type name (Some i) =
    (if name = [] then Inl ''schema name must not be empty''
     else if (case map_of protocol_types name of Some p \<Rightarrow> i = p | None \<Rightarrow> 18 < i) then Inr i
     else Inl ''schema ID conflicts with a reserved SEDSNET protocol identity'')"
  using type_id_protocol_iff [of name]
  by (auto simp: resolve_type_def resolve_def Let_def type_id_eq not_le split: option.splits)

lemma resolve_endpoint_eq:
  "resolve_endpoint name (Some i) =
    (if name = [] then Inl ''schema name must not be empty''
     else if (case map_of protocol_endpoints name of Some p \<Rightarrow> i = p | None \<Rightarrow> i < 200 \<or> 202 < i)
       then Inr i
     else Inl ''schema ID conflicts with a reserved SEDSNET protocol identity'')"
  using endpoint_id_protocol_iff [of name]
  by (auto simp: resolve_endpoint_def resolve_def Let_def endpoint_id_eq not_le split: option.splits)


end
