(* ===== verification/Schema_Registry.thy ===== *)
theory Schema_Registry
  imports Telemetry_Types Schema_Identity
begin

text \<open>
  The hosted schema registry (\<^verbatim>\<open>src/src/config.rs\<close>): endpoint and type definitions, the
  built-in protocol schema, registration, lookup, removal and the byte cost of
  what is stored.  An operation takes the registry and returns its result with
  the new registry; the global mutex makes each of them one step.  Layout sizes
  of the stored tuples are fixed by the compiler and are arguments.
  Proved: the built-in schema registers, ids and names stay unique and sorted
  under every operation here, a rejected operation changes nothing, and the
  protocol entries survive.
\<close>

section \<open>Protocol identifiers\<close>

type_synonym DataType = u32
type_synonym DataEndpoint = u32

abbreviation EP_TimeSync :: DataEndpoint where "EP_TimeSync \<equiv> 200"
abbreviation EP_Discovery :: DataEndpoint where "EP_Discovery \<equiv> 201"
abbreviation EP_TelemetryError :: DataEndpoint where "EP_TelemetryError \<equiv> 202"

abbreviation DT_TelemetryError :: DataType where "DT_TelemetryError \<equiv> 0"
abbreviation DT_ReliableAck :: DataType where "DT_ReliableAck \<equiv> 1"
abbreviation DT_ReliablePacketRequest :: DataType where "DT_ReliablePacketRequest \<equiv> 2"
abbreviation DT_ReliablePartialAck :: DataType where "DT_ReliablePartialAck \<equiv> 3"
abbreviation DT_TimeSyncAnnounce :: DataType where "DT_TimeSyncAnnounce \<equiv> 4"
abbreviation DT_TimeSyncRequest :: DataType where "DT_TimeSyncRequest \<equiv> 5"
abbreviation DT_TimeSyncResponse :: DataType where "DT_TimeSyncResponse \<equiv> 6"
abbreviation DT_DiscoveryAnnounce :: DataType where "DT_DiscoveryAnnounce \<equiv> 7"
abbreviation DT_DiscoveryTimeSyncSources :: DataType where "DT_DiscoveryTimeSyncSources \<equiv> 8"
abbreviation DT_DiscoveryTopology :: DataType where "DT_DiscoveryTopology \<equiv> 9"
abbreviation DT_DiscoverySchema :: DataType where "DT_DiscoverySchema \<equiv> 10"
abbreviation DT_DiscoveryTopologyRequest :: DataType where "DT_DiscoveryTopologyRequest \<equiv> 11"
abbreviation DT_DiscoverySchemaRequest :: DataType where "DT_DiscoverySchemaRequest \<equiv> 12"
abbreviation DT_ManagedVariableRequest :: DataType where "DT_ManagedVariableRequest \<equiv> 13"
abbreviation DT_ManagedVariableValue :: DataType where "DT_ManagedVariableValue \<equiv> 14"
abbreviation DT_DiscoveryLeave :: DataType where "DT_DiscoveryLeave \<equiv> 15"
abbreviation DT_DiscoveryLinkCapabilities :: DataType where "DT_DiscoveryLinkCapabilities \<equiv> 16"
abbreviation DT_DiscoveryAddress :: DataType where "DT_DiscoveryAddress \<equiv> 17"
abbreviation DT_P2pMessage :: DataType where "DT_P2pMessage \<equiv> 18"

definition is_internal_endpoint :: "DataEndpoint \<Rightarrow> bool" where
  "is_internal_endpoint ep = (ep \<in> set [EP_TelemetryError, EP_TimeSync, EP_Discovery])"

definition is_internal_data_type :: "DataType \<Rightarrow> bool" where
  "is_internal_data_type ty =
    (ty \<in> set [DT_TelemetryError, DT_ReliableAck, DT_ReliablePacketRequest, DT_ReliablePartialAck,
       DT_TimeSyncAnnounce, DT_TimeSyncRequest, DT_TimeSyncResponse, DT_DiscoveryAnnounce,
       DT_DiscoveryTimeSyncSources, DT_DiscoveryTopology, DT_DiscoverySchema,
       DT_DiscoveryTopologyRequest, DT_DiscoverySchemaRequest, DT_ManagedVariableRequest,
       DT_ManagedVariableValue, DT_DiscoveryLeave, DT_DiscoveryLinkCapabilities,
       DT_DiscoveryAddress, DT_P2pMessage])"

section \<open>Definitions stored and exchanged\<close>

record EndpointMeta =
  em_name :: string
  em_description :: string
  em_link_local_only :: bool

record MessageMeta =
  mm_name :: string
  mm_description :: string
  mm_element :: MessageElement
  mm_endpoints :: "DataEndpoint list"
  mm_reliable :: ReliableMode
  mm_priority :: u8
  mm_e2e_encryption :: E2eEncryptionPolicy

record OwnedEndpointDefinition =
  oe_id :: DataEndpoint
  oe_name :: string
  oe_description :: string
  oe_link_local_only :: bool

record OwnedDataTypeDefinition =
  ot_id :: DataType
  ot_name :: string
  ot_description :: string
  ot_element :: MessageElement
  ot_endpoints :: "DataEndpoint list"
  ot_reliable :: ReliableMode
  ot_priority :: u8
  ot_e2e_encryption :: E2eEncryptionPolicy

record OwnedRuntimeSchemaSnapshot =
  sn_endpoints :: "OwnedEndpointDefinition list"
  sn_types :: "OwnedDataTypeDefinition list"

record Registry =
  endpoints :: "(DataEndpoint \<times> EndpointMeta) list"
  types :: "(DataType \<times> MessageMeta) list"
  next_endpoint_id :: u32
  next_type_id :: u32

definition empty_registry :: Registry where
  "empty_registry = \<lparr>endpoints = [], types = [], next_endpoint_id = 0, next_type_id = 0\<rparr>"

text \<open>\<^verbatim>\<open>u32::saturating_add(1)\<close>\<close>

definition u32_succ_sat :: "u32 \<Rightarrow> u32" where
  "u32_succ_sat x = (if x = - 1 then x else x + 1)"

definition endpoint_meta_of :: "OwnedEndpointDefinition \<Rightarrow> EndpointMeta" where
  "endpoint_meta_of def = \<lparr>em_name = oe_name def, em_description = oe_description def,
    em_link_local_only = oe_link_local_only def\<rparr>"

definition endpoint_def_of :: "DataEndpoint \<times> EndpointMeta \<Rightarrow> OwnedEndpointDefinition" where
  "endpoint_def_of e = \<lparr>oe_id = fst e, oe_name = em_name (snd e),
    oe_description = em_description (snd e), oe_link_local_only = em_link_local_only (snd e)\<rparr>"

definition message_meta_of :: "OwnedDataTypeDefinition \<Rightarrow> MessageMeta" where
  "message_meta_of def = \<lparr>mm_name = ot_name def, mm_description = ot_description def,
    mm_element = ot_element def, mm_endpoints = ot_endpoints def, mm_reliable = ot_reliable def,
    mm_priority = ot_priority def, mm_e2e_encryption = ot_e2e_encryption def\<rparr>"

definition type_def_of :: "DataType \<times> MessageMeta \<Rightarrow> OwnedDataTypeDefinition" where
  "type_def_of e = \<lparr>ot_id = fst e, ot_name = mm_name (snd e),
    ot_description = mm_description (snd e), ot_element = mm_element (snd e),
    ot_endpoints = mm_endpoints (snd e), ot_reliable = mm_reliable (snd e),
    ot_priority = mm_priority (snd e), ot_e2e_encryption = mm_e2e_encryption (snd e)\<rparr>"

section \<open>Registration\<close>

text \<open>Push a new entry and sort by id (the tail of both registrations).\<close>

definition push_endpoint :: "Registry \<Rightarrow> OwnedEndpointDefinition \<Rightarrow> Registry" where
  "push_endpoint reg def =
    reg\<lparr>next_endpoint_id := max (next_endpoint_id reg) (u32_succ_sat (oe_id def)),
        endpoints := sort_key fst (endpoints reg @ [(oe_id def, endpoint_meta_of def)])\<rparr>"

definition push_type :: "Registry \<Rightarrow> OwnedDataTypeDefinition \<Rightarrow> Registry" where
  "push_type reg def =
    reg\<lparr>next_type_id := max (next_type_id reg) (u32_succ_sat (ot_id def)),
        types := sort_key fst (types reg @ [(ot_id def, message_meta_of def)])\<rparr>"

definition register_owned_endpoint ::
  "Registry \<Rightarrow> OwnedEndpointDefinition \<Rightarrow> unit result \<times> Registry" where
  "register_owned_endpoint reg def =
    (case resolve_endpoint (oe_name def) (Some (oe_id def)) of
      Inl _ \<Rightarrow> (Err BadArg, reg)
    | Inr _ \<Rightarrow>
        (case find (\<lambda>e. fst e = oe_id def) (endpoints reg) of
          Some (_, existing) \<Rightarrow>
            if em_name existing = oe_name def \<and> em_description existing = oe_description def \<and>
               em_link_local_only existing = oe_link_local_only def
            then (Ok (), reg) else (Err BadArg, reg)
        | None \<Rightarrow>
            if list_ex (\<lambda>e. em_name (snd e) = oe_name def) (endpoints reg)
            then (Err BadArg, reg)
            else (Ok (), push_endpoint reg def)))"

definition register_owned_type ::
  "Registry \<Rightarrow> OwnedDataTypeDefinition \<Rightarrow> unit result \<times> Registry" where
  "register_owned_type reg def =
    (case resolve_type (ot_name def) (Some (ot_id def)) of
      Inl _ \<Rightarrow> (Err BadArg, reg)
    | Inr _ \<Rightarrow>
        (case find (\<lambda>e. fst e = ot_id def) (types reg) of
          Some (_, existing) \<Rightarrow>
            if mm_name existing = ot_name def \<and> mm_description existing = ot_description def \<and>
               mm_element existing = ot_element def \<and> mm_endpoints existing = ot_endpoints def \<and>
               mm_reliable existing = ot_reliable def \<and> mm_priority existing = ot_priority def \<and>
               mm_e2e_encryption existing = ot_e2e_encryption def
            then (Ok (), reg) else (Err BadArg, reg)
        | None \<Rightarrow>
            if list_ex (\<lambda>e. mm_name (snd e) = ot_name def) (types reg)
            then (Err BadArg, reg)
            else (Ok (), push_type reg def)))"

definition register_endpoint_with_description ::
  "Registry \<Rightarrow> string \<Rightarrow> string \<Rightarrow> bool \<Rightarrow> DataEndpoint result \<times> Registry" where
  "register_endpoint_with_description reg name description link_local_only =
    (let i = endpoint_id name;
         (r, reg') = register_owned_endpoint reg
           \<lparr>oe_id = i, oe_name = name, oe_description = description,
             oe_link_local_only = link_local_only\<rparr> in
     (bind_r r (\<lambda>_. Ok i), reg'))"

definition register_data_type_with_description_and_e2e_encryption ::
  "Registry \<Rightarrow> string \<Rightarrow> string \<Rightarrow> MessageElement \<Rightarrow> DataEndpoint list \<Rightarrow> ReliableMode \<Rightarrow> u8 \<Rightarrow>
    E2eEncryptionPolicy \<Rightarrow> DataType result \<times> Registry" where
  "register_data_type_with_description_and_e2e_encryption reg name description element eps reliable
      priority e2e =
    (let i = type_id name;
         (r, reg') = register_owned_type reg
           \<lparr>ot_id = i, ot_name = name, ot_description = description, ot_element = element,
             ot_endpoints = eps, ot_reliable = reliable, ot_priority = priority,
             ot_e2e_encryption = e2e\<rparr> in
     (bind_r r (\<lambda>_. Ok i), reg'))"

text \<open>The first entry with the id gets the new policy (\<^verbatim>\<open>iter_mut().find\<close>).\<close>

fun set_policy :: "DataType \<Rightarrow> E2eEncryptionPolicy \<Rightarrow> (DataType \<times> MessageMeta) list \<Rightarrow>
    (DataType \<times> MessageMeta) list" where
  "set_policy ty policy [] = []"
| "set_policy ty policy (e # es) =
    (if fst e = ty then (fst e, (snd e)\<lparr>mm_e2e_encryption := policy\<rparr>) # es
     else e # set_policy ty policy es)"

definition set_data_type_e2e_encryption_policy ::
  "Registry \<Rightarrow> DataType \<Rightarrow> E2eEncryptionPolicy \<Rightarrow> unit result \<times> Registry" where
  "set_data_type_e2e_encryption_policy reg ty policy =
    (if list_ex (\<lambda>e. fst e = ty) (types reg)
     then (Ok (), reg\<lparr>types := set_policy ty policy (types reg)\<rparr>)
     else (Err InvalidType, reg))"

section \<open>Lookup\<close>

definition endpoint_exists :: "Registry \<Rightarrow> DataEndpoint \<Rightarrow> bool" where
  "endpoint_exists reg ep = list_ex (\<lambda>e. fst e = ep) (endpoints reg)"

definition data_type_exists :: "Registry \<Rightarrow> DataType \<Rightarrow> bool" where
  "data_type_exists reg ty = list_ex (\<lambda>e. fst e = ty) (types reg)"

definition get_endpoint_meta :: "Registry \<Rightarrow> DataEndpoint \<Rightarrow> EndpointMeta" where
  "get_endpoint_meta reg ep =
    (case find (\<lambda>e. fst e = ep) (endpoints reg) of
      Some e \<Rightarrow> snd e
    | None \<Rightarrow> \<lparr>em_name = ''UNKNOWN_ENDPOINT'', em_description = [], em_link_local_only = False\<rparr>)"

definition try_get_message_meta :: "Registry \<Rightarrow> DataType \<Rightarrow> MessageMeta option" where
  "try_get_message_meta reg ty = map_option snd (find (\<lambda>e. fst e = ty) (types reg))"

definition get_message_meta :: "Registry \<Rightarrow> DataType \<Rightarrow> MessageMeta" where
  "get_message_meta reg ty =
    (case try_get_message_meta reg ty of
      Some m \<Rightarrow> m
    | None \<Rightarrow> \<lparr>mm_name = ''UNKNOWN_TYPE'', mm_description = [], mm_element = Dynamic Binary CData,
        mm_endpoints = [], mm_reliable = RNone, mm_priority = 0, mm_e2e_encryption = PreferOff\<rparr>)"

definition message_delivery_meta :: "Registry \<Rightarrow> DataType \<Rightarrow> ReliableMode \<times> u8" where
  "message_delivery_meta reg ty =
    (case find (\<lambda>e. fst e = ty) (types reg) of
      Some e \<Rightarrow> (mm_reliable (snd e), mm_priority (snd e))
    | None \<Rightarrow> (RNone, 0))"

definition endpoint_definition :: "Registry \<Rightarrow> DataEndpoint \<Rightarrow> OwnedEndpointDefinition option" where
  "endpoint_definition reg ep = map_option endpoint_def_of (find (\<lambda>e. fst e = ep) (endpoints reg))"

definition data_type_definition :: "Registry \<Rightarrow> DataType \<Rightarrow> OwnedDataTypeDefinition option" where
  "data_type_definition reg ty = map_option type_def_of (find (\<lambda>e. fst e = ty) (types reg))"

definition endpoint_definition_by_name ::
  "Registry \<Rightarrow> string \<Rightarrow> OwnedEndpointDefinition option" where
  "endpoint_definition_by_name reg name =
    map_option endpoint_def_of (find (\<lambda>e. em_name (snd e) = name) (endpoints reg))"

definition data_type_definition_by_name ::
  "Registry \<Rightarrow> string \<Rightarrow> OwnedDataTypeDefinition option" where
  "data_type_definition_by_name reg name =
    map_option type_def_of (find (\<lambda>e. mm_name (snd e) = name) (types reg))"

definition max_endpoint_id :: "Registry \<Rightarrow> u32" where
  "max_endpoint_id reg = fold max (map fst (endpoints reg)) 0"

definition max_data_type_id :: "Registry \<Rightarrow> u32" where
  "max_data_type_id reg = fold max (map fst (types reg)) 0"

definition export_schema :: "Registry \<Rightarrow> OwnedRuntimeSchemaSnapshot" where
  "export_schema reg =
    \<lparr>sn_endpoints = map endpoint_def_of (endpoints reg), sn_types = map type_def_of (types reg)\<rparr>"

section \<open>Delivery metadata (lib.rs)\<close>

definition reliable_mode :: "Registry \<Rightarrow> DataType \<Rightarrow> ReliableMode" where
  "reliable_mode reg ty = fst (message_delivery_meta reg ty)"

definition is_reliable_type :: "Registry \<Rightarrow> DataType \<Rightarrow> bool" where
  "is_reliable_type reg ty = (reliable_mode reg ty \<noteq> RNone)"

definition message_priority :: "Registry \<Rightarrow> DataType \<Rightarrow> u8" where
  "message_priority reg ty = snd (message_delivery_meta reg ty)"

definition transport_priority :: "Registry \<Rightarrow> DataType \<Rightarrow> u8" where
  "transport_priority reg ty =
    (if ty \<in> set [DT_ReliableAck, DT_ReliablePartialAck, DT_ReliablePacketRequest] then 255
     else if ty \<in> set [DT_DiscoveryAnnounce, DT_DiscoveryTimeSyncSources, DT_DiscoveryTopology,
       DT_DiscoveryTopologyRequest, DT_DiscoveryLeave, DT_DiscoveryLinkCapabilities,
       DT_DiscoveryAddress] then 255
     else if ty \<in> set [DT_DiscoverySchema, DT_DiscoverySchemaRequest, DT_ManagedVariableRequest,
       DT_ManagedVariableValue, DT_TimeSyncAnnounce, DT_TimeSyncRequest, DT_TimeSyncResponse] then 254
     else min (message_priority reg ty) 253)"

definition small_control_shape :: "MessageElement \<Rightarrow> bool" where
  "small_control_shape e = (case e of Static n UInt8 _ \<Rightarrow> n \<le> 16 | _ \<Rightarrow> False)"

definition small_frozen_control ::
  "Registry \<Rightarrow> DataType \<Rightarrow> nat \<Rightarrow> MessageElement option \<Rightarrow> bool" where
  "small_frozen_control reg ty owners shape =
    (if \<not> (1 \<le> owners \<and> owners \<le> 3) then False
     else case try_get_message_meta reg ty of
       None \<Rightarrow> False
     | Some meta \<Rightarrow> small_control_shape (mm_element meta) \<and>
         (case shape of None \<Rightarrow> True | Some s \<Rightarrow> small_control_shape s))"

definition get_needed_message_size :: "StaticLengths \<Rightarrow> Registry \<Rightarrow> DataType \<Rightarrow> nat" where
  "get_needed_message_size cfg reg ty =
    (let element = mm_element (get_message_meta reg ty) in
     (data_type_size cfg (data_type element) * element_into element) mod 2 ^ 64)"

section \<open>Removal\<close>

definition remove_endpoint :: "Registry \<Rightarrow> DataEndpoint \<Rightarrow> bool result \<times> Registry" where
  "remove_endpoint reg ep =
    (if is_internal_endpoint ep then (Err BadArg, reg)
     else
       let kept = filter (\<lambda>e. fst e \<noteq> ep) (endpoints reg) in
       if length kept = length (endpoints reg) then (Ok False, reg\<lparr>endpoints := kept\<rparr>)
       else (Ok True, reg\<lparr>endpoints := kept,
               types := filter (\<lambda>e. ep \<notin> set (mm_endpoints (snd e))) (types reg)\<rparr>))"

definition remove_endpoint_by_name :: "Registry \<Rightarrow> string \<Rightarrow> bool result \<times> Registry" where
  "remove_endpoint_by_name reg name =
    (case endpoint_definition_by_name reg name of
      Some def \<Rightarrow> remove_endpoint reg (oe_id def)
    | None \<Rightarrow> (Ok False, reg))"

definition remove_data_type :: "Registry \<Rightarrow> DataType \<Rightarrow> bool result \<times> Registry" where
  "remove_data_type reg ty =
    (if is_internal_data_type ty then (Err BadArg, reg)
     else
       let kept = filter (\<lambda>e. fst e \<noteq> ty) (types reg) in
       (Ok (length kept \<noteq> length (types reg)), reg\<lparr>types := kept\<rparr>))"

definition remove_data_type_by_name :: "Registry \<Rightarrow> string \<Rightarrow> bool result \<times> Registry" where
  "remove_data_type_by_name reg name =
    (case data_type_definition_by_name reg name of
      Some def \<Rightarrow> remove_data_type reg (ot_id def)
    | None \<Rightarrow> (Ok False, reg))"

section \<open>Built-in schema\<close>

definition builtin_endpoints :: "OwnedEndpointDefinition list" where
  "builtin_endpoints =
    [\<lparr>oe_id = EP_TelemetryError, oe_name = ''SEDSNET_ERROR'', oe_description = [],
       oe_link_local_only = False\<rparr>,
     \<lparr>oe_id = EP_TimeSync, oe_name = ''SEDSNET_TIME_SYNC'', oe_description = [],
       oe_link_local_only = False\<rparr>,
     \<lparr>oe_id = EP_Discovery, oe_name = ''SEDSNET_DISCOVERY'', oe_description = [],
       oe_link_local_only = False\<rparr>]"

definition builtin_types_1 :: "OwnedDataTypeDefinition list" where
  "builtin_types_1 =
    [
     \<lparr>ot_id = DT_TelemetryError, ot_name = ''SEDSNET_ERROR'', ot_description = [],
       ot_element = Dynamic DString CError, ot_endpoints = [EP_TelemetryError], ot_reliable = RNone,
       ot_priority = 255, ot_e2e_encryption = PreferOff\<rparr>,
     \<lparr>ot_id = DT_ReliableAck, ot_name = ''SEDSNET_RELIABLE_ACK'', ot_description = [],
       ot_element = Static 2 UInt32 CData, ot_endpoints = [EP_TelemetryError], ot_reliable = RNone,
       ot_priority = 250, ot_e2e_encryption = PreferOff\<rparr>,
     \<lparr>ot_id = DT_ReliablePacketRequest, ot_name = ''SEDSNET_RELIABLE_PACKET_REQUEST'', ot_description = [],
       ot_element = Static 2 UInt32 CData, ot_endpoints = [EP_TelemetryError], ot_reliable = RNone,
       ot_priority = 250, ot_e2e_encryption = PreferOff\<rparr>,
     \<lparr>ot_id = DT_ReliablePartialAck, ot_name = ''SEDSNET_RELIABLE_PARTIAL_ACK'', ot_description = [],
       ot_element = Static 2 UInt32 CData, ot_endpoints = [EP_TelemetryError], ot_reliable = RNone,
       ot_priority = 250, ot_e2e_encryption = PreferOff\<rparr>,
     \<lparr>ot_id = DT_TimeSyncAnnounce, ot_name = ''SEDSNET_TIME_SYNC_ANNOUNCE'', ot_description = [],
       ot_element = Static 2 UInt64 CData, ot_endpoints = [EP_TimeSync], ot_reliable = RNone,
       ot_priority = 245, ot_e2e_encryption = PreferOff\<rparr>,
     \<lparr>ot_id = DT_TimeSyncRequest, ot_name = ''SEDSNET_TIME_SYNC_REQUEST'', ot_description = [],
       ot_element = Static 2 UInt64 CData, ot_endpoints = [EP_TimeSync], ot_reliable = RNone,
       ot_priority = 245, ot_e2e_encryption = PreferOff\<rparr>,
     \<lparr>ot_id = DT_TimeSyncResponse, ot_name = ''SEDSNET_TIME_SYNC_RESPONSE'', ot_description = [],
       ot_element = Static 4 UInt64 CData, ot_endpoints = [EP_TimeSync], ot_reliable = RNone,
       ot_priority = 245, ot_e2e_encryption = PreferOff\<rparr>,
     \<lparr>ot_id = DT_DiscoveryAnnounce, ot_name = ''SEDSNET_DISCOVERY_ANNOUNCE'', ot_description = [],
       ot_element = Dynamic UInt32 CData, ot_endpoints = [EP_Discovery], ot_reliable = RNone,
       ot_priority = 240, ot_e2e_encryption = PreferOff\<rparr>,
     \<lparr>ot_id = DT_DiscoveryTimeSyncSources, ot_name = ''SEDSNET_DISCOVERY_TIMESYNC_SOURCES'', ot_description = [],
       ot_element = Dynamic UInt8 CData, ot_endpoints = [EP_Discovery], ot_reliable = RNone,
       ot_priority = 240, ot_e2e_encryption = PreferOff\<rparr>]"

definition builtin_types_2 :: "OwnedDataTypeDefinition list" where
  "builtin_types_2 =
    [
     \<lparr>ot_id = DT_DiscoveryTopology, ot_name = ''SEDSNET_DISCOVERY_TOPOLOGY'', ot_description = [],
       ot_element = Dynamic UInt8 CData, ot_endpoints = [EP_Discovery], ot_reliable = Ordered,
       ot_priority = 240, ot_e2e_encryption = PreferOff\<rparr>,
     \<lparr>ot_id = DT_DiscoverySchema, ot_name = ''SEDSNET_DISCOVERY_SCHEMA'', ot_description = [],
       ot_element = Dynamic UInt8 CData, ot_endpoints = [EP_Discovery], ot_reliable = Ordered,
       ot_priority = 241, ot_e2e_encryption = PreferOff\<rparr>,
     \<lparr>ot_id = DT_DiscoveryTopologyRequest, ot_name = ''SEDSNET_DISCOVERY_TOPOLOGY_REQUEST'', ot_description = [],
       ot_element = Dynamic UInt8 CData, ot_endpoints = [EP_Discovery], ot_reliable = Ordered,
       ot_priority = 242, ot_e2e_encryption = PreferOff\<rparr>,
     \<lparr>ot_id = DT_DiscoverySchemaRequest, ot_name = ''SEDSNET_DISCOVERY_SCHEMA_REQUEST'', ot_description = [],
       ot_element = Dynamic UInt8 CData, ot_endpoints = [EP_Discovery], ot_reliable = Ordered,
       ot_priority = 242, ot_e2e_encryption = PreferOff\<rparr>,
     \<lparr>ot_id = DT_ManagedVariableRequest, ot_name = ''SEDSNET_MANAGED_VARIABLE_REQUEST'', ot_description = [],
       ot_element = Dynamic UInt8 CData, ot_endpoints = [EP_Discovery], ot_reliable = Ordered,
       ot_priority = 243, ot_e2e_encryption = PreferOff\<rparr>,
     \<lparr>ot_id = DT_ManagedVariableValue, ot_name = ''SEDSNET_MANAGED_VARIABLE_VALUE'', ot_description = [],
       ot_element = Dynamic UInt8 CData, ot_endpoints = [EP_Discovery], ot_reliable = Ordered,
       ot_priority = 243, ot_e2e_encryption = PreferOff\<rparr>,
     \<lparr>ot_id = DT_DiscoveryLeave, ot_name = ''SEDSNET_DISCOVERY_LEAVE'', ot_description = [],
       ot_element = Dynamic UInt8 CData, ot_endpoints = [EP_Discovery], ot_reliable = RNone,
       ot_priority = 244, ot_e2e_encryption = PreferOff\<rparr>,
     \<lparr>ot_id = DT_DiscoveryLinkCapabilities, ot_name = ''SEDSNET_DISCOVERY_LINK_CAPABILITIES'', ot_description = [],
       ot_element = Dynamic UInt8 CData, ot_endpoints = [EP_Discovery], ot_reliable = RNone,
       ot_priority = 240, ot_e2e_encryption = PreferOff\<rparr>,
     \<lparr>ot_id = DT_DiscoveryAddress, ot_name = ''SEDSNET_DISCOVERY_ADDRESS'', ot_description = [],
       ot_element = Dynamic UInt8 CData, ot_endpoints = [EP_Discovery], ot_reliable = Ordered,
       ot_priority = 244, ot_e2e_encryption = PreferOff\<rparr>,
     \<lparr>ot_id = DT_P2pMessage, ot_name = ''SEDSNET_P2P_MESSAGE'', ot_description = [],
       ot_element = Dynamic UInt8 CData, ot_endpoints = [EP_Discovery], ot_reliable = Ordered,
       ot_priority = 246, ot_e2e_encryption = PreferOff\<rparr>]"

text \<open>The embedded build's tables.\<close>

definition EMBEDDED_BUILTIN_ENDPOINTS :: "OwnedEndpointDefinition list" where
  "EMBEDDED_BUILTIN_ENDPOINTS =
    [\<lparr>oe_id = EP_TelemetryError, oe_name = ''SEDSNET_ERROR'', oe_description = [],
       oe_link_local_only = False\<rparr>,
     \<lparr>oe_id = EP_TimeSync, oe_name = ''SEDSNET_TIME_SYNC'', oe_description = [],
       oe_link_local_only = False\<rparr>,
     \<lparr>oe_id = EP_Discovery, oe_name = ''SEDSNET_DISCOVERY'', oe_description = [],
       oe_link_local_only = False\<rparr>]"

definition EMBEDDED_BUILTIN_TYPES_1 :: "OwnedDataTypeDefinition list" where
  "EMBEDDED_BUILTIN_TYPES_1 =
    [
     \<lparr>ot_id = DT_TelemetryError, ot_name = ''SEDSNET_ERROR'', ot_description = [],
       ot_element = Dynamic DString CError, ot_endpoints = [EP_TelemetryError], ot_reliable = RNone,
       ot_priority = 255, ot_e2e_encryption = PreferOff\<rparr>,
     \<lparr>ot_id = DT_ReliableAck, ot_name = ''SEDSNET_RELIABLE_ACK'', ot_description = [],
       ot_element = Static 2 UInt32 CData, ot_endpoints = [EP_TelemetryError], ot_reliable = RNone,
       ot_priority = 250, ot_e2e_encryption = PreferOff\<rparr>,
     \<lparr>ot_id = DT_ReliablePacketRequest, ot_name = ''SEDSNET_RELIABLE_PACKET_REQUEST'', ot_description = [],
       ot_element = Static 2 UInt32 CData, ot_endpoints = [EP_TelemetryError], ot_reliable = RNone,
       ot_priority = 250, ot_e2e_encryption = PreferOff\<rparr>,
     \<lparr>ot_id = DT_ReliablePartialAck, ot_name = ''SEDSNET_RELIABLE_PARTIAL_ACK'', ot_description = [],
       ot_element = Static 2 UInt32 CData, ot_endpoints = [EP_TelemetryError], ot_reliable = RNone,
       ot_priority = 250, ot_e2e_encryption = PreferOff\<rparr>,
     \<lparr>ot_id = DT_TimeSyncAnnounce, ot_name = ''SEDSNET_TIME_SYNC_ANNOUNCE'', ot_description = [],
       ot_element = Static 2 UInt64 CData, ot_endpoints = [EP_TimeSync], ot_reliable = RNone,
       ot_priority = 245, ot_e2e_encryption = PreferOff\<rparr>,
     \<lparr>ot_id = DT_TimeSyncRequest, ot_name = ''SEDSNET_TIME_SYNC_REQUEST'', ot_description = [],
       ot_element = Static 2 UInt64 CData, ot_endpoints = [EP_TimeSync], ot_reliable = RNone,
       ot_priority = 245, ot_e2e_encryption = PreferOff\<rparr>,
     \<lparr>ot_id = DT_TimeSyncResponse, ot_name = ''SEDSNET_TIME_SYNC_RESPONSE'', ot_description = [],
       ot_element = Static 4 UInt64 CData, ot_endpoints = [EP_TimeSync], ot_reliable = RNone,
       ot_priority = 245, ot_e2e_encryption = PreferOff\<rparr>,
     \<lparr>ot_id = DT_DiscoveryAnnounce, ot_name = ''SEDSNET_DISCOVERY_ANNOUNCE'', ot_description = [],
       ot_element = Dynamic UInt32 CData, ot_endpoints = [EP_Discovery], ot_reliable = RNone,
       ot_priority = 240, ot_e2e_encryption = PreferOff\<rparr>,
     \<lparr>ot_id = DT_DiscoveryTimeSyncSources, ot_name = ''SEDSNET_DISCOVERY_TIMESYNC_SOURCES'', ot_description = [],
       ot_element = Dynamic UInt8 CData, ot_endpoints = [EP_Discovery], ot_reliable = RNone,
       ot_priority = 240, ot_e2e_encryption = PreferOff\<rparr>]"

definition EMBEDDED_BUILTIN_TYPES_2 :: "OwnedDataTypeDefinition list" where
  "EMBEDDED_BUILTIN_TYPES_2 =
    [
     \<lparr>ot_id = DT_DiscoveryTopology, ot_name = ''SEDSNET_DISCOVERY_TOPOLOGY'', ot_description = [],
       ot_element = Dynamic UInt8 CData, ot_endpoints = [EP_Discovery], ot_reliable = Ordered,
       ot_priority = 240, ot_e2e_encryption = PreferOff\<rparr>,
     \<lparr>ot_id = DT_DiscoverySchema, ot_name = ''SEDSNET_DISCOVERY_SCHEMA'', ot_description = [],
       ot_element = Dynamic UInt8 CData, ot_endpoints = [EP_Discovery], ot_reliable = Ordered,
       ot_priority = 241, ot_e2e_encryption = PreferOff\<rparr>,
     \<lparr>ot_id = DT_DiscoveryTopologyRequest, ot_name = ''SEDSNET_DISCOVERY_TOPOLOGY_REQUEST'', ot_description = [],
       ot_element = Dynamic UInt8 CData, ot_endpoints = [EP_Discovery], ot_reliable = Ordered,
       ot_priority = 242, ot_e2e_encryption = PreferOff\<rparr>,
     \<lparr>ot_id = DT_DiscoverySchemaRequest, ot_name = ''SEDSNET_DISCOVERY_SCHEMA_REQUEST'', ot_description = [],
       ot_element = Dynamic UInt8 CData, ot_endpoints = [EP_Discovery], ot_reliable = Ordered,
       ot_priority = 242, ot_e2e_encryption = PreferOff\<rparr>,
     \<lparr>ot_id = DT_ManagedVariableRequest, ot_name = ''SEDSNET_MANAGED_VARIABLE_REQUEST'', ot_description = [],
       ot_element = Dynamic UInt8 CData, ot_endpoints = [EP_Discovery], ot_reliable = Ordered,
       ot_priority = 243, ot_e2e_encryption = PreferOff\<rparr>,
     \<lparr>ot_id = DT_ManagedVariableValue, ot_name = ''SEDSNET_MANAGED_VARIABLE_VALUE'', ot_description = [],
       ot_element = Dynamic UInt8 CData, ot_endpoints = [EP_Discovery], ot_reliable = Ordered,
       ot_priority = 243, ot_e2e_encryption = PreferOff\<rparr>,
     \<lparr>ot_id = DT_DiscoveryLeave, ot_name = ''SEDSNET_DISCOVERY_LEAVE'', ot_description = [],
       ot_element = Dynamic UInt8 CData, ot_endpoints = [EP_Discovery], ot_reliable = RNone,
       ot_priority = 244, ot_e2e_encryption = PreferOff\<rparr>,
     \<lparr>ot_id = DT_DiscoveryLinkCapabilities, ot_name = ''SEDSNET_DISCOVERY_LINK_CAPABILITIES'', ot_description = [],
       ot_element = Dynamic UInt8 CData, ot_endpoints = [EP_Discovery], ot_reliable = RNone,
       ot_priority = 240, ot_e2e_encryption = PreferOff\<rparr>,
     \<lparr>ot_id = DT_DiscoveryAddress, ot_name = ''SEDSNET_DISCOVERY_ADDRESS'', ot_description = [],
       ot_element = Dynamic UInt8 CData, ot_endpoints = [EP_Discovery], ot_reliable = Ordered,
       ot_priority = 244, ot_e2e_encryption = PreferOff\<rparr>,
     \<lparr>ot_id = DT_P2pMessage, ot_name = ''SEDSNET_P2P_MESSAGE'', ot_description = [],
       ot_element = Dynamic UInt8 CData, ot_endpoints = [EP_Discovery], ot_reliable = Ordered,
       ot_priority = 246, ot_e2e_encryption = PreferOff\<rparr>]"

text \<open>\<^verbatim>\<open>expect\<close> on every registration: None is the panic.\<close>

fun register_all :: "('r \<Rightarrow> 'd \<Rightarrow> unit result \<times> 'r) \<Rightarrow> 'r \<Rightarrow> 'd list \<Rightarrow> 'r option" where
  "register_all f reg [] = Some reg"
| "register_all f reg (d # ds) =
    (case f reg d of (Inl _, _) \<Rightarrow> None | (Inr _, reg') \<Rightarrow> register_all f reg' ds)"

text \<open>\<^verbatim>\<open>Registry::new\<close> without the schema files named by the environment.\<close>

definition Registry_new :: "Registry option" where
  "Registry_new =
    (case register_all register_owned_endpoint empty_registry builtin_endpoints of
      None \<Rightarrow> None
    | Some reg \<Rightarrow> register_all register_owned_type reg (builtin_types_1 @ builtin_types_2))"

section \<open>Keyed tables\<close>

text \<open>Both tables are sorted by id, without duplicate ids or names.\<close>

definition table_ok :: "('m \<Rightarrow> string) \<Rightarrow> (u32 \<times> 'm) list \<Rightarrow> bool" where
  "table_ok nm es \<longleftrightarrow> sorted (map fst es) \<and> distinct (map fst es) \<and> distinct (map (nm \<circ> snd) es)"

named_theorems registry_simps \<open>readings of registry operations\<close>

lemma find_fst_eq [registry_simps]: "find (\<lambda>e. fst e = k) es = map_option (Pair k) (map_of es k)"
  by (induction es) auto

lemma list_ex_snd_eq: "list_ex (\<lambda>e. f (snd e) = x) es \<longleftrightarrow> x \<in> (f \<circ> snd) ` set es"
  by (induction es) auto

lemma distinct_map_sort_key [simp]: "distinct (map f (sort_key g es)) = distinct (map f es)"
  by (simp add: distinct_map)

lemma map_of_sort_key:
  assumes "distinct (map fst es)"
  shows "map_of (sort_key fst es) = map_of es"
  using assms by (simp add: map_of_inject_set)

lemma table_ok_distinct: "table_ok nm es \<Longrightarrow> distinct (map fst es)"
  by (simp add: table_ok_def)

lemma table_ok_push:
  assumes "table_ok nm es" "map_of es k = None" "nm m \<notin> (nm \<circ> snd) ` set es"
  shows "table_ok nm (sort_key fst (es @ [(k, m)]))"
    "map_of (sort_key fst (es @ [(k, m)])) = (map_of es)(k \<mapsto> m)"
proof -
  have dist: "distinct (map fst (es @ [(k, m)]))" "distinct (map (nm \<circ> snd) (es @ [(k, m)]))"
    using assms by (auto simp: table_ok_def map_of_eq_None_iff)
  then show "table_ok nm (sort_key fst (es @ [(k, m)]))"
    by (simp only: table_ok_def distinct_map_sort_key sorted_sort_key)
  have "map_of (es @ [(k, m)]) = (map_of es)(k \<mapsto> m)"
    using assms(2) by (auto simp: map_add_def fun_eq_iff split: option.split)
  then show "map_of (sort_key fst (es @ [(k, m)])) = (map_of es)(k \<mapsto> m)"
    using map_of_sort_key [OF dist(1)] by simp
qed

lemma table_ok_filter:
  assumes "table_ok nm es"
  shows "table_ok nm (filter P es)"
  using assms by (auto simp: table_ok_def sorted_filter distinct_map_filter)

lemma map_of_filter_distinct:
  assumes "distinct (map fst es)"
  shows "map_of (filter P es) k =
    (case map_of es k of Some m \<Rightarrow> if P (k, m) then Some m else None | None \<Rightarrow> None)"
  using assms by (induction es) (auto split: option.split simp: map_of_eq_None_iff image_iff)

section \<open>Registry invariant\<close>

abbreviation builtin_types :: "OwnedDataTypeDefinition list" where
  "builtin_types \<equiv> builtin_types_1 @ builtin_types_2"

text \<open>The protocol entries: endpoints as built in, types as built in up to the
  encryption policy, the one field with a setter.\<close>

definition protocol_kept :: "Registry \<Rightarrow> bool" where
  "protocol_kept reg \<longleftrightarrow>
    list_all (\<lambda>d. map_of (endpoints reg) (oe_id d) = Some (endpoint_meta_of d)) builtin_endpoints \<and>
    list_all (\<lambda>d. \<exists>p. map_of (types reg) (ot_id d) =
      Some ((message_meta_of d)\<lparr>mm_e2e_encryption := p\<rparr>)) builtin_types"

definition registry_ok :: "Registry \<Rightarrow> bool" where
  "registry_ok reg \<longleftrightarrow>
    table_ok em_name (endpoints reg) \<and> table_ok mm_name (types reg) \<and>
    (\<forall>(i, m) \<in> set (endpoints reg). is_ok (resolve_endpoint (em_name m) (Some i))) \<and>
    (\<forall>(i, m) \<in> set (types reg). is_ok (resolve_type (mm_name m) (Some i)))"

lemma builtin_ids:
  "map (\<lambda>d. (ot_name d, ot_id d)) builtin_types = protocol_types"
  "distinct (map ot_id builtin_types)" "distinct (map ot_name builtin_types)"
  "distinct (map oe_id builtin_endpoints)" "distinct (map oe_name builtin_endpoints)"
  "list_all (\<lambda>d. map_of protocol_endpoints (oe_name d) = Some (oe_id d)) builtin_endpoints"
  by code_simp+

lemma builtin_resolve:
  "d \<in> set builtin_types \<Longrightarrow> is_ok (resolve_type (ot_name d) (Some (ot_id d)))"
  "e \<in> set builtin_endpoints \<Longrightarrow> is_ok (resolve_endpoint (oe_name e) (Some (oe_id e)))"
proof -
  assume "d \<in> set builtin_types"
  then have "(ot_name d, ot_id d) \<in> set protocol_types"
    unfolding builtin_ids(1) [symmetric] by auto
  then have p: "map_of protocol_types (ot_name d) = Some (ot_id d)"
    using reserved_distinct(2) by simp
  moreover have "map_of protocol_types [] = None"
    by code_simp
  ultimately show "is_ok (resolve_type (ot_name d) (Some (ot_id d)))"
    by (auto simp: resolve_type_eq)
next
  assume "e \<in> set builtin_endpoints"
  then have "map_of protocol_endpoints (oe_name e) = Some (oe_id e)"
    using builtin_ids(6) by (auto simp: list_all_iff)
  moreover have "map_of protocol_endpoints [] = None"
    by code_simp
  ultimately show "is_ok (resolve_endpoint (oe_name e) (Some (oe_id e)))"
    by (auto simp: resolve_endpoint_eq)
qed

lemma meta_of_def_sel [simp]:
  "em_name (endpoint_meta_of d) = oe_name d" "mm_name (message_meta_of t) = ot_name t"
  "oe_id (endpoint_def_of e) = fst e" "oe_name (endpoint_def_of e) = em_name (snd e)"
  "ot_id (type_def_of f) = fst f" "ot_name (type_def_of f) = mm_name (snd f)"
  "endpoint_meta_of (endpoint_def_of e) = snd e" "message_meta_of (type_def_of f) = snd f"
  by (simp_all add: endpoint_meta_of_def message_meta_of_def endpoint_def_of_def type_def_of_def)

subsection \<open>Registration\<close>

lemma push_endpoint_ok:
  assumes "registry_ok reg" "map_of (endpoints reg) (oe_id d) = None"
    "oe_name d \<notin> (em_name \<circ> snd) ` set (endpoints reg)"
    "is_ok (resolve_endpoint (oe_name d) (Some (oe_id d)))"
  shows "registry_ok (push_endpoint reg d)"
    "map_of (endpoints (push_endpoint reg d)) = (map_of (endpoints reg))(oe_id d \<mapsto> endpoint_meta_of d)"
  using assms table_ok_push [of em_name "endpoints reg" "oe_id d" "endpoint_meta_of d"]
  by (auto simp: registry_ok_def push_endpoint_def)

lemma push_type_ok:
  assumes "registry_ok reg" "map_of (types reg) (ot_id d) = None"
    "ot_name d \<notin> (mm_name \<circ> snd) ` set (types reg)"
    "is_ok (resolve_type (ot_name d) (Some (ot_id d)))"
  shows "registry_ok (push_type reg d)"
    "map_of (types (push_type reg d)) = (map_of (types reg))(ot_id d \<mapsto> message_meta_of d)"
  using assms table_ok_push [of mm_name "types reg" "ot_id d" "message_meta_of d"]
  by (auto simp: registry_ok_def push_type_def)

lemma push_other_table [simp]:
  "types (push_endpoint reg d) = types reg" "endpoints (push_type reg t) = endpoints reg"
  by (simp_all add: push_endpoint_def push_type_def)

text \<open>The outcomes of a registration.\<close>

lemma register_owned_endpoint_eq:
  "register_owned_endpoint reg d =
    (if \<not> is_ok (resolve_endpoint (oe_name d) (Some (oe_id d))) then (Err BadArg, reg)
     else case map_of (endpoints reg) (oe_id d) of
       Some m \<Rightarrow> if m = endpoint_meta_of d then (Ok (), reg) else (Err BadArg, reg)
     | None \<Rightarrow> if oe_name d \<in> (em_name \<circ> snd) ` set (endpoints reg) then (Err BadArg, reg)
         else (Ok (), push_endpoint reg d))"
proof (cases "resolve_endpoint (oe_name d) (Some (oe_id d))")
  case (Inl e)
  then show ?thesis
    by (simp add: register_owned_endpoint_def)
next
  case (Inr i)
  then show ?thesis
    by (auto simp: list_ex_snd_eq register_owned_endpoint_def registry_simps endpoint_meta_of_def split: option.split)
qed

lemma register_owned_endpoint_cases:
  obtains (rejected) "register_owned_endpoint reg d = (Err BadArg, reg)"
  | (same) "register_owned_endpoint reg d = (Ok (), reg)" "map_of (endpoints reg) (oe_id d) = Some (endpoint_meta_of d)"
  | (added) "register_owned_endpoint reg d = (Ok (), push_endpoint reg d)" "map_of (endpoints reg) (oe_id d) = None"
      "oe_name d \<notin> (em_name \<circ> snd) ` set (endpoints reg)" "is_ok (resolve_endpoint (oe_name d) (Some (oe_id d)))"
proof -
  have "register_owned_endpoint reg d = (Err BadArg, reg) \<or>
    register_owned_endpoint reg d = (Ok (), reg) \<and> map_of (endpoints reg) (oe_id d) = Some (endpoint_meta_of d) \<or>
    register_owned_endpoint reg d = (Ok (), push_endpoint reg d) \<and> map_of (endpoints reg) (oe_id d) = None \<and>
      oe_name d \<notin> (em_name \<circ> snd) ` set (endpoints reg) \<and> is_ok (resolve_endpoint (oe_name d) (Some (oe_id d)))"
    by (auto simp: register_owned_endpoint_eq split: option.split)
  then show thesis
    using that by blast
qed

lemma register_owned_type_eq:
  "register_owned_type reg d =
    (if \<not> is_ok (resolve_type (ot_name d) (Some (ot_id d))) then (Err BadArg, reg)
     else case map_of (types reg) (ot_id d) of
       Some m \<Rightarrow> if m = message_meta_of d then (Ok (), reg) else (Err BadArg, reg)
     | None \<Rightarrow> if ot_name d \<in> (mm_name \<circ> snd) ` set (types reg) then (Err BadArg, reg)
         else (Ok (), push_type reg d))"
proof (cases "resolve_type (ot_name d) (Some (ot_id d))")
  case (Inl e)
  then show ?thesis
    by (simp add: register_owned_type_def)
next
  case (Inr i)
  then show ?thesis
    by (auto simp: list_ex_snd_eq register_owned_type_def registry_simps message_meta_of_def split: option.split)
qed

lemma register_owned_type_cases:
  obtains (rejected) "register_owned_type reg d = (Err BadArg, reg)"
  | (same) "register_owned_type reg d = (Ok (), reg)" "map_of (types reg) (ot_id d) = Some (message_meta_of d)"
  | (added) "register_owned_type reg d = (Ok (), push_type reg d)" "map_of (types reg) (ot_id d) = None"
      "ot_name d \<notin> (mm_name \<circ> snd) ` set (types reg)" "is_ok (resolve_type (ot_name d) (Some (ot_id d)))"
proof -
  have "register_owned_type reg d = (Err BadArg, reg) \<or>
    register_owned_type reg d = (Ok (), reg) \<and> map_of (types reg) (ot_id d) = Some (message_meta_of d) \<or>
    register_owned_type reg d = (Ok (), push_type reg d) \<and> map_of (types reg) (ot_id d) = None \<and>
      ot_name d \<notin> (mm_name \<circ> snd) ` set (types reg) \<and> is_ok (resolve_type (ot_name d) (Some (ot_id d)))"
    by (auto simp: register_owned_type_eq split: option.split)
  then show thesis
    using that by blast
qed

lemma register_owned_endpoint_ok:
  assumes "registry_ok reg"
  shows "registry_ok (snd (register_owned_endpoint reg d))"
    "protocol_kept reg \<Longrightarrow> protocol_kept (snd (register_owned_endpoint reg d))"
  by (cases rule: register_owned_endpoint_cases [of reg d];
      use assms push_endpoint_ok [of reg d] in \<open>auto simp: protocol_kept_def list_all_iff\<close>)+

lemma register_owned_type_ok:
  assumes "registry_ok reg"
  shows "registry_ok (snd (register_owned_type reg d))"
    "protocol_kept reg \<Longrightarrow> protocol_kept (snd (register_owned_type reg d))"
  by (cases rule: register_owned_type_cases [of reg d];
      use assms push_type_ok [of reg d] in \<open>force simp: protocol_kept_def list_all_iff\<close>)+

subsection \<open>Removal and policy changes\<close>

lemma builtin_internal:
  "d \<in> set builtin_types \<Longrightarrow> is_internal_data_type (ot_id d)"
  "d \<in> set builtin_types \<Longrightarrow> ep \<in> set (ot_endpoints d) \<Longrightarrow> is_internal_endpoint ep"
  "e \<in> set builtin_endpoints \<Longrightarrow> is_internal_endpoint (oe_id e)"
proof -
  have "list_all (\<lambda>d. is_internal_data_type (ot_id d) \<and> list_all is_internal_endpoint (ot_endpoints d))
      builtin_types" "list_all (\<lambda>e. is_internal_endpoint (oe_id e)) builtin_endpoints"
    by code_simp+
  then show "d \<in> set builtin_types \<Longrightarrow> is_internal_data_type (ot_id d)"
    "d \<in> set builtin_types \<Longrightarrow> ep \<in> set (ot_endpoints d) \<Longrightarrow> is_internal_endpoint ep"
    "e \<in> set builtin_endpoints \<Longrightarrow> is_internal_endpoint (oe_id e)"
    by (auto simp: list_all_iff)
qed

lemma registry_ok_filter:
  assumes "registry_ok reg"
  shows "registry_ok (reg\<lparr>endpoints := filter P (endpoints reg), types := filter Q (types reg)\<rparr>)"
  using assms by (auto simp: registry_ok_def table_ok_filter)

lemma registry_ok_filter_endpoints:
  "registry_ok reg \<Longrightarrow> registry_ok (reg\<lparr>endpoints := filter P (endpoints reg)\<rparr>)"
  by (auto simp: registry_ok_def table_ok_filter)

lemma registry_ok_filter_types:
  "registry_ok reg \<Longrightarrow> registry_ok (reg\<lparr>types := filter P (types reg)\<rparr>)"
  by (auto simp: registry_ok_def table_ok_filter)

lemma protocol_kept_filter:
  assumes ok: "registry_ok reg" and kept: "protocol_kept reg"
    and P: "\<And>i m. is_internal_endpoint i \<Longrightarrow> P (i, m)"
    and Q: "\<And>i m. is_internal_data_type i \<Longrightarrow>
      (\<And>ep. ep \<in> set (mm_endpoints m) \<Longrightarrow> is_internal_endpoint ep) \<Longrightarrow> Q (i, m)"
  shows "protocol_kept (reg\<lparr>endpoints := filter P (endpoints reg), types := filter Q (types reg)\<rparr>)"
proof -
  note dist = ok [unfolded registry_ok_def, THEN conjunct1, THEN table_ok_distinct]
    ok [unfolded registry_ok_def, THEN conjunct2, THEN conjunct1, THEN table_ok_distinct]
  have eps: "mm_endpoints ((message_meta_of d)\<lparr>mm_e2e_encryption := p\<rparr>) = ot_endpoints d" for d p
    by (simp add: message_meta_of_def)
  have "map_of (filter P (endpoints reg)) (oe_id d) = Some (endpoint_meta_of d)"
    if "d \<in> set builtin_endpoints" for d
    using that kept P [OF builtin_internal(3) [OF that]]
    by (simp add: map_of_filter_distinct [OF dist(1)] protocol_kept_def list_all_iff)
  moreover have "\<exists>p. map_of (filter Q (types reg)) (ot_id d) =
      Some ((message_meta_of d)\<lparr>mm_e2e_encryption := p\<rparr>)"
    if d: "d \<in> set builtin_types" for d
  proof -
    obtain p where "map_of (types reg) (ot_id d) = Some ((message_meta_of d)\<lparr>mm_e2e_encryption := p\<rparr>)"
      using kept d by (auto simp: protocol_kept_def list_all_iff)
    moreover have "Q (ot_id d, (message_meta_of d)\<lparr>mm_e2e_encryption := p\<rparr>)"
      using d builtin_internal(1,2) by (intro Q) (auto simp: eps)
    ultimately show ?thesis
      by (auto simp: map_of_filter_distinct [OF dist(2)])
  qed
  ultimately show ?thesis
    by (auto simp: protocol_kept_def list_all_iff)
qed

lemma remove_endpoint_ok:
  assumes "registry_ok reg"
  shows "registry_ok (snd (remove_endpoint reg ep))"
    "protocol_kept reg \<Longrightarrow> protocol_kept (snd (remove_endpoint reg ep))"
proof -
  show "registry_ok (snd (remove_endpoint reg ep))"
    using assms registry_ok_filter registry_ok_filter_endpoints by (auto simp: remove_endpoint_def Let_def)
  assume kept: "protocol_kept reg"
  show "protocol_kept (snd (remove_endpoint reg ep))"
  proof (cases "is_internal_endpoint ep")
    case True
    then show ?thesis using kept by (simp add: remove_endpoint_def)
  next
    case False
    have "protocol_kept (reg\<lparr>endpoints := filter (\<lambda>e. fst e \<noteq> ep) (endpoints reg),
        types := filter (\<lambda>e. ep \<notin> set (mm_endpoints (snd e))) (types reg)\<rparr>)"
      using assms kept False by (intro protocol_kept_filter) auto
    moreover have "protocol_kept (reg\<lparr>endpoints := filter (\<lambda>e. fst e \<noteq> ep) (endpoints reg),
        types := filter (\<lambda>_. True) (types reg)\<rparr>)"
      using assms kept False by (intro protocol_kept_filter) auto
    ultimately show ?thesis
      using False by (auto simp: remove_endpoint_def Let_def)
  qed
qed

lemma remove_data_type_ok:
  assumes "registry_ok reg"
  shows "registry_ok (snd (remove_data_type reg ty))"
    "protocol_kept reg \<Longrightarrow> protocol_kept (snd (remove_data_type reg ty))"
proof -
  show "registry_ok (snd (remove_data_type reg ty))"
    using assms registry_ok_filter_types by (auto simp: remove_data_type_def Let_def)
  assume kept: "protocol_kept reg"
  show "protocol_kept (snd (remove_data_type reg ty))"
  proof (cases "is_internal_data_type ty")
    case True
    then show ?thesis using kept by (simp add: remove_data_type_def)
  next
    case False
    have "protocol_kept (reg\<lparr>endpoints := filter (\<lambda>_. True) (endpoints reg),
        types := filter (\<lambda>e. fst e \<noteq> ty) (types reg)\<rparr>)"
      using assms kept False by (intro protocol_kept_filter) auto
    then show ?thesis
      using False by (simp add: remove_data_type_def Let_def)
  qed
qed

lemma set_policy_map_of:
  "map_of (set_policy ty p es) =
    (case map_of es ty of None \<Rightarrow> map_of es | Some m \<Rightarrow> (map_of es)(ty \<mapsto> m\<lparr>mm_e2e_encryption := p\<rparr>))"
  by (induction es) (auto simp: fun_eq_iff split: option.splits)

lemma set_policy_names [simp]:
  "map fst (set_policy ty p es) = map fst es"
  "map (mm_name \<circ> snd) (set_policy ty p es) = map (mm_name \<circ> snd) es"
  by (induction es) auto

lemma set_policy_set:
  "(i, m) \<in> set (set_policy ty p es) \<Longrightarrow> \<exists>m'. (i, m') \<in> set es \<and> mm_name m' = mm_name m"
  by (induction es) (auto split: if_splits)

lemma set_policy_ok:
  assumes "registry_ok reg"
  shows "registry_ok (snd (set_data_type_e2e_encryption_policy reg ty p))"
    "protocol_kept reg \<Longrightarrow> protocol_kept (snd (set_data_type_e2e_encryption_policy reg ty p))"
proof -
  show "registry_ok (snd (set_data_type_e2e_encryption_policy reg ty p))"
    using assms
    by (auto simp: set_data_type_e2e_encryption_policy_def registry_ok_def table_ok_def
        dest!: set_policy_set)
  have upd: "\<exists>p'. map_of (set_policy ty p es) i = Some (m\<lparr>mm_e2e_encryption := p'\<rparr>)"
    if "\<exists>p'. map_of es i = Some (m\<lparr>mm_e2e_encryption := p'\<rparr>)" for es i m
    using that by (auto simp: set_policy_map_of split: option.split)
  show "protocol_kept (snd (set_data_type_e2e_encryption_policy reg ty p))" if "protocol_kept reg"
    using that
    by (auto simp: set_data_type_e2e_encryption_policy_def protocol_kept_def list_all_iff intro!: upd)
qed

subsection \<open>The initial registry\<close>

lemma set_push_type [simp]:
  "set (types (push_type reg d)) = insert (ot_id d, message_meta_of d) (set (types reg))"
  by (simp add: push_type_def)

lemma set_push_endpoint [simp]:
  "set (endpoints (push_endpoint reg d)) = insert (oe_id d, endpoint_meta_of d) (set (endpoints reg))"
  by (simp add: push_endpoint_def)

lemma map_of_None_set: "map_of es k = None \<longleftrightarrow> k \<notin> fst ` set es"
  by (simp add: map_of_eq_None_iff)

lemma register_all_endpoints:
  assumes "registry_ok reg" "distinct (map oe_id ds)" "distinct (map oe_name ds)"
    "\<And>d. d \<in> set ds \<Longrightarrow> is_ok (resolve_endpoint (oe_name d) (Some (oe_id d))) \<and>
      oe_id d \<notin> fst ` set (endpoints reg) \<and> oe_name d \<notin> (em_name \<circ> snd) ` set (endpoints reg)"
  shows "\<exists>reg'. register_all register_owned_endpoint reg ds = Some reg' \<and> registry_ok reg' \<and>
    types reg' = types reg \<and>
    set (endpoints reg') = set (endpoints reg) \<union> (\<lambda>d. (oe_id d, endpoint_meta_of d)) ` set ds"
  using assms
proof (induction ds arbitrary: reg)
  case Nil
  then show ?case by simp
next
  case (Cons d ds)
  have d: "is_ok (resolve_endpoint (oe_name d) (Some (oe_id d)))" "map_of (endpoints reg) (oe_id d) = None"
    "oe_name d \<notin> (em_name \<circ> snd) ` set (endpoints reg)"
    using Cons.prems(4) [of d] by (auto simp: map_of_None_set)
  have "registry_ok (push_endpoint reg d)"
    using push_endpoint_ok(1) [OF Cons.prems(1) d(2,3,1)] .
  moreover have "oe_id e \<notin> fst ` set (endpoints (push_endpoint reg d)) \<and>
      oe_name e \<notin> (em_name \<circ> snd) ` set (endpoints (push_endpoint reg d))" if "e \<in> set ds" for e
    using that Cons.prems(2-4) by (auto simp: image_iff)
  ultimately obtain reg' where "register_all register_owned_endpoint (push_endpoint reg d) ds = Some reg'"
    "registry_ok reg'" "types reg' = types reg" "set (endpoints reg') =
      insert (oe_id d, endpoint_meta_of d) (set (endpoints reg)) \<union> (\<lambda>d. (oe_id d, endpoint_meta_of d)) ` set ds"
    using Cons.IH [of "push_endpoint reg d"] Cons.prems(2-4) by auto
  then show ?case
    using d by (auto simp: register_owned_endpoint_eq [of reg d])
qed

lemma register_all_types:
  assumes "registry_ok reg" "distinct (map ot_id ds)" "distinct (map ot_name ds)"
    "\<And>d. d \<in> set ds \<Longrightarrow> is_ok (resolve_type (ot_name d) (Some (ot_id d))) \<and>
      ot_id d \<notin> fst ` set (types reg) \<and> ot_name d \<notin> (mm_name \<circ> snd) ` set (types reg)"
  shows "\<exists>reg'. register_all register_owned_type reg ds = Some reg' \<and> registry_ok reg' \<and>
    endpoints reg' = endpoints reg \<and>
    set (types reg') = set (types reg) \<union> (\<lambda>d. (ot_id d, message_meta_of d)) ` set ds"
  using assms
proof (induction ds arbitrary: reg)
  case Nil
  then show ?case by simp
next
  case (Cons d ds)
  have d: "is_ok (resolve_type (ot_name d) (Some (ot_id d)))" "map_of (types reg) (ot_id d) = None"
    "ot_name d \<notin> (mm_name \<circ> snd) ` set (types reg)"
    using Cons.prems(4) [of d] by (auto simp: map_of_None_set)
  have "registry_ok (push_type reg d)"
    using push_type_ok(1) [OF Cons.prems(1) d(2,3,1)] .
  moreover have "ot_id e \<notin> fst ` set (types (push_type reg d)) \<and>
      ot_name e \<notin> (mm_name \<circ> snd) ` set (types (push_type reg d))" if "e \<in> set ds" for e
    using that Cons.prems(2-4) by (auto simp: image_iff)
  ultimately obtain reg' where "register_all register_owned_type (push_type reg d) ds = Some reg'"
    "registry_ok reg'" "endpoints reg' = endpoints reg" "set (types reg') =
      insert (ot_id d, message_meta_of d) (set (types reg)) \<union> (\<lambda>d. (ot_id d, message_meta_of d)) ` set ds"
    using Cons.IH [of "push_type reg d"] Cons.prems(2-4) by auto
  then show ?case
    using d by (auto simp: register_owned_type_eq [of reg d])
qed

lemma empty_registry_ok: "registry_ok empty_registry"
  by (simp add: registry_ok_def empty_registry_def table_ok_def)

lemma Registry_new_ok:
  obtains reg where "Registry_new = Some reg" "registry_ok reg" "protocol_kept reg"
    "set (endpoints reg) = (\<lambda>d. (oe_id d, endpoint_meta_of d)) ` set builtin_endpoints"
    "set (types reg) = (\<lambda>d. (ot_id d, message_meta_of d)) ` set builtin_types"
proof -
  obtain reg1 where 1: "register_all register_owned_endpoint empty_registry builtin_endpoints = Some reg1"
    "registry_ok reg1" "types reg1 = []"
    "set (endpoints reg1) = (\<lambda>d. (oe_id d, endpoint_meta_of d)) ` set builtin_endpoints"
    using register_all_endpoints [OF empty_registry_ok builtin_ids(4,5)] builtin_resolve(2)
    by (auto simp: empty_registry_def)
  obtain reg where 2: "register_all register_owned_type reg1 builtin_types = Some reg" "registry_ok reg"
    "endpoints reg = endpoints reg1"
    "set (types reg) = (\<lambda>d. (ot_id d, message_meta_of d)) ` set builtin_types"
    using register_all_types [OF 1(2) builtin_ids(2,3)] builtin_resolve(1) 1(3) by auto
  have dist: "distinct (map fst (endpoints reg))" "distinct (map fst (types reg))"
    using 2(2) by (auto simp: registry_ok_def table_ok_def)
  have "map_of (endpoints reg) (oe_id d) = Some (endpoint_meta_of d)" if "d \<in> set builtin_endpoints" for d
    using that 1(4) 2(3) dist by auto
  moreover have "map_of (types reg) (ot_id d) =
      Some ((message_meta_of d)\<lparr>mm_e2e_encryption := ot_e2e_encryption d\<rparr>)"
    if "d \<in> set builtin_types" for d
  proof -
    have "(message_meta_of d)\<lparr>mm_e2e_encryption := ot_e2e_encryption d\<rparr> = message_meta_of d"
      by (simp add: message_meta_of_def)
    moreover have "map_of (types reg) (ot_id d) = Some (message_meta_of d)"
      using that 2(4) dist by (intro map_of_is_SomeI) auto
    ultimately show ?thesis
      by simp
  qed
  ultimately have "protocol_kept reg"
    unfolding protocol_kept_def list_all_iff by blast
  then show thesis
    using that [of reg] 1 2 by (simp add: Registry_new_def)
qed

text \<open>The hosted and the embedded build carry the same protocol schema, and its
  type ids are the positions in the table, which the embedded lookup indexes by.\<close>

theorem embedded_builtins_agree:
  "EMBEDDED_BUILTIN_TYPES_1 @ EMBEDDED_BUILTIN_TYPES_2 = builtin_types_1 @ builtin_types_2 \<and>
   EMBEDDED_BUILTIN_ENDPOINTS = builtin_endpoints \<and>
   map ot_id (EMBEDDED_BUILTIN_TYPES_1 @ EMBEDDED_BUILTIN_TYPES_2) = map of_nat [0..<19]"
  by (intro conjI) code_simp+

end
