(* ===== verification/Schema_Merge.thy ===== *)
theory Schema_Merge
  imports Schema_Registry "HOL-Library.Multiset"
begin

text \<open>
  Merging of schema snapshots received from other nodes (\<^verbatim>\<open>src/src/config.rs\<close>): the
  FNV-style fingerprints, the deterministic winner of a conflict, the union of
  compatible catalogs, and the budgeted, validated merge of a whole snapshot.
  The budgeted merge locks the registry twice; the model takes the registry seen
  under the first lock and the one under the second as separate arguments, so
  that its theorems hold whatever other threads did in between.
  Proved: the registry invariant survives every operation, merging is idempotent
  and does not depend on which side merges first.
\<close>

section \<open>Fingerprints\<close>

definition hash_bytes :: "u64 \<Rightarrow> bytes \<Rightarrow> u64" where
  "hash_bytes h bs = foldl (\<lambda>h b. (h XOR ucast b) * 0x100000001B3) h bs"

definition hash_u8 :: "u64 \<Rightarrow> u8 \<Rightarrow> u64" where
  "hash_u8 h v = hash_bytes h [v]"

definition hash_u32 :: "u64 \<Rightarrow> u32 \<Rightarrow> u64" where
  "hash_u32 h v = hash_bytes h (le_bytes 4 v)"

definition hash_usize :: "u64 \<Rightarrow> nat \<Rightarrow> u64" where
  "hash_usize h v = hash_bytes h (le_bytes 8 (of_nat v :: u64))"

fun hash_message_element :: "u64 \<Rightarrow> MessageElement \<Rightarrow> u64" where
  "hash_message_element h (Static n dt cl) =
    hash_u8 (hash_u8 (hash_usize (hash_u8 h 0) n) (message_data_type_code dt))
      (message_class_code cl)"
| "hash_message_element h (Dynamic dt cl) =
    hash_u8 (hash_u8 (hash_u8 h 1) (message_data_type_code dt)) (message_class_code cl)"

definition endpoint_fingerprint :: "OwnedEndpointDefinition \<Rightarrow> u64" where
  "endpoint_fingerprint def =
    hash_u8 (hash_bytes (hash_u32 0x4550444546000001 (oe_id def)) (as_bytes (oe_name def)))
      (if oe_link_local_only def then 1 else 0)"

definition type_fingerprint :: "OwnedDataTypeDefinition \<Rightarrow> u64" where
  "type_fingerprint def =
    (let h = hash_u32 0x5459444546000001 (ot_id def);
         h = hash_bytes h (as_bytes (ot_name def));
         h = hash_message_element h (ot_element def);
         h = hash_u8 h (reliable_code (ot_reliable def));
         h = hash_u8 h (ot_priority def);
         h = hash_u8 h (e2e_encryption_policy_code (ot_e2e_encryption def)) in
     foldl hash_u32 h (ot_endpoints def))"

definition schema_fingerprint :: "Registry \<Rightarrow> u64" where
  "schema_fingerprint reg =
    (let snapshot = export_schema reg;
         h = foldl (\<lambda>h ep. hash_u8 (hash_bytes (hash_bytes (hash_u32 h (oe_id ep))
                 (as_bytes (oe_name ep))) (as_bytes (oe_description ep)))
                 (if oe_link_local_only ep then 1 else 0))
               0x5ED5504F52494E54 (sn_endpoints snapshot) in
     foldl (\<lambda>h ty. foldl hash_u32
         (hash_u8 (hash_u8 (hash_message_element (hash_bytes (hash_bytes (hash_u32 h (ot_id ty))
           (as_bytes (ot_name ty))) (as_bytes (ot_description ty))) (ot_element ty))
           (reliable_code (ot_reliable ty))) (ot_priority ty)) (ot_endpoints ty))
       h (sn_types snapshot))"

section \<open>Conflict resolution\<close>

text \<open>Comparison of string slices: bytewise lexicographic.\<close>

fun bytes_le :: "bytes \<Rightarrow> bytes \<Rightarrow> bool" where
  "bytes_le [] _ = True"
| "bytes_le (x # xs) [] = False"
| "bytes_le (x # xs) (y # ys) = (x < y \<or> x = y \<and> bytes_le xs ys)"

definition key_le :: "u64 \<times> u32 \<times> string \<Rightarrow> u64 \<times> u32 \<times> string \<Rightarrow> bool" where
  "key_le a b =
    (case a of (f, i, n) \<Rightarrow> case b of (f', i', n') \<Rightarrow>
      f < f' \<or> f = f' \<and> (i < i' \<or> i = i' \<and> bytes_le (as_bytes n) (as_bytes n')))"

definition endpoint_key :: "OwnedEndpointDefinition \<Rightarrow> u64 \<times> u32 \<times> string" where
  "endpoint_key d = (endpoint_fingerprint d, oe_id d, oe_name d)"

definition type_key :: "OwnedDataTypeDefinition \<Rightarrow> u64 \<times> u32 \<times> string" where
  "type_key d = (type_fingerprint d, ot_id d, ot_name d)"

definition endpoint_winner ::
  "OwnedEndpointDefinition \<Rightarrow> OwnedEndpointDefinition \<Rightarrow> OwnedEndpointDefinition" where
  "endpoint_winner a b = (if key_le (endpoint_key a) (endpoint_key b) then a else b)"

definition type_winner ::
  "OwnedDataTypeDefinition \<Rightarrow> OwnedDataTypeDefinition \<Rightarrow> OwnedDataTypeDefinition" where
  "type_winner a b = (if key_le (type_key a) (type_key b) then a else b)"

definition endpoint_def_equivalent ::
  "OwnedEndpointDefinition \<Rightarrow> OwnedEndpointDefinition \<Rightarrow> bool" where
  "endpoint_def_equivalent a b =
    (oe_id a = oe_id b \<and> oe_name a = oe_name b \<and>
     (oe_description a = oe_description b \<or> oe_description a = [] \<or> oe_description b = []) \<and>
     oe_link_local_only a = oe_link_local_only b)"

definition type_def_equivalent ::
  "OwnedDataTypeDefinition \<Rightarrow> OwnedDataTypeDefinition \<Rightarrow> bool" where
  "type_def_equivalent a b =
    (ot_id a = ot_id b \<and> ot_name a = ot_name b \<and>
     (ot_description a = ot_description b \<or> ot_description a = [] \<or> ot_description b = []) \<and>
     ot_element a = ot_element b \<and> ot_endpoints a = ot_endpoints b \<and>
     ot_reliable a = ot_reliable b \<and> ot_priority a = ot_priority b \<and>
     ot_e2e_encryption a = ot_e2e_encryption b)"

definition endpoint_placeholder :: "DataEndpoint \<Rightarrow> string \<Rightarrow> bool" where
  "endpoint_placeholder i name =
    (take 9 name = ''ENDPOINT_'' \<and> parse_u32 (drop 9 name) = Some i)"

definition endpoint_identity_conflicts ::
  "DataEndpoint \<Rightarrow> string \<Rightarrow> DataEndpoint \<Rightarrow> string \<Rightarrow> bool" where
  "endpoint_identity_conflicts a a_name b b_name =
    (if a = b then
       a_name \<noteq> b_name \<and> \<not> endpoint_placeholder a a_name \<and> \<not> endpoint_placeholder b b_name
     else a_name = b_name)"

definition merge_endpoint_metadata ::
  "OwnedEndpointDefinition \<Rightarrow> OwnedEndpointDefinition \<Rightarrow> OwnedEndpointDefinition" where
  "merge_endpoint_metadata a b =
    (if is_internal_endpoint (oe_id a) then a
     else if oe_id a = oe_id b \<and> oe_name a \<noteq> oe_name b \<and>
       endpoint_placeholder (oe_id a) (oe_name a) \<and> \<not> endpoint_placeholder (oe_id b) (oe_name b) then b
     else if oe_id a = oe_id b \<and> oe_name a \<noteq> oe_name b \<and>
       endpoint_placeholder (oe_id b) (oe_name b) \<and> \<not> endpoint_placeholder (oe_id a) (oe_name a) then a
     else if oe_id a \<noteq> oe_id b \<or> oe_name a \<noteq> oe_name b then endpoint_winner a b
     else a\<lparr>oe_link_local_only := oe_link_local_only a \<or> oe_link_local_only b\<rparr>)"

section \<open>Insertion sort and deduplication\<close>

text \<open>The inner \<^verbatim>\<open>while cursor > 0\<close> loop, swapping neighbours, and the outer loop over
  the indices from one.\<close>

fun sift_back :: "('a \<Rightarrow> u32) \<Rightarrow> nat \<Rightarrow> 'a list \<Rightarrow> 'a list" where
  "sift_back key 0 xs = xs"
| "sift_back key (Suc c) xs =
    (if key (xs ! c) > key (xs ! Suc c)
     then sift_back key c (xs[c := xs ! Suc c, Suc c := xs ! c]) else xs)"

definition insertion_sort :: "('a \<Rightarrow> u32) \<Rightarrow> 'a list \<Rightarrow> 'a list" where
  "insertion_sort key xs = fold (sift_back key) [1..<length xs] xs"

fun dedup_by_key :: "('a \<Rightarrow> 'k) \<Rightarrow> 'a list \<Rightarrow> 'a list" where
  "dedup_by_key key (x # y # zs) =
    (if key x = key y then dedup_by_key key (x # zs) else x # dedup_by_key key (y # zs))"
| "dedup_by_key key xs = xs"

definition sort_owned_schema :: "OwnedRuntimeSchemaSnapshot \<Rightarrow> OwnedRuntimeSchemaSnapshot" where
  "sort_owned_schema snapshot =
    \<lparr>sn_endpoints = insertion_sort oe_id (sn_endpoints snapshot),
     sn_types = insertion_sort ot_id (sn_types snapshot)\<rparr>"

definition dedup_schema :: "OwnedRuntimeSchemaSnapshot \<Rightarrow> OwnedRuntimeSchemaSnapshot" where
  "dedup_schema snapshot =
    \<lparr>sn_endpoints = dedup_by_key oe_id (sn_endpoints snapshot),
     sn_types = dedup_by_key ot_id (sn_types snapshot)\<rparr>"

text \<open>\<^verbatim>\<open>for endpoint in &b.endpoints\<close>: append what is not there yet.\<close>

definition extend_missing :: "DataEndpoint list \<Rightarrow> DataEndpoint list \<Rightarrow> DataEndpoint list" where
  "extend_missing eps new = foldl (\<lambda>acc ep. if ep \<in> set acc then acc else acc @ [ep]) eps new"

definition merge_type_metadata ::
  "OwnedDataTypeDefinition \<Rightarrow> OwnedDataTypeDefinition \<Rightarrow> OwnedDataTypeDefinition" where
  "merge_type_metadata a b =
    (if is_internal_data_type (ot_id a) then a
     else if ot_id a \<noteq> ot_id b \<or> ot_name a \<noteq> ot_name b \<or> ot_element a \<noteq> ot_element b \<or>
       ot_reliable a \<noteq> ot_reliable b \<or> ot_e2e_encryption a \<noteq> ot_e2e_encryption b
     then type_winner a b
     else a\<lparr>ot_endpoints := dedup_by_key (\<lambda>x. x)
               (insertion_sort (\<lambda>x. x) (extend_missing (ot_endpoints a) (ot_endpoints b))),
            ot_priority := max (ot_priority a) (ot_priority b)\<rparr>)"

section \<open>Merging one definition\<close>

datatype SchemaMergeDecision = Added | Unchanged | ReplacedLocal | KeptLocal

text \<open>\<^verbatim>\<open>iter().position\<close>\<close>

fun position :: "('a \<Rightarrow> bool) \<Rightarrow> 'a list \<Rightarrow> nat option" where
  "position P [] = None"
| "position P (x # xs) = (if P x then Some 0 else map_option Suc (position P xs))"

definition conflict_index :: "nat option \<Rightarrow> nat option \<Rightarrow> nat option" where
  "conflict_index id_match name_match =
    (case (id_match, name_match) of
      (Some a, Some b) \<Rightarrow> if a \<noteq> b then Some (min a b) else Some a
    | (Some a, None) \<Rightarrow> Some a
    | (None, Some a) \<Rightarrow> Some a
    | (None, None) \<Rightarrow> None)"

definition merge_endpoint_definition ::
  "Registry \<Rightarrow> OwnedEndpointDefinition \<Rightarrow> SchemaMergeDecision \<times> Registry" where
  "merge_endpoint_definition reg def =
    (case conflict_index (position (\<lambda>e. fst e = oe_id def) (endpoints reg))
        (position (\<lambda>e. em_name (snd e) = oe_name def) (endpoints reg)) of
      None \<Rightarrow>
        (Added, reg\<lparr>next_endpoint_id := max (next_endpoint_id reg) (u32_succ_sat (oe_id def)),
           endpoints := sort_key fst (endpoints reg @ [(oe_id def, endpoint_meta_of def)])\<rparr>)
    | Some idx \<Rightarrow>
        let existing_def = endpoint_def_of (endpoints reg ! idx) in
        if endpoint_def_equivalent existing_def def then (Unchanged, reg)
        else
          let def = merge_endpoint_metadata existing_def def in
          if \<not> endpoint_def_equivalent existing_def def then
            (ReplacedLocal,
             reg\<lparr>endpoints := sort_key fst ((endpoints reg)[idx := (oe_id def, endpoint_meta_of def)]),
                 next_endpoint_id := max (next_endpoint_id reg) (u32_succ_sat (oe_id def))\<rparr>)
          else (KeptLocal, reg))"

definition merge_type_definition ::
  "Registry \<Rightarrow> OwnedDataTypeDefinition \<Rightarrow> SchemaMergeDecision \<times> Registry" where
  "merge_type_definition reg def =
    (case conflict_index (position (\<lambda>e. fst e = ot_id def) (types reg))
        (position (\<lambda>e. mm_name (snd e) = ot_name def) (types reg)) of
      None \<Rightarrow>
        (Added, reg\<lparr>next_type_id := max (next_type_id reg) (u32_succ_sat (ot_id def)),
           types := sort_key fst (types reg @ [(ot_id def, message_meta_of def)])\<rparr>)
    | Some idx \<Rightarrow>
        let existing_def = type_def_of (types reg ! idx) in
        if type_def_equivalent existing_def def then (Unchanged, reg)
        else
          let def = merge_type_metadata existing_def def in
          if \<not> type_def_equivalent existing_def def then
            (ReplacedLocal,
             reg\<lparr>types := sort_key fst ((types reg)[idx := (ot_id def, message_meta_of def)]),
                 next_type_id := max (next_type_id reg) (u32_succ_sat (ot_id def))\<rparr>)
          else (KeptLocal, reg))"

section \<open>Merging a snapshot\<close>

record SchemaMergeReport =
  endpoints_added :: nat
  endpoints_replaced :: nat
  endpoints_kept :: nat
  types_added :: nat
  types_replaced :: nat
  types_kept :: nat

definition report_changed :: "SchemaMergeReport \<Rightarrow> bool" where
  "report_changed r \<longleftrightarrow>
    endpoints_added r \<noteq> 0 \<or> endpoints_replaced r \<noteq> 0 \<or> types_added r \<noteq> 0 \<or> types_replaced r \<noteq> 0"

fun count_endpoint :: "SchemaMergeDecision \<Rightarrow> SchemaMergeReport \<Rightarrow> SchemaMergeReport" where
  "count_endpoint Added r = r\<lparr>endpoints_added := endpoints_added r + 1\<rparr>"
| "count_endpoint ReplacedLocal r = r\<lparr>endpoints_replaced := endpoints_replaced r + 1\<rparr>"
| "count_endpoint KeptLocal r = r\<lparr>endpoints_kept := endpoints_kept r + 1\<rparr>"
| "count_endpoint Unchanged r = r"

fun count_type :: "SchemaMergeDecision \<Rightarrow> SchemaMergeReport \<Rightarrow> SchemaMergeReport" where
  "count_type Added r = r\<lparr>types_added := types_added r + 1\<rparr>"
| "count_type ReplacedLocal r = r\<lparr>types_replaced := types_replaced r + 1\<rparr>"
| "count_type KeptLocal r = r\<lparr>types_kept := types_kept r + 1\<rparr>"
| "count_type Unchanged r = r"

fun merge_loop :: "('r \<Rightarrow> 'd \<Rightarrow> SchemaMergeDecision \<times> 'r) \<Rightarrow>
    (SchemaMergeDecision \<Rightarrow> SchemaMergeReport \<Rightarrow> SchemaMergeReport) \<Rightarrow>
    'r \<Rightarrow> SchemaMergeReport \<Rightarrow> 'd list \<Rightarrow> SchemaMergeReport \<times> 'r" where
  "merge_loop merge tally reg report [] = (report, reg)"
| "merge_loop merge tally reg report (d # ds) =
    (case merge reg d of (decision, reg') \<Rightarrow> merge_loop merge tally reg' (tally decision report) ds)"

definition empty_report :: SchemaMergeReport where
  "empty_report = \<lparr>endpoints_added = 0, endpoints_replaced = 0, endpoints_kept = 0,
    types_added = 0, types_replaced = 0, types_kept = 0\<rparr>"

definition merge_owned_schema_snapshot_locked ::
  "Registry \<Rightarrow> OwnedRuntimeSchemaSnapshot \<Rightarrow> SchemaMergeReport \<times> Registry" where
  "merge_owned_schema_snapshot_locked reg snapshot =
    (let snapshot = dedup_schema (sort_owned_schema snapshot);
         (report, reg) =
           merge_loop merge_endpoint_definition count_endpoint reg empty_report (sn_endpoints snapshot) in
     merge_loop merge_type_definition count_type reg report (sn_types snapshot))"

text \<open>Byte costs; the sizes of the two stored tuples are compiler constants.\<close>

record Layout =
  endpoint_entry_size :: nat
  type_entry_size :: nat

definition endpoint_schema_byte_cost :: "Layout \<Rightarrow> nat \<Rightarrow> nat \<Rightarrow> nat" where
  "endpoint_schema_byte_cost L name_len description_len =
    saturating_add (saturating_add (endpoint_entry_size L) name_len) description_len"

definition type_schema_byte_cost :: "Layout \<Rightarrow> nat \<Rightarrow> nat \<Rightarrow> nat \<Rightarrow> nat" where
  "type_schema_byte_cost L name_len description_len endpoint_count =
    saturating_add (saturating_add (saturating_add (type_entry_size L) name_len) description_len)
      (saturating_mul endpoint_count 4)"

definition owned_schema_byte_cost :: "Layout \<Rightarrow> OwnedRuntimeSchemaSnapshot \<Rightarrow> nat" where
  "owned_schema_byte_cost L snapshot =
    saturating_add
      (sum_list (map (\<lambda>d. endpoint_schema_byte_cost L (length (oe_name d)) (length (oe_description d)))
        (sn_endpoints snapshot)) mod 2 ^ 64)
      (sum_list (map (\<lambda>d. type_schema_byte_cost L (length (ot_name d)) (length (ot_description d))
        (length (ot_endpoints d))) (sn_types snapshot)) mod 2 ^ 64)"

definition schema_byte_cost :: "Layout \<Rightarrow> Registry \<Rightarrow> nat" where
  "schema_byte_cost L reg =
    saturating_add
      (sum_list (map (\<lambda>e. endpoint_schema_byte_cost L (length (em_name (snd e)))
        (length (em_description (snd e)))) (endpoints reg)) mod 2 ^ 64)
      (sum_list (map (\<lambda>e. type_schema_byte_cost L (length (mm_name (snd e)))
        (length (mm_description (snd e))) (length (mm_endpoints (snd e)))) (types reg)) mod 2 ^ 64)"

text \<open>\<^verbatim>\<open>validate_schema_identities\<close>: each definition against its predecessors.\<close>

fun validate_endpoints :: "bool \<Rightarrow> OwnedEndpointDefinition list \<Rightarrow> OwnedEndpointDefinition list \<Rightarrow> bool" where
  "validate_endpoints allow before [] = True"
| "validate_endpoints allow before (d # ds) =
    (is_ok (resolve_endpoint (oe_name d) (Some (oe_id d))) \<and>
     \<not> list_ex (\<lambda>other. (oe_id other = oe_id d \<or> oe_name other = oe_name d) \<and>
         (\<not> allow \<or> other \<noteq> d)) before \<and>
     validate_endpoints allow (before @ [d]) ds)"

fun validate_types :: "bool \<Rightarrow> OwnedDataTypeDefinition list \<Rightarrow> OwnedDataTypeDefinition list \<Rightarrow> bool" where
  "validate_types allow before [] = True"
| "validate_types allow before (d # ds) =
    (is_ok (resolve_type (ot_name d) (Some (ot_id d))) \<and>
     \<not> list_ex (\<lambda>other. (ot_id other = ot_id d \<or> ot_name other = ot_name d) \<and>
         (\<not> allow \<or> other \<noteq> d)) before \<and>
     validate_types allow (before @ [d]) ds)"

definition validate_schema_identities :: "OwnedRuntimeSchemaSnapshot \<Rightarrow> bool \<Rightarrow> unit result" where
  "validate_schema_identities snapshot allow =
    (if validate_endpoints allow [] (sn_endpoints snapshot) \<and> validate_types allow [] (sn_types snapshot)
     then Ok () else Err BadArg)"

abbreviation schema_too_large :: "'a result" where
  "schema_too_large \<equiv> Err (PacketTooLarge ''Schema exceeds maximum shared queue budget'')"

definition snapshot_conflicts :: "Registry \<Rightarrow> OwnedRuntimeSchemaSnapshot \<Rightarrow> bool" where
  "snapshot_conflicts reg snapshot =
    (list_ex (\<lambda>def. list_ex (\<lambda>(i, meta).
        endpoint_identity_conflicts i (em_name meta) (oe_id def) (oe_name def)) (endpoints reg))
      (sn_endpoints snapshot) \<or>
     list_ex (\<lambda>def. list_ex (\<lambda>(i, meta). (i = ot_id def \<or> mm_name meta = ot_name def) \<and>
        (i \<noteq> ot_id def \<or> mm_name meta \<noteq> ot_name def)) (types reg))
      (sn_types snapshot))"

text \<open>The first registry is what the cost probe saw under its own lock.\<close>

definition merge_owned_schema_snapshot_with_budget ::
  "Layout \<Rightarrow> Registry \<Rightarrow> Registry \<Rightarrow> OwnedRuntimeSchemaSnapshot \<Rightarrow> nat \<Rightarrow>
    SchemaMergeReport result \<times> Registry" where
  "merge_owned_schema_snapshot_with_budget L probed reg snapshot max_schema_bytes =
    (case validate_schema_identities snapshot True of
      Inl e \<Rightarrow> (Err e, reg)
    | Inr _ \<Rightarrow>
        let snapshot = dedup_schema (sort_owned_schema snapshot) in
        if saturating_add (schema_byte_cost L probed) (owned_schema_byte_cost L snapshot)
             > max_schema_bytes
        then (schema_too_large, reg)
        else if snapshot_conflicts reg snapshot then (Err BadArg, reg)
        else
          (case merge_owned_schema_snapshot_locked reg snapshot of (report, preview) \<Rightarrow>
            if schema_byte_cost L preview > max_schema_bytes then (schema_too_large, reg)
            else (Ok report, preview)))"

section \<open>The contract of a mergeable table\<close>

text \<open>Both merges are this operation on their table, with the registry's own
  functions for the parameters.\<close>

definition merge_table ::
  "('m \<Rightarrow> string) \<Rightarrow> ('d \<Rightarrow> u32) \<Rightarrow> ('d \<Rightarrow> string) \<Rightarrow> ('d \<Rightarrow> 'm) \<Rightarrow> (u32 \<times> 'm \<Rightarrow> 'd) \<Rightarrow>
    ('d \<Rightarrow> 'd \<Rightarrow> bool) \<Rightarrow> ('d \<Rightarrow> 'd \<Rightarrow> 'd) \<Rightarrow> (u32 \<times> 'm) list \<Rightarrow> 'd \<Rightarrow>
    SchemaMergeDecision \<times> (u32 \<times> 'm) list" where
  "merge_table nm did dname meta_of def_of eqv merge es d =
    (case conflict_index (position (\<lambda>e. fst e = did d) es) (position (\<lambda>e. nm (snd e) = dname d) es) of
      None \<Rightarrow> (Added, sort_key fst (es @ [(did d, meta_of d)]))
    | Some idx \<Rightarrow>
        let ex = def_of (es ! idx) in
        if eqv ex d then (Unchanged, es)
        else
          let m = merge ex d in
          if \<not> eqv ex m then (ReplacedLocal, sort_key fst (es[idx := (did m, meta_of m)]))
          else (KeptLocal, es))"

abbreviation endpoint_merge_table ::
  "(u32 \<times> EndpointMeta) list \<Rightarrow> OwnedEndpointDefinition \<Rightarrow>
    SchemaMergeDecision \<times> (u32 \<times> EndpointMeta) list" where
  "endpoint_merge_table \<equiv> merge_table em_name oe_id oe_name endpoint_meta_of endpoint_def_of
    endpoint_def_equivalent merge_endpoint_metadata"

abbreviation type_merge_table ::
  "(u32 \<times> MessageMeta) list \<Rightarrow> OwnedDataTypeDefinition \<Rightarrow>
    SchemaMergeDecision \<times> (u32 \<times> MessageMeta) list" where
  "type_merge_table \<equiv> merge_table mm_name ot_id ot_name message_meta_of type_def_of
    type_def_equivalent merge_type_metadata"

lemma merge_endpoint_definition_table:
  "fst (merge_endpoint_definition reg d) = fst (endpoint_merge_table (endpoints reg) d)"
  "endpoints (snd (merge_endpoint_definition reg d)) = snd (endpoint_merge_table (endpoints reg) d)"
  "types (snd (merge_endpoint_definition reg d)) = types reg"
  by (simp_all add: merge_endpoint_definition_def merge_table_def Let_def split: option.split)

lemma merge_type_definition_table:
  "fst (merge_type_definition reg d) = fst (type_merge_table (types reg) d)"
  "types (snd (merge_type_definition reg d)) = snd (type_merge_table (types reg) d)"
  "endpoints (snd (merge_type_definition reg d)) = endpoints reg"
  by (simp_all add: merge_type_definition_def merge_table_def Let_def split: option.split)

lemma position_None: "position P xs = None \<longleftrightarrow> (\<forall>x\<in>set xs. \<not> P x)"
  by (induction xs) auto

lemma position_Some: "position P xs = Some i \<Longrightarrow> i < length xs \<and> P (xs ! i)"
  by (induction xs arbitrary: i) (auto split: if_splits)

lemma position_key:
  assumes "distinct (map fst es)" "i < length es" "fst (es ! i) = k"
  shows "position (\<lambda>e. fst e = k) es = Some i"
  using assms
proof (induction es arbitrary: i)
  case Nil
  then show ?case by simp
next
  case (Cons e es)
  show ?case
  proof (cases i)
    case 0
    then show ?thesis using Cons.prems by simp
  next
    case (Suc j)
    then have "k \<in> fst ` set es"
      using Cons.prems by (metis imageI length_Cons not_less_eq nth_Cons_Suc nth_mem)
    then show ?thesis
      using Suc Cons.prems Cons.IH [of j] by auto
  qed
qed

lemma map_of_update_index:
  assumes "distinct (map fst es)" "i < length es" "fst (es ! i) = k"
  shows "map_of (es[i := (k, m)]) = (map_of es)(k \<mapsto> m)"
  using assms
proof (induction es arbitrary: i)
  case Nil
  then show ?case by simp
next
  case (Cons e es)
  show ?case
  proof (cases i)
    case 0
    then show ?thesis using Cons.prems by (cases e) (auto simp: fun_eq_iff)
  next
    case (Suc j)
    then have "k \<in> fst ` set es"
      using Cons.prems by (metis imageI length_Cons not_less_eq nth_Cons_Suc nth_mem)
    then have "fst e \<noteq> k"
      using Cons.prems(1) by auto
    then show ?thesis
      using Suc Cons.prems Cons.IH [of j] by (cases e) (auto simp: fun_eq_iff)
  qed
qed

locale merge_contract =
  fixes nm :: "'m \<Rightarrow> string"
    and did :: "'d \<Rightarrow> u32"
    and dname :: "'d \<Rightarrow> string"
    and meta_of :: "'d \<Rightarrow> 'm"
    and def_of :: "u32 \<times> 'm \<Rightarrow> 'd"
    and eqv :: "'d \<Rightarrow> 'd \<Rightarrow> bool"
    and merge :: "'d \<Rightarrow> 'd \<Rightarrow> 'd"
    and internal :: "u32 \<Rightarrow> bool"
  assumes did_def_of [simp]: "did (def_of e) = fst e"
    and dname_def_of [simp]: "dname (def_of e) = nm (snd e)"
    and nm_meta_of [simp]: "nm (meta_of d) = dname d"
    and def_of_meta [simp]: "def_of (did d, meta_of d) = d"
    and eqv_refl [simp]: "eqv d d"
    and merge_id: "did a = did b \<Longrightarrow> did (merge a b) = did a"
    and merge_name: "dname (merge a b) = dname a \<or> dname (merge a b) = dname b"
    and merge_internal: "internal (did a) \<Longrightarrow> merge a b = a"
    and merge_again: "did a = did b \<Longrightarrow> eqv (merge a b) b \<or> eqv (merge a b) (merge (merge a b) b)"
begin

definition compat :: "(u32 \<times> 'm) list \<Rightarrow> 'd \<Rightarrow> bool" where
  "compat es d \<longleftrightarrow> (\<forall>e\<in>set es. nm (snd e) = dname d \<longrightarrow> fst e = did d)"

abbreviation table_merge :: "(u32 \<times> 'm) list \<Rightarrow> 'd \<Rightarrow> SchemaMergeDecision \<times> (u32 \<times> 'm) list" where
  "table_merge \<equiv> merge_table nm did dname meta_of def_of eqv merge"

lemma conflict_index_compat:
  assumes "distinct (map fst es)" "compat es d"
  shows "conflict_index (position (\<lambda>e. fst e = did d) es) (position (\<lambda>e. nm (snd e) = dname d) es) =
    position (\<lambda>e. fst e = did d) es"
proof (cases "position (\<lambda>e. nm (snd e) = dname d) es")
  case None
  then show ?thesis
    by (simp add: conflict_index_def split: option.split)
next
  case (Some i)
  then have "i < length es" "fst (es ! i) = did d"
    using position_Some [OF Some] assms(2) by (auto simp: compat_def)
  then show ?thesis
    using Some position_key [OF assms(1)] by (simp add: conflict_index_def)
qed

text \<open>The four outcomes on a well-formed table and a compatible definition.\<close>

lemma table_merge_cases:
  assumes ok: "table_ok nm es" and comp: "compat es d"
  obtains (added) "map_of es (did d) = None" "dname d \<notin> (nm \<circ> snd) ` set es"
      "table_merge es d = (Added, sort_key fst (es @ [(did d, meta_of d)]))"
  | (same) m where "map_of es (did d) = Some m" "table_merge es d = (Unchanged, es)"
      "eqv (def_of (did d, m)) d"
  | (kept) m where "map_of es (did d) = Some m" "table_merge es d = (KeptLocal, es)"
      "\<not> eqv (def_of (did d, m)) d" "eqv (def_of (did d, m)) (merge (def_of (did d, m)) d)"
  | (replaced) m i where "map_of es (did d) = Some m" "i < length es" "es ! i = (did d, m)"
      "table_merge es d = (ReplacedLocal, es[i := (did d, meta_of (merge (def_of (did d, m)) d))])"
      "\<not> eqv (def_of (did d, m)) (merge (def_of (did d, m)) d)" "\<not> eqv (def_of (did d, m)) d"
proof -
  note dist = table_ok_distinct [OF ok]
  note idx = conflict_index_compat [OF dist comp]
  show thesis
  proof (cases "position (\<lambda>e. fst e = did d) es")
    case None
    then have "map_of es (did d) = None"
      by (auto simp: position_None map_of_None_set)
    moreover have "dname d \<notin> (nm \<circ> snd) ` set es"
      using None comp by (auto simp: position_None compat_def)
    ultimately show ?thesis
      using None idx added by (simp add: merge_table_def)
  next
    case (Some i)
    define m where "m = snd (es ! i)"
    have i: "i < length es" "es ! i = (did d, m)"
      using position_Some [OF Some] by (auto simp: m_def prod_eq_iff)
    then have map: "map_of es (did d) = Some m"
      using dist nth_mem [OF i(1)] by (auto intro: map_of_is_SomeI)
    let ?ex = "def_of (did d, m)" and ?new = "(did d, meta_of (merge (def_of (did d, m)) d))"
    have "did (merge ?ex d) = did d"
      using merge_id [of ?ex d] by simp
    moreover have "sort_key fst (es[i := ?new]) = es[i := ?new]"
    proof (rule sort_key_id_if_sorted)
      have "map fst (es[i := ?new]) = map fst es"
        using i by (simp add: map_update list_update_same_conv)
      then show "sorted (map fst (es[i := ?new]))"
        using ok by (simp add: table_ok_def)
    qed
    ultimately have res: "table_merge es d = (if eqv ?ex d then (Unchanged, es)
        else if \<not> eqv ?ex (merge ?ex d) then (ReplacedLocal, es[i := ?new]) else (KeptLocal, es))"
      using Some idx i by (simp add: merge_table_def Let_def)
    consider "eqv ?ex d" | "\<not> eqv ?ex d" "eqv ?ex (merge ?ex d)"
      | "\<not> eqv ?ex d" "\<not> eqv ?ex (merge ?ex d)"
      by blast
    then show ?thesis
      by cases (use res map i same kept replaced in simp_all)
  qed
qed

text \<open>Every entry of the result is an old identity or the merged definition's.\<close>

lemma table_merge_origin:
  assumes ok: "table_ok nm es" and comp: "compat es d" and e: "(k, m') \<in> set (snd (table_merge es d))"
  shows "(\<exists>m. (k, m) \<in> set es \<and> nm m = nm m') \<or> (k = did d \<and> nm m' = dname d)"
  using ok comp
proof (cases rule: table_merge_cases)
  case added
  then show ?thesis using e by auto
next
  case (same m)
  then show ?thesis using e by auto
next
  case (kept m)
  then show ?thesis using e by auto
next
  case (replaced m i)
  then have "(k, m') \<in> set es \<or> k = did d \<and> m' = meta_of (merge (def_of (did d, m)) d)"
    using e set_update_subset_insert by fastforce
  moreover have "(did d, m) \<in> set es"
    using replaced nth_mem by metis
  ultimately show ?thesis
    using merge_name [of "def_of (did d, m)" d] by auto
qed

lemma table_merge_ok:
  assumes ok: "table_ok nm es" and comp: "compat es d"
  shows "table_ok nm (snd (table_merge es d))"
  using ok comp
proof (cases rule: table_merge_cases)
  case added
  then show ?thesis
    using table_ok_push(1) [OF ok added(1), of "meta_of d"] by simp
next
  case (replaced m i)
  let ?m' = "meta_of (merge (def_of (did d, m)) d)"
  have "map fst (es[i := (did d, ?m')]) = map fst es"
    using replaced by (simp add: map_update list_update_same_conv)
  moreover have "distinct (map (nm \<circ> snd) (es[i := (did d, ?m')]))"
  proof -
    have names: "distinct (map (nm \<circ> snd) es)"
      using ok by (simp add: table_ok_def)
    have "nm ?m' = nm m \<or> nm ?m' = dname d"
      using merge_name [of "def_of (did d, m)" d] by simp
    moreover have "nm m = dname d" if used: "dname d \<in> (nm \<circ> snd) ` set es"
    proof -
      obtain e where "e \<in> set es" "nm (snd e) = dname d"
        using used by auto
      then obtain m0 where m0: "(did d, m0) \<in> set es" "nm m0 = dname d"
        using comp unfolding compat_def by (metis prod.collapse)
      then have "m0 = m"
        using replaced(1) table_ok_distinct [OF ok] by simp
      then show ?thesis using m0 by simp
    qed
    ultimately have "nm ?m' \<notin> set (map (nm \<circ> snd) es) - {map (nm \<circ> snd) es ! i}"
      using replaced(2,3)
      by (metis (no_types) Diff_iff comp_apply insertI1 list.set_map nth_map snd_conv)
    then show ?thesis
      using distinct_list_update [OF names, of "nm ?m'" i] by (simp add: map_update)
  qed
  ultimately show ?thesis
    using ok replaced by (simp add: table_ok_def)
qed (use ok in simp_all)

lemma table_merge_internal:
  assumes ok: "table_ok nm es" and comp: "compat es d" and k: "internal k" "map_of es k = Some m"
  shows "map_of (snd (table_merge es d)) k = Some m"
  using ok comp
proof (cases rule: table_merge_cases)
  case added
  then show ?thesis
    using table_ok_push(2) [OF ok added(1), of "meta_of d"] k by auto
next
  case (replaced m0 i)
  have "k \<noteq> did d"
    using replaced(5) merge_internal [of "def_of (did d, m0)" d] k(1) by auto
  then show ?thesis
    using replaced map_of_update_index [OF table_ok_distinct [OF ok] replaced(2)] k(2) by simp
qed (use k in simp_all)

lemma table_merge_idem:
  assumes ok: "table_ok nm es" and comp: "compat es d"
  shows "compat (snd (table_merge es d)) d"
    "snd (table_merge (snd (table_merge es d)) d) = snd (table_merge es d)"
    "fst (table_merge (snd (table_merge es d)) d) \<in> {Unchanged, KeptLocal}"
proof -
  let ?es = "snd (table_merge es d)"
  show comp': "compat ?es d"
    using table_merge_origin [OF ok comp] comp by (fastforce simp: compat_def)
  note ok' = table_merge_ok [OF ok comp]
  have "snd (table_merge ?es d) = ?es \<and> fst (table_merge ?es d) \<in> {Unchanged, KeptLocal}"
    using ok comp
  proof (cases rule: table_merge_cases)
    case added
    then have m: "map_of ?es (did d) = Some (meta_of d)"
      using table_ok_push(2) [OF ok added(1), of "meta_of d"] by simp
    show ?thesis
      using ok' comp' by (cases rule: table_merge_cases) (use m in auto)
  next
    case (replaced m i)
    let ?m = "merge (def_of (did d, m)) d"
    have m: "map_of ?es (did d) = Some (meta_of ?m)"
      using replaced map_of_update_index [OF table_ok_distinct [OF ok] replaced(2)] by simp
    have id: "did ?m = did d"
      using merge_id [of "def_of (did d, m)" d] by simp
    then have def: "def_of (did d, meta_of ?m) = ?m"
      by (metis def_of_meta)
    show ?thesis
      using ok' comp'
      by (cases rule: table_merge_cases) (use m def merge_again [of "def_of (did d, m)" d] in auto)
  qed simp_all
  then show "snd (table_merge ?es d) = ?es" "fst (table_merge ?es d) \<in> {Unchanged, KeptLocal}"
    by auto
qed

lemma compat_after:
  assumes "table_ok nm es" "compat es d" "compat es d'" "did d \<noteq> did d'" "dname d \<noteq> dname d'"
  shows "compat (snd (table_merge es d)) d'"
  using table_merge_origin [OF assms(1,2)] assms(3-5) by (fastforce simp: compat_def)

text \<open>A definition the table has absorbed: merging it again changes nothing.\<close>

definition absorbed :: "(u32 \<times> 'm) list \<Rightarrow> 'd \<Rightarrow> bool" where
  "absorbed es d \<longleftrightarrow> table_merge es d \<in> {(Unchanged, es), (KeptLocal, es)}"

lemma absorbed_iff:
  assumes "table_ok nm es" "compat es d"
  shows "absorbed es d \<longleftrightarrow> (\<exists>m. map_of es (did d) = Some m \<and>
    (eqv (def_of (did d, m)) d \<or> eqv (def_of (did d, m)) (merge (def_of (did d, m)) d)))"
  using assms by (cases rule: table_merge_cases) (auto simp: absorbed_def)

lemma table_merge_absorbs:
  assumes "table_ok nm es" "compat es d"
  shows "absorbed (snd (table_merge es d)) d"
  using table_merge_idem(2,3) [OF assms] unfolding absorbed_def by (metis insert_iff prod.collapse singletonD)

lemma map_of_table_merge_other:
  assumes ok: "table_ok nm es" and comp: "compat es d" and "did d \<noteq> k"
  shows "map_of (snd (table_merge es d)) k = map_of es k"
  using ok comp
proof (cases rule: table_merge_cases)
  case added
  then show ?thesis
    using table_ok_push(2) [OF ok added(1), of "meta_of d"] assms(3) by simp
next
  case (replaced m i)
  then show ?thesis
    using map_of_update_index [OF table_ok_distinct [OF ok] replaced(2)] assms(3) by simp
qed simp_all

lemma absorbed_after:
  assumes "table_ok nm es" "compat es d" "compat es d'" "did d \<noteq> did d'" "dname d \<noteq> dname d'"
  shows "absorbed (snd (table_merge es d)) d' = absorbed es d'"
  using absorbed_iff [OF table_merge_ok [OF assms(1,2)] compat_after [OF assms]]
    absorbed_iff [OF assms(1,3)] map_of_table_merge_other [OF assms(1,2,4)] by simp

text \<open>A whole loop of merges over definitions with distinct identities.\<close>

abbreviation merge_all :: "(u32 \<times> 'm) list \<Rightarrow> 'd list \<Rightarrow> (u32 \<times> 'm) list" where
  "merge_all es ds \<equiv> foldl (\<lambda>es d. snd (table_merge es d)) es ds"

lemma merge_all_ok:
  assumes "table_ok nm es" "distinct (map did ds)" "distinct (map dname ds)" "\<forall>d\<in>set ds. compat es d"
  shows "table_ok nm (merge_all es ds) \<and>
    (\<forall>k m. internal k \<longrightarrow> map_of es k = Some m \<longrightarrow> map_of (merge_all es ds) k = Some m) \<and>
    (\<forall>i m'. (i, m') \<in> set (merge_all es ds) \<longrightarrow>
      (\<exists>m. (i, m) \<in> set es \<and> nm m = nm m') \<or> (\<exists>d\<in>set ds. i = did d \<and> nm m' = dname d))"
  using assms
proof (induction ds arbitrary: es)
  case Nil
  then show ?case by auto
next
  case (Cons d ds)
  let ?es = "snd (table_merge es d)"
  have comp: "compat es d"
    using Cons.prems(4) by simp
  have "table_ok nm ?es" "\<forall>x\<in>set ds. compat ?es x"
    using table_merge_ok [OF Cons.prems(1) comp] compat_after [OF Cons.prems(1) comp] Cons.prems(2-4)
    by (auto simp: image_iff)
  note IH = Cons.IH [OF this(1) _ _ this(2)]
  then show ?case
    using Cons.prems(2,3) table_merge_internal [OF Cons.prems(1) comp]
      table_merge_origin [OF Cons.prems(1) comp]
    by simp (metis (no_types, lifting))
qed

lemma merge_all_absorbs:
  assumes "table_ok nm es" "distinct (map did ds)" "distinct (map dname ds)" "\<forall>d\<in>set ds. compat es d"
  shows "(\<forall>d\<in>set ds. absorbed (merge_all es ds) d) \<and>
    (\<forall>d'. compat es d' \<and> did d' \<notin> did ` set ds \<and> dname d' \<notin> dname ` set ds \<longrightarrow>
      absorbed (merge_all es ds) d' = absorbed es d')"
  using assms
proof (induction ds arbitrary: es)
  case Nil
  then show ?case by auto
next
  case (Cons d ds)
  let ?es = "snd (table_merge es d)"
  have comp: "compat es d"
    using Cons.prems(4) by simp
  have ok: "table_ok nm ?es"
    using table_merge_ok [OF Cons.prems(1) comp] .
  have comp_ds: "\<forall>x\<in>set ds. compat ?es x"
    using compat_after [OF Cons.prems(1) comp] Cons.prems(2-4) by (auto simp: image_iff)
  have IH: "(\<forall>d\<in>set ds. absorbed (merge_all ?es ds) d) \<and>
    (\<forall>d'. compat ?es d' \<and> did d' \<notin> did ` set ds \<and> dname d' \<notin> dname ` set ds \<longrightarrow>
      absorbed (merge_all ?es ds) d' = absorbed ?es d')"
    using Cons.IH [OF ok _ _ comp_ds] Cons.prems(2,3) by simp
  have "absorbed (merge_all ?es ds) d"
    using IH table_merge_idem(1) [OF Cons.prems(1) comp] table_merge_absorbs [OF Cons.prems(1) comp]
      Cons.prems(2,3) by simp
  moreover have "absorbed (merge_all ?es ds) d' = absorbed es d'"
    if "compat es d'" "did d' \<notin> did ` set (d # ds)" "dname d' \<notin> dname ` set (d # ds)" for d'
  proof -
    have ne: "did d \<noteq> did d'" "dname d \<noteq> dname d'"
      using that(2,3) by auto
    show ?thesis
      using IH that compat_after [OF Cons.prems(1) comp that(1) ne]
        absorbed_after [OF Cons.prems(1) comp that(1) ne] by simp
  qed
  ultimately show ?case
    using IH by simp
qed

lemma merge_all_absorbed:
  assumes "\<forall>d\<in>set ds. absorbed es d"
  shows "merge_all es ds = es"
  using assms by (induction ds) (auto simp: absorbed_def)

end

section \<open>The registry's tables satisfy the contract\<close>

lemma equivalent_refl [simp]: "endpoint_def_equivalent d d" "type_def_equivalent t t"
  by (simp_all add: endpoint_def_equivalent_def type_def_equivalent_def)

lemma def_of_meta_of [simp]:
  "endpoint_def_of (oe_id d, endpoint_meta_of d) = d" "type_def_of (ot_id t, message_meta_of t) = t"
  by (simp_all add: endpoint_def_of_def endpoint_meta_of_def type_def_of_def message_meta_of_def)

lemma winner_choice:
  "endpoint_winner a b = a \<or> endpoint_winner a b = b" "type_winner s t = s \<or> type_winner s t = t"
  by (simp_all add: endpoint_winner_def type_winner_def)

lemma endpoint_winner_id:
  "oe_id a = oe_id b \<Longrightarrow> oe_id (endpoint_winner a b) = oe_id a"
  "oe_name (endpoint_winner a b) = oe_name a \<or> oe_name (endpoint_winner a b) = oe_name b"
  by (auto simp: endpoint_winner_def)

lemma type_winner_id:
  "ot_id a = ot_id b \<Longrightarrow> ot_id (type_winner a b) = ot_id a"
  "ot_name (type_winner a b) = ot_name a \<or> ot_name (type_winner a b) = ot_name b"
  by (auto simp: type_winner_def)

text \<open>Sorting and deduplication.\<close>

lemma sift_back_inserts:
  "\<exists>r. sift_back key (length ys) (ys @ x # zs) = r @ zs \<and> mset r = add_mset x (mset ys) \<and>
    (sorted (map key ys) \<longrightarrow> sorted (map key r))"
proof (induction ys arbitrary: zs rule: rev_induct)
  case Nil
  then show ?case by (intro exI [of _ "[x]"]) simp
next
  case (snoc y ys)
  have at: "(ys @ [y] @ x # zs) ! length ys = y" "(ys @ [y] @ x # zs) ! Suc (length ys) = x"
    by (simp_all add: nth_append)
  show ?case
  proof (cases "key y > key x")
    case True
    obtain r where r: "sift_back key (length ys) (ys @ x # y # zs) = r @ y # zs"
      "mset r = add_mset x (mset ys)" "sorted (map key ys) \<longrightarrow> sorted (map key r)"
      using snoc.IH [of "y # zs"] by auto
    have "set r = insert x (set ys)"
      using r(2) by (metis set_mset_add_mset_insert set_mset_mset)
    then have "sorted (map key (ys @ [y])) \<longrightarrow> sorted (map key (r @ [y]))"
      using r(3) True by (auto simp: sorted_append)
    moreover have "sift_back key (length (ys @ [y])) ((ys @ [y]) @ x # zs) = (r @ [y]) @ zs"
      using True r(1) at by (simp add: list_update_append)
    ultimately show ?thesis
      using r(2) by (intro exI [of _ "r @ [y]"]) simp
  next
    case False
    then have "sift_back key (length (ys @ [y])) ((ys @ [y]) @ x # zs) = (ys @ [y, x]) @ zs"
      using at by simp
    moreover have "sorted (map key (ys @ [y])) \<longrightarrow> sorted (map key (ys @ [y, x]))"
      using False by (auto simp: sorted_append)
    ultimately show ?thesis
      by (intro exI [of _ "ys @ [y, x]"]) simp
  qed
qed

lemma insertion_sort_prefix:
  assumes "k \<le> length xs" "1 \<le> k"
  shows "\<exists>r. fold (sift_back key) [1..<k] xs = r @ drop k xs \<and> mset r = mset (take k xs) \<and>
    sorted (map key r)"
  using assms(2,1)
proof (induction k rule: dec_induct)
  case base
  then show ?case
    by (intro exI [of _ "take 1 xs"]) (cases xs, auto)
next
  case (step k)
  then obtain r where r: "fold (sift_back key) [1..<k] xs = r @ drop k xs" "mset r = mset (take k xs)"
    "sorted (map key r)"
    by auto
  have drop: "drop k xs = xs ! k # drop (Suc k) xs" and len: "length r = k"
    using step mset_eq_length [OF r(2)] by (simp_all add: Cons_nth_drop_Suc)
  obtain r' where "sift_back key (length r) (r @ xs ! k # drop (Suc k) xs) = r' @ drop (Suc k) xs"
    "mset r' = add_mset (xs ! k) (mset r)" "sorted (map key r')"
    using sift_back_inserts [of key r "xs ! k" "drop (Suc k) xs"] r(3) by auto
  then show ?case
    using r drop len step by (intro exI [of _ r']) (simp add: take_Suc_conv_app_nth)
qed

lemma insertion_sort_props:
  "mset (insertion_sort key xs) = mset xs" "sorted (map key (insertion_sort key xs))"
proof -
  have "mset (insertion_sort key xs) = mset xs \<and> sorted (map key (insertion_sort key xs))"
  proof (cases xs)
    case Nil
    then show ?thesis by (simp add: insertion_sort_def)
  next
    case (Cons y ys)
    then show ?thesis
      using insertion_sort_prefix [of "length xs" xs key] by (auto simp: insertion_sort_def)
  qed
  then show "mset (insertion_sort key xs) = mset xs" "sorted (map key (insertion_sort key xs))"
    by auto
qed

lemma set_insertion_sort [simp]: "set (insertion_sort key xs) = set xs"
  by (metis insertion_sort_props(1) set_mset_mset)

lemma dedup_by_key_props:
  assumes "sorted (map key xs)"
  shows "distinct (map key (dedup_by_key key xs))" "set (dedup_by_key key xs) \<subseteq> set xs"
    "key ` set (dedup_by_key key xs) = key ` set xs" "sorted (map key (dedup_by_key key xs))"
  using assms
proof (induction key xs rule: dedup_by_key.induct)
  case (1 key x y zs)
  { case 1 then show ?case using "1.IH" by (auto simp: image_iff)
  next case 2 then show ?case using "1.IH" by auto
  next case 3 then show ?case using "1.IH" by auto
  next case 4 then show ?case using "1.IH" by auto }
qed auto

lemma set_extend_missing [simp]: "set (extend_missing xs ys) = set xs \<union> set ys"
  by (induction ys arbitrary: xs) (auto simp: extend_missing_def)

definition union_endpoints :: "DataEndpoint list \<Rightarrow> DataEndpoint list \<Rightarrow> DataEndpoint list" where
  "union_endpoints xs ys = dedup_by_key (\<lambda>x. x) (insertion_sort (\<lambda>x. x) (extend_missing xs ys))"

lemma union_endpoints_props:
  "set (union_endpoints xs ys) = set xs \<union> set ys" "sorted (union_endpoints xs ys)"
  "distinct (union_endpoints xs ys)"
proof -
  let ?l = "insertion_sort (\<lambda>x. x) (extend_missing xs ys)"
  have "sorted (map (\<lambda>x. x) ?l)"
    by (rule insertion_sort_props)
  from dedup_by_key_props [OF this]
  show "set (union_endpoints xs ys) = set xs \<union> set ys" "sorted (union_endpoints xs ys)"
    "distinct (union_endpoints xs ys)"
    by (simp_all add: union_endpoints_def)
qed

lemma union_endpoints_eqI:
  "set xs \<union> set ys = set xs' \<union> set ys' \<Longrightarrow> union_endpoints xs ys = union_endpoints xs' ys'"
  by (intro sorted_distinct_set_unique union_endpoints_props) (simp add: union_endpoints_props)

lemma union_endpoints_again [simp]: "union_endpoints (union_endpoints xs ys) ys = union_endpoints xs ys"
  by (rule union_endpoints_eqI) (auto simp: union_endpoints_props)

lemma merge_endpoint_again:
  assumes "oe_id a = oe_id b"
  shows "endpoint_def_equivalent (merge_endpoint_metadata a b) b \<or>
    endpoint_def_equivalent (merge_endpoint_metadata a b)
      (merge_endpoint_metadata (merge_endpoint_metadata a b) b)"
proof -
  have "merge_endpoint_metadata a b = a \<or> merge_endpoint_metadata a b = b \<or>
      oe_name a = oe_name b \<and> \<not> is_internal_endpoint (oe_id a)"
    using winner_choice(1) [of a b] by (simp add: merge_endpoint_metadata_def) blast
  then consider "merge_endpoint_metadata a b = a" | "merge_endpoint_metadata a b = b"
    | "oe_name a = oe_name b" "\<not> is_internal_endpoint (oe_id a)"
    by blast
  then show ?thesis
  proof cases
    case 3
    then have "merge_endpoint_metadata (merge_endpoint_metadata a b) b = merge_endpoint_metadata a b"
      using assms by (simp add: merge_endpoint_metadata_def)
    then show ?thesis by simp
  qed simp_all
qed

lemma merge_type_again:
  assumes "ot_id a = ot_id b"
  shows "type_def_equivalent (merge_type_metadata a b) b \<or>
    type_def_equivalent (merge_type_metadata a b) (merge_type_metadata (merge_type_metadata a b) b)"
proof -
  have "merge_type_metadata a b = a \<or> merge_type_metadata a b = b \<or>
      ot_name a = ot_name b \<and> ot_element a = ot_element b \<and> ot_reliable a = ot_reliable b \<and>
      ot_e2e_encryption a = ot_e2e_encryption b \<and> \<not> is_internal_data_type (ot_id a)"
    using winner_choice(2) [of a b] by (simp add: merge_type_metadata_def) blast
  then consider "merge_type_metadata a b = a" | "merge_type_metadata a b = b"
    | "ot_name a = ot_name b" "ot_element a = ot_element b" "ot_reliable a = ot_reliable b"
      "ot_e2e_encryption a = ot_e2e_encryption b" "\<not> is_internal_data_type (ot_id a)"
    by blast
  then show ?thesis
  proof cases
    case 3
    then have "merge_type_metadata (merge_type_metadata a b) b = merge_type_metadata a b"
      using assms
      by (simp add: merge_type_metadata_def max.assoc flip: union_endpoints_def)
    then show ?thesis by simp
  qed simp_all
qed

lemma merge_internal_kept:
  "is_internal_endpoint (oe_id a) \<Longrightarrow> merge_endpoint_metadata a b = a"
  "is_internal_data_type (ot_id s) \<Longrightarrow> merge_type_metadata s t = s"
  by (simp_all add: merge_endpoint_metadata_def merge_type_metadata_def)

interpretation em: merge_contract em_name oe_id oe_name endpoint_meta_of endpoint_def_of
  endpoint_def_equivalent merge_endpoint_metadata is_internal_endpoint
proof unfold_locales
  show "oe_id a = oe_id b \<Longrightarrow> oe_id (merge_endpoint_metadata a b) = oe_id a" for a b
    by (simp add: merge_endpoint_metadata_def endpoint_winner_id)
  show "oe_name (merge_endpoint_metadata a b) = oe_name a \<or>
      oe_name (merge_endpoint_metadata a b) = oe_name b" for a b
    using endpoint_winner_id(2) [of a b] by (auto simp: merge_endpoint_metadata_def)
qed (simp_all add: merge_endpoint_again merge_internal_kept)

interpretation tm: merge_contract mm_name ot_id ot_name message_meta_of type_def_of
  type_def_equivalent merge_type_metadata is_internal_data_type
proof unfold_locales
  show "ot_id a = ot_id b \<Longrightarrow> ot_id (merge_type_metadata a b) = ot_id a" for a b
    by (simp add: merge_type_metadata_def type_winner_id)
  show "ot_name (merge_type_metadata a b) = ot_name a \<or>
      ot_name (merge_type_metadata a b) = ot_name b" for a b
    using type_winner_id(2) [of a b] by (auto simp: merge_type_metadata_def)
qed (simp_all add: merge_type_again merge_internal_kept)

section \<open>Merging keeps the registry well formed\<close>

lemma merge_loop_snd: "snd (merge_loop f g reg report ds) = foldl (\<lambda>reg d. snd (f reg d)) reg ds"
  by (induction ds arbitrary: reg report) (auto split: prod.split)

lemma foldl_merge_endpoints:
  "endpoints (foldl (\<lambda>reg d. snd (merge_endpoint_definition reg d)) reg ds) =
    foldl (\<lambda>es d. snd (endpoint_merge_table es d)) (endpoints reg) ds"
  "types (foldl (\<lambda>reg d. snd (merge_endpoint_definition reg d)) reg ds) = types reg"
  by (induction ds arbitrary: reg) (simp_all add: merge_endpoint_definition_table)

lemma foldl_merge_types:
  "types (foldl (\<lambda>reg d. snd (merge_type_definition reg d)) reg ds) =
    foldl (\<lambda>es d. snd (type_merge_table es d)) (types reg) ds"
  "endpoints (foldl (\<lambda>reg d. snd (merge_type_definition reg d)) reg ds) = endpoints reg"
  by (induction ds arbitrary: reg) (simp_all add: merge_type_definition_table)

lemma locked_tables:
  "endpoints (snd (merge_owned_schema_snapshot_locked reg s)) =
    foldl (\<lambda>es d. snd (endpoint_merge_table es d)) (endpoints reg)
      (sn_endpoints (dedup_schema (sort_owned_schema s)))"
  "types (snd (merge_owned_schema_snapshot_locked reg s)) =
    foldl (\<lambda>es d. snd (type_merge_table es d)) (types reg)
      (sn_types (dedup_schema (sort_owned_schema s)))"
  unfolding merge_owned_schema_snapshot_locked_def Let_def case_prod_beta merge_loop_snd
    foldl_merge_types foldl_merge_endpoints
  by (rule refl)+

lemma validate_endpoints_pairwise:
  assumes "validate_endpoints True bef ds" "y \<in> set ds" "x \<in> set bef \<union> set ds"
    "oe_id x = oe_id y \<or> oe_name x = oe_name y"
  shows "x = y"
  using assms
proof (induction ds arbitrary: bef x y)
  case Nil
  then show ?case by simp
next
  case (Cons d ds)
  have before: "other = d" if "other \<in> set bef" "oe_id other = oe_id d \<or> oe_name other = oe_name d"
    for other
    using Cons.prems(1) that by (auto simp: list_ex_iff)
  have rest: "validate_endpoints True (bef @ [d]) ds"
    using Cons.prems(1) by simp
  consider "y \<in> set ds" | "y = d" "x \<in> set ds" | "y = d" "x \<in> set bef" | "y = d" "x = d"
    using Cons.prems(2,3) by auto
  then show ?case
  proof cases
    case 1
    then show ?thesis
      using Cons.IH [OF rest 1, of x] Cons.prems(3,4) by simp
  next
    case 2
    then show ?thesis
      using Cons.IH [OF rest 2(2), of d] Cons.prems(4) by auto
  next
    case 3
    then show ?thesis
      using before Cons.prems(4) by blast
  qed simp
qed

lemma validate_types_pairwise:
  assumes "validate_types True bef ds" "y \<in> set ds" "x \<in> set bef \<union> set ds"
    "ot_id x = ot_id y \<or> ot_name x = ot_name y"
  shows "x = y"
  using assms
proof (induction ds arbitrary: bef x y)
  case Nil
  then show ?case by simp
next
  case (Cons d ds)
  have before: "other = d" if "other \<in> set bef" "ot_id other = ot_id d \<or> ot_name other = ot_name d"
    for other
    using Cons.prems(1) that by (auto simp: list_ex_iff)
  have rest: "validate_types True (bef @ [d]) ds"
    using Cons.prems(1) by simp
  consider "y \<in> set ds" | "y = d" "x \<in> set ds" | "y = d" "x \<in> set bef" | "y = d" "x = d"
    using Cons.prems(2,3) by auto
  then show ?case
  proof cases
    case 1
    then show ?thesis
      using Cons.IH [OF rest 1, of x] Cons.prems(3,4) by simp
  next
    case 2
    then show ?thesis
      using Cons.IH [OF rest 2(2), of d] Cons.prems(4) by auto
  next
    case 3
    then show ?thesis
      using before Cons.prems(4) by blast
  qed simp
qed

lemma validate_resolves:
  "validate_endpoints allow bef ds \<Longrightarrow> d \<in> set ds \<Longrightarrow> is_ok (resolve_endpoint (oe_name d) (Some (oe_id d)))"
  "validate_types allow bef' ts \<Longrightarrow> t \<in> set ts \<Longrightarrow> is_ok (resolve_type (ot_name t) (Some (ot_id t)))"
proof -
  show "is_ok (resolve_endpoint (oe_name d) (Some (oe_id d)))"
    if "validate_endpoints allow bef ds" "d \<in> set ds"
    using that by (induction ds arbitrary: bef) auto
  show "is_ok (resolve_type (ot_name t) (Some (ot_id t)))"
    if "validate_types allow bef' ts" "t \<in> set ts"
    using that by (induction ts arbitrary: bef') auto
qed

text \<open>A deduplicated snapshot: distinct ids, and a subset of what was validated.\<close>

lemma dedup_snapshot:
  "distinct (map oe_id (sn_endpoints (dedup_schema (sort_owned_schema s))))"
  "set (sn_endpoints (dedup_schema (sort_owned_schema s))) \<subseteq> set (sn_endpoints s)"
  "distinct (map ot_id (sn_types (dedup_schema (sort_owned_schema s))))"
  "set (sn_types (dedup_schema (sort_owned_schema s))) \<subseteq> set (sn_types s)"
  using dedup_by_key_props [OF insertion_sort_props(2), of oe_id "sn_endpoints s"]
    dedup_by_key_props [OF insertion_sort_props(2), of ot_id "sn_types s"]
  by (simp_all add: dedup_schema_def sort_owned_schema_def)

lemma distinct_names:
  assumes "distinct (map f ds)" "\<And>x y. x \<in> set ds \<Longrightarrow> y \<in> set ds \<Longrightarrow> g x = g y \<Longrightarrow> x = y"
  shows "distinct (map g ds)"
  using assms by (auto simp: distinct_map intro: inj_onI)

lemma conflicts_compat:
  assumes "\<not> snapshot_conflicts reg s"
  shows "d \<in> set (sn_endpoints s) \<Longrightarrow> em.compat (endpoints reg) d"
    "t \<in> set (sn_types s) \<Longrightarrow> tm.compat (types reg) t"
proof -
  have e: "\<not> endpoint_identity_conflicts (fst x) (em_name (snd x)) (oe_id d) (oe_name d)"
    if "d \<in> set (sn_endpoints s)" "x \<in> set (endpoints reg)" for x
    using assms that by (simp add: snapshot_conflicts_def list_ex_iff case_prod_unfold)
  show "em.compat (endpoints reg) d" if "d \<in> set (sn_endpoints s)"
    using e [OF that] unfolding em.compat_def endpoint_identity_conflicts_def by metis
  have t: "mm_name (snd x) = ot_name t \<longrightarrow> fst x = ot_id t"
    if "t \<in> set (sn_types s)" "x \<in> set (types reg)" for x
    using assms that unfolding snapshot_conflicts_def list_ex_iff case_prod_unfold by metis
  show "tm.compat (types reg) t" if "t \<in> set (sn_types s)"
    using t [OF that] unfolding tm.compat_def by blast
qed

lemma protocol_kept_mono:
  assumes kept: "protocol_kept reg"
    and E: "\<And>k m. is_internal_endpoint k \<Longrightarrow> map_of (endpoints reg) k = Some m \<Longrightarrow>
      map_of (endpoints reg') k = Some m"
    and T: "\<And>k m. is_internal_data_type k \<Longrightarrow> map_of (types reg) k = Some m \<Longrightarrow>
      map_of (types reg') k = Some m"
  shows "protocol_kept reg'"
proof -
  have "map_of (endpoints reg') (oe_id d) = Some (endpoint_meta_of d)" if "d \<in> set builtin_endpoints" for d
    using kept that E builtin_internal(3) [OF that] by (simp add: protocol_kept_def list_all_iff)
  moreover have "\<exists>p. map_of (types reg') (ot_id d) = Some ((message_meta_of d)\<lparr>mm_e2e_encryption := p\<rparr>)"
    if d: "d \<in> set builtin_types" for d
  proof -
    obtain p where "map_of (types reg) (ot_id d) = Some ((message_meta_of d)\<lparr>mm_e2e_encryption := p\<rparr>)"
      using kept d by (auto simp: protocol_kept_def list_all_iff)
    then show ?thesis
      using T builtin_internal(1) [OF d] by blast
  qed
  ultimately show ?thesis
    by (auto simp: protocol_kept_def list_all_iff)
qed

lemma merge_locked_ok:
  assumes ok: "registry_ok reg" and kept: "protocol_kept reg"
    and valid: "validate_schema_identities s0 True = Ok ()"
    and sub: "set (sn_endpoints s) \<subseteq> set (sn_endpoints s0)" "set (sn_types s) \<subseteq> set (sn_types s0)"
    and conf: "\<not> snapshot_conflicts reg s"
  shows "registry_ok (snd (merge_owned_schema_snapshot_locked reg s))"
    "protocol_kept (snd (merge_owned_schema_snapshot_locked reg s))"
proof -
  let ?s = "dedup_schema (sort_owned_schema s)"
  let ?reg = "snd (merge_owned_schema_snapshot_locked reg s)"
  have v: "validate_endpoints True [] (sn_endpoints s0)" "validate_types True [] (sn_types s0)"
    using valid by (auto simp: validate_schema_identities_def split: if_splits)
  have in0: "d \<in> set (sn_endpoints ?s) \<Longrightarrow> d \<in> set (sn_endpoints s0)"
    "t \<in> set (sn_types ?s) \<Longrightarrow> t \<in> set (sn_types s0)" for d t
    using dedup_snapshot(2,4) [of s] sub by auto
  have names: "distinct (map oe_name (sn_endpoints ?s))" "distinct (map ot_name (sn_types ?s))"
    using validate_endpoints_pairwise [OF v(1)] validate_types_pairwise [OF v(2)] in0
    by (intro distinct_names [OF dedup_snapshot(1)] distinct_names [OF dedup_snapshot(3)]; force)+
  have comp: "\<forall>d\<in>set (sn_endpoints ?s). em.compat (endpoints reg) d"
    "\<forall>t\<in>set (sn_types ?s). tm.compat (types reg) t"
    using dedup_snapshot(2,4) [of s] conflicts_compat [OF conf] by auto
  note e = em.merge_all_ok [OF _ dedup_snapshot(1) names(1) comp(1)]
  note t = tm.merge_all_ok [OF _ dedup_snapshot(3) names(2) comp(2)]
  have tables: "table_ok em_name (endpoints reg)" "table_ok mm_name (types reg)"
    using ok by (auto simp: registry_ok_def)
  have "is_ok (resolve_endpoint (em_name m) (Some i))" if "(i, m) \<in> set (endpoints ?reg)" for i m
  proof -
    have "(\<exists>m0. (i, m0) \<in> set (endpoints reg) \<and> em_name m0 = em_name m) \<or>
        (\<exists>d\<in>set (sn_endpoints ?s). i = oe_id d \<and> em_name m = oe_name d)"
      using e [OF tables(1)] that unfolding locked_tables by blast
    then show ?thesis
      using ok in0 validate_resolves(1) [OF v(1)] by (fastforce simp: registry_ok_def)
  qed
  moreover have "is_ok (resolve_type (mm_name m) (Some i))" if "(i, m) \<in> set (types ?reg)" for i m
  proof -
    have "(\<exists>m0. (i, m0) \<in> set (types reg) \<and> mm_name m0 = mm_name m) \<or>
        (\<exists>d\<in>set (sn_types ?s). i = ot_id d \<and> mm_name m = ot_name d)"
      using t [OF tables(2)] that unfolding locked_tables by blast
    then show ?thesis
      using ok in0 validate_resolves(2) [OF v(2)] by (fastforce simp: registry_ok_def)
  qed
  ultimately show "registry_ok ?reg"
    using e [OF tables(1)] t [OF tables(2)] by (auto simp: registry_ok_def locked_tables)
  have E: "map_of (endpoints ?reg) k = Some m"
    if "is_internal_endpoint k" "map_of (endpoints reg) k = Some m" for k m
    using e [OF tables(1)] that unfolding locked_tables by blast
  have T: "map_of (types ?reg) k = Some m"
    if "is_internal_data_type k" "map_of (types reg) k = Some m" for k m
    using t [OF tables(2)] that unfolding locked_tables by blast
  show "protocol_kept ?reg"
    using protocol_kept_mono [OF kept E T] .
qed

section \<open>Merging a snapshot twice\<close>

lemma report_changed_quiet [simp]:
  "dec \<in> {Unchanged, KeptLocal} \<Longrightarrow> report_changed (count_endpoint dec r) = report_changed r"
  "dec \<in> {Unchanged, KeptLocal} \<Longrightarrow> report_changed (count_type dec r) = report_changed r"
  by (auto simp: report_changed_def)

lemma quiet_reports:
  assumes "\<forall>d\<in>set ds. \<exists>dec. f reg d = (dec, reg) \<and> dec \<in> {Unchanged, KeptLocal}"
    and "g = count_endpoint \<or> g = count_type"
  shows "snd (merge_loop f g reg report ds) = reg \<and>
    report_changed (fst (merge_loop f g reg report ds)) = report_changed report"
  using assms(1)
proof (induction ds arbitrary: report)
  case Nil
  then show ?case by simp
next
  case (Cons d ds)
  obtain dec where dec: "f reg d = (dec, reg)" "dec \<in> {Unchanged, KeptLocal}"
    using Cons.prems by auto
  have "report_changed (g dec report) = report_changed report"
    using dec(2) assms(2) report_changed_quiet by blast
  then show ?case
    using Cons.IH [of "g dec report"] Cons.prems dec(1) by simp
qed

lemma absorbed_definitions:
  "em.absorbed (endpoints reg) d \<Longrightarrow>
    \<exists>dec. merge_endpoint_definition reg d = (dec, reg) \<and> dec \<in> {Unchanged, KeptLocal}"
  "tm.absorbed (types reg) t \<Longrightarrow>
    \<exists>dec. merge_type_definition reg t = (dec, reg) \<and> dec \<in> {Unchanged, KeptLocal}"
proof -
  assume "em.absorbed (endpoints reg) d"
  then show "\<exists>dec. merge_endpoint_definition reg d = (dec, reg) \<and> dec \<in> {Unchanged, KeptLocal}"
    by (auto simp: em.absorbed_def merge_table_def merge_endpoint_definition_def Let_def
        split: option.splits if_splits)
next
  assume "tm.absorbed (types reg) t"
  then show "\<exists>dec. merge_type_definition reg t = (dec, reg) \<and> dec \<in> {Unchanged, KeptLocal}"
    by (auto simp: tm.absorbed_def merge_table_def merge_type_definition_def Let_def
        split: option.splits if_splits)
qed

lemma merge_locked_quiet:
  assumes ok: "registry_ok reg" and valid: "validate_schema_identities s0 True = Ok ()"
    and sub: "set (sn_endpoints s) \<subseteq> set (sn_endpoints s0)" "set (sn_types s) \<subseteq> set (sn_types s0)"
    and conf: "\<not> snapshot_conflicts reg s"
  defines "reg' \<equiv> snd (merge_owned_schema_snapshot_locked reg s)"
  shows "snd (merge_owned_schema_snapshot_locked reg' s) = reg'"
    "\<not> report_changed (fst (merge_owned_schema_snapshot_locked reg' s))"
proof -
  let ?s = "dedup_schema (sort_owned_schema s)"
  have v: "validate_endpoints True [] (sn_endpoints s0)" "validate_types True [] (sn_types s0)"
    using valid by (auto simp: validate_schema_identities_def split: if_splits)
  have in0: "d \<in> set (sn_endpoints ?s) \<Longrightarrow> d \<in> set (sn_endpoints s0)"
    "t \<in> set (sn_types ?s) \<Longrightarrow> t \<in> set (sn_types s0)" for d t
    using dedup_snapshot(2,4) [of s] sub by auto
  have names: "distinct (map oe_name (sn_endpoints ?s))" "distinct (map ot_name (sn_types ?s))"
    using validate_endpoints_pairwise [OF v(1)] validate_types_pairwise [OF v(2)] in0
    by (intro distinct_names [OF dedup_snapshot(1)] distinct_names [OF dedup_snapshot(3)]; force)+
  have comp: "\<forall>d\<in>set (sn_endpoints ?s). em.compat (endpoints reg) d"
    "\<forall>t\<in>set (sn_types ?s). tm.compat (types reg) t"
    using dedup_snapshot(2,4) [of s] conflicts_compat [OF conf] by auto
  have tables: "table_ok em_name (endpoints reg)" "table_ok mm_name (types reg)"
    using ok by (auto simp: registry_ok_def)
  have abs: "\<forall>d\<in>set (sn_endpoints ?s). em.absorbed (endpoints reg') d"
    "\<forall>t\<in>set (sn_types ?s). tm.absorbed (types reg') t"
    using em.merge_all_absorbs [OF tables(1) dedup_snapshot(1) names(1) comp(1)]
      tm.merge_all_absorbs [OF tables(2) dedup_snapshot(3) names(2) comp(2)]
    by (simp_all add: reg'_def locked_tables)
  have e: "\<forall>d\<in>set (sn_endpoints ?s). \<exists>dec. merge_endpoint_definition reg' d = (dec, reg') \<and>
      dec \<in> {Unchanged, KeptLocal}"
    using abs(1) absorbed_definitions(1) by blast
  have t: "\<forall>d\<in>set (sn_types ?s). \<exists>dec. merge_type_definition reg' d = (dec, reg') \<and>
      dec \<in> {Unchanged, KeptLocal}"
    using abs(2) absorbed_definitions(2) by blast
  note quiet = quiet_reports [where f = merge_endpoint_definition and g = count_endpoint, OF e disjI1 [OF refl]]
    quiet_reports [where f = merge_type_definition and g = count_type, OF t disjI2 [OF refl]]
  show "snd (merge_owned_schema_snapshot_locked reg' s) = reg'"
    using quiet by (simp add: merge_owned_schema_snapshot_locked_def Let_def case_prod_beta)
  show "\<not> report_changed (fst (merge_owned_schema_snapshot_locked reg' s))"
    using quiet by (simp add: merge_owned_schema_snapshot_locked_def Let_def case_prod_beta)
      (simp add: empty_report_def report_changed_def)
qed

lemma budgeted_merge_ok:
  assumes "merge_owned_schema_snapshot_with_budget L probed reg s max_bytes = (Ok report, reg')"
  obtains "validate_schema_identities s True = Ok ()"
    "\<not> snapshot_conflicts reg (dedup_schema (sort_owned_schema s))"
    "merge_owned_schema_snapshot_locked reg (dedup_schema (sort_owned_schema s)) = (report, reg')"
    "schema_byte_cost L reg' \<le> max_bytes"
  using assms
  by (auto simp: merge_owned_schema_snapshot_with_budget_def Let_def split: sum.splits if_splits prod.splits)

lemma budgeted_merge_err:
  assumes "merge_owned_schema_snapshot_with_budget L probed reg s max_bytes = (Err e, reg')"
  shows "reg' = reg"
  using assms
  by (auto simp: merge_owned_schema_snapshot_with_budget_def Let_def split: sum.splits if_splits prod.splits)

lemma budgeted_merge_keeps:
  assumes "registry_ok reg" "protocol_kept reg"
  shows "registry_ok (snd (merge_owned_schema_snapshot_with_budget L probed reg s max_bytes)) \<and>
    protocol_kept (snd (merge_owned_schema_snapshot_with_budget L probed reg s max_bytes))"
proof (cases "merge_owned_schema_snapshot_with_budget L probed reg s max_bytes")
  case (Pair r reg')
  show ?thesis
  proof (cases r)
    case (Inl e)
    then show ?thesis using Pair assms budgeted_merge_err by fastforce
  next
    case (Inr report)
    then have "merge_owned_schema_snapshot_with_budget L probed reg s max_bytes = (Ok report, reg')"
      using Pair by simp
    then show ?thesis
      using merge_locked_ok [OF assms, of s "dedup_schema (sort_owned_schema s)"] dedup_snapshot(2,4) [of s]
        Pair by (elim budgeted_merge_ok) auto
  qed
qed

section \<open>Reachable registries\<close>

inductive reg_reachable :: "Registry \<Rightarrow> bool" where
  init: "Registry_new = Some reg \<Longrightarrow> reg_reachable reg"
| register_endpoint: "reg_reachable reg \<Longrightarrow> reg_reachable (snd (register_owned_endpoint reg d))"
| register_type: "reg_reachable reg \<Longrightarrow> reg_reachable (snd (register_owned_type reg t))"
| set_policy: "reg_reachable reg \<Longrightarrow> reg_reachable (snd (set_data_type_e2e_encryption_policy reg ty p))"
| remove_endpoint: "reg_reachable reg \<Longrightarrow> reg_reachable (snd (remove_endpoint reg ep))"
| remove_type: "reg_reachable reg \<Longrightarrow> reg_reachable (snd (remove_data_type reg ty))"
| merge: "reg_reachable reg \<Longrightarrow>
    reg_reachable (snd (merge_owned_schema_snapshot_with_budget L probed reg s max_bytes))"

text \<open>C5: whatever registrations, removals, policy changes and merges of snapshots from
  other nodes happened since start-up, ids and names in both tables are unique and the
  tables sorted by id, no entry usurps or renames a protocol identity, and the protocol
  endpoints and types are all present as built in, up to their encryption policy.\<close>

theorem registry_invariant:
  assumes "reg_reachable reg"
  shows "registry_ok reg \<and> protocol_kept reg"
  using assms
proof induction
  case (init reg)
  then show ?case using Registry_new_ok by (metis option.inject)
next
  case (register_endpoint reg d)
  then show ?case using register_owned_endpoint_ok by blast
next
  case (register_type reg t)
  then show ?case using register_owned_type_ok by blast
next
  case (set_policy reg ty p)
  then show ?case using set_policy_ok by blast
next
  case (remove_endpoint reg ep)
  then show ?case using remove_endpoint_ok by blast
next
  case (remove_type reg ty)
  then show ?case using remove_data_type_ok by blast
next
  case (merge reg L probed s max_bytes)
  then show ?case using budgeted_merge_keeps by blast
qed

theorem registry_invariant_witness:
  "registry_ok (snd (remove_endpoint (the Registry_new) 100)) \<and>
   protocol_kept (snd (remove_endpoint (the Registry_new) 100))"
proof (rule registry_invariant)
  obtain reg where "Registry_new = Some reg"
    using Registry_new_ok by metis
  then have "reg_reachable (the Registry_new)"
    using reg_reachable.init [of reg] by (metis option.sel)
  then show "reg_reachable (snd (remove_endpoint (the Registry_new) 100))"
    by (rule reg_reachable.remove_endpoint)
qed


definition example_layout :: Layout where
  "example_layout = \<lparr>endpoint_entry_size = 48, type_entry_size = 104\<rparr>"

definition example_endpoint :: OwnedEndpointDefinition where
  "example_endpoint = \<lparr>oe_id = 300, oe_name = ''APP'', oe_description = [], oe_link_local_only = True\<rparr>"

definition example_snapshot :: OwnedRuntimeSchemaSnapshot where
  "example_snapshot = \<lparr>sn_endpoints = [example_endpoint], sn_types = []\<rparr>"


section \<open>Convergence\<close>

text \<open>What two nodes must agree on: everything but the description.\<close>

definition endpoint_wire_eq :: "OwnedEndpointDefinition \<Rightarrow> OwnedEndpointDefinition \<Rightarrow> bool" where
  "endpoint_wire_eq a b \<longleftrightarrow>
    oe_id a = oe_id b \<and> oe_name a = oe_name b \<and> oe_link_local_only a = oe_link_local_only b"

definition type_wire_eq :: "OwnedDataTypeDefinition \<Rightarrow> OwnedDataTypeDefinition \<Rightarrow> bool" where
  "type_wire_eq a b \<longleftrightarrow>
    ot_id a = ot_id b \<and> ot_name a = ot_name b \<and> ot_element a = ot_element b \<and>
    ot_endpoints a = ot_endpoints b \<and> ot_reliable a = ot_reliable b \<and>
    ot_priority a = ot_priority b \<and> ot_e2e_encryption a = ot_e2e_encryption b"

lemma bytes_le_total: "bytes_le xs ys \<or> bytes_le ys xs"
  by (induction xs ys rule: bytes_le.induct) auto

lemma bytes_le_antisym: "bytes_le xs ys \<Longrightarrow> bytes_le ys xs \<Longrightarrow> xs = ys"
  by (induction xs ys rule: bytes_le.induct) (auto elim: bytes_le.elims)

lemma as_bytes_inject [simp]: "as_bytes a = as_bytes b \<longleftrightarrow> a = b"
proof -
  have "inj (of_char :: char \<Rightarrow> u8)"
    by (rule injI) (simp add: of_char_u8_inject)
  then show ?thesis
    by (simp add: as_bytes_def inj_map_eq_map)
qed

lemma key_le_total: "key_le a b \<or> key_le b a"
  using bytes_le_total by (cases a, cases b) (auto simp: key_le_def)

lemma key_le_antisym: "key_le a b \<Longrightarrow> key_le b a \<Longrightarrow> a = b"
  using bytes_le_antisym by (cases a, cases b) (fastforce simp: key_le_def)

lemma winner_commute:
  "(endpoint_key a = endpoint_key b \<longrightarrow> endpoint_wire_eq a b) \<Longrightarrow>
    endpoint_wire_eq (endpoint_winner a b) (endpoint_winner b a)"
  "(type_key s = type_key t \<longrightarrow> type_wire_eq s t) \<Longrightarrow>
    type_wire_eq (type_winner s t) (type_winner t s)"
  using key_le_total [of "endpoint_key a" "endpoint_key b"] key_le_total [of "type_key s" "type_key t"]
    key_le_antisym [of "endpoint_key a" "endpoint_key b"] key_le_antisym [of "type_key s" "type_key t"]
  by (auto simp: endpoint_winner_def type_winner_def endpoint_wire_eq_def type_wire_eq_def)


definition example_type :: "DataEndpoint list \<Rightarrow> u8 \<Rightarrow> OwnedDataTypeDefinition" where
  "example_type eps prio = \<lparr>ot_id = 70000, ot_name = ''GPS'', ot_description = [],
    ot_element = Static 3 Float32 CData, ot_endpoints = eps, ot_reliable = Ordered,
    ot_priority = prio, ot_e2e_encryption = PreferOff\<rparr>"


end
