(* ===== verification/Bounded_Queue.thy ===== *)
theory Bounded_Queue
  imports Prelude "HOL-Library.Multiset"
begin

text \<open>
  The byte-bounded double-ended queue behind every router queue
  (\<^verbatim>\<open>src/src/queue.rs\<close>): FIFO and priority insertion with eviction, byte and element
  limits, growth of the ring, prepared batches, and the fairness selectors.
  An item's \<^verbatim>\<open>ByteCost\<close> and priority are functions of the item, arguments of the
  operations.  The allocator and the memory-admission probe answer a request
  to grow the ring through the argument \<^verbatim>\<open>grow len target\<close>: None refuses, Some c
  is the capacity obtained.  The queue's length identifies the request, since it
  differs at every iteration of a loop, so the answers are unrestricted.
\<close>

section \<open>State\<close>

record 'a BoundedDeque =
  q :: "'a list"
  cap :: nat
  max_bytes :: nat
  cur_bytes :: nat
  max_elems :: nat
  grow_num :: nat
  grow_den :: nat
  fixed_capacity :: bool
  fair_priority_cursor :: u8
  fair_owed_priority :: u8
  fair_owed_flags :: u8

abbreviation (input) PRIORITY_TURN_PENDING :: u8 where "PRIORITY_TURN_PENDING \<equiv> 1"
abbreviation (input) PRIORITY_TURN_ACTIVE :: u8 where "PRIORITY_TURN_ACTIVE \<equiv> 2"
abbreviation (input) PRIORITY_TURN_NESTED_ADMISSION :: u8 where "PRIORITY_TURN_NESTED_ADMISSION \<equiv> 4"

type_synonym grow_env = "nat \<Rightarrow> nat \<Rightarrow> nat option"

section \<open>Construction\<close>

definition f64_is_nan :: "u64 \<Rightarrow> bool" where
  "f64_is_nan bits = (bits AND 0x7ff0000000000000 = 0x7ff0000000000000 \<and> bits AND 0xfffffffffffff \<noteq> 0)"

text \<open>The multiplier is given by its bit pattern.\<close>

definition float_to_ratio :: "u64 \<Rightarrow> nat \<times> nat" where
  "float_to_ratio bits =
    (if f64_is_nan bits then (1024 + 1, 1024)
     else
       let num =
         (if drop_bit 63 bits \<noteq> 0 \<or> bits < 0x3FF028F5C28F5C29 then 1034
          else if bits \<ge> 0x4030000000000000 then 16 * 1024
          else
            let exponent = unat (drop_bit 52 bits AND 0x7ff) - 1023;
                significand = (bits AND 0xfffffffffffff) OR 0x10000000000000 in
            unat (drop_bit (42 - exponent) significand)) in
       (num, 1024))"

text \<open>\<^verbatim>\<open>admitted_initial_capacity\<close>: halve the request until the probe admits it.\<close>

fun admitted_initial_capacity :: "(nat \<Rightarrow> bool) \<Rightarrow> nat \<Rightarrow> nat \<Rightarrow> nat" where
  "admitted_initial_capacity probe capacity item_bytes =
    (if capacity \<noteq> 0 then
       (if probe (saturating_add (capacity * item_bytes) 64) then capacity
        else admitted_initial_capacity probe (capacity div 2) item_bytes)
     else 0)"

declare admitted_initial_capacity.simps [simp del]

lemma admitted_initial_capacity_le: "admitted_initial_capacity probe capacity item_bytes \<le> capacity"
proof (induction probe capacity item_bytes rule: admitted_initial_capacity.induct)
  case (1 probe capacity item_bytes)
  then show ?case
    by (subst admitted_initial_capacity.simps) (auto intro: le_trans)
qed

text \<open>\<^verbatim>\<open>allocate_initial_ring\<close>: the allocator answers with the capacity it gives.\<close>

function allocate_initial_ring :: "(nat \<Rightarrow> bool) \<Rightarrow> (nat \<Rightarrow> nat option) \<Rightarrow> nat \<Rightarrow> nat \<Rightarrow> nat" where
  "allocate_initial_ring probe reserve capacity item_bytes =
    (let capacity = admitted_initial_capacity probe capacity item_bytes in
     if capacity = 0 then 0
     else case reserve capacity of
       Some c \<Rightarrow> c
     | None \<Rightarrow> allocate_initial_ring probe reserve (capacity div 2) item_bytes)"
  by pat_completeness auto
termination
proof (relation "measure (\<lambda>(_, _, c, _). c)", goal_cases)
  case 1
  then show ?case by simp
next
  case (2 probe reserve capacity item_bytes x)
  then show ?case
    using admitted_initial_capacity_le [of probe capacity item_bytes] by simp
qed

declare allocate_initial_ring.simps [simp del]

text \<open>\<^verbatim>\<open>new\<close>: None is a panic.  The comparison of the multiplier with one is on the bit
  pattern; NaN compares false.\<close>

definition f64_lt_one :: "u64 \<Rightarrow> bool" where
  "f64_lt_one bits = (\<not> f64_is_nan bits \<and> (drop_bit 63 bits \<noteq> 0 \<or> bits < 0x3FF0000000000000))"

definition queue_new ::
  "(nat \<Rightarrow> bool) \<Rightarrow> (nat \<Rightarrow> nat option) \<Rightarrow> nat \<Rightarrow> nat \<Rightarrow> nat \<Rightarrow> u64 \<Rightarrow> 'a BoundedDeque option" where
  "queue_new probe reserve item_size mx starting_bytes grow_mult =
    (if starting_bytes > mx \<or> mx = 0 \<or> f64_lt_one grow_mult then None
     else
       let min_cost = max item_size 1;
           max_el = max (mx div min_cost) 1;
           starting_elems = starting_bytes div min_cost;
           start_cap = min (max starting_elems 1) max_el;
           (gn, gd) = float_to_ratio grow_mult in
       Some \<lparr>q = [], cap = allocate_initial_ring probe reserve start_cap min_cost,
         max_bytes = mx, cur_bytes = 0, max_elems = max_el, grow_num = gn, grow_den = gd,
         fixed_capacity = (grow_mult = 0x3FF0000000000000), fair_priority_cursor = 255,
         fair_owed_priority = 0, fair_owed_flags = 0\<rparr>)"

section \<open>Removal\<close>

definition pop_front :: "('a \<Rightarrow> nat) \<Rightarrow> 'a BoundedDeque \<Rightarrow> 'a option \<times> 'a BoundedDeque" where
  "pop_front cost d =
    (case q d of
      [] \<Rightarrow> (None, d)
    | v # vs \<Rightarrow> (Some v, d\<lparr>q := vs, cur_bytes := saturating_sub (cur_bytes d) (cost v)\<rparr>))"

definition pop_back :: "('a \<Rightarrow> nat) \<Rightarrow> 'a BoundedDeque \<Rightarrow> 'a option \<times> 'a BoundedDeque" where
  "pop_back cost d =
    (if q d = [] then (None, d)
     else (Some (last (q d)),
       d\<lparr>q := butlast (q d), cur_bytes := saturating_sub (cur_bytes d) (cost (last (q d)))\<rparr>))"

definition remove_pos :: "('a \<Rightarrow> nat) \<Rightarrow> nat \<Rightarrow> 'a BoundedDeque \<Rightarrow> 'a option \<times> 'a BoundedDeque" where
  "remove_pos cost idx d =
    (if idx < length (q d) then
       (Some (q d ! idx),
        d\<lparr>q := take idx (q d) @ drop (Suc idx) (q d),
          cur_bytes := saturating_sub (cur_bytes d) (cost (q d ! idx))\<rparr>)
     else (None, d))"

definition queue_clear :: "'a BoundedDeque \<Rightarrow> 'a BoundedDeque" where
  "queue_clear d =
    d\<lparr>q := [], cur_bytes := 0, fair_priority_cursor := 255,
      fair_owed_flags := fair_owed_flags d AND PRIORITY_TURN_ACTIVE\<rparr>"

definition remove_value :: "('a \<Rightarrow> nat) \<Rightarrow> 'a \<Rightarrow> 'a BoundedDeque \<Rightarrow> 'a BoundedDeque" where
  "remove_value cost needle d =
    (case List.extract (\<lambda>x. x = needle) (q d) of
      None \<Rightarrow> d
    | Some (before, _, _) \<Rightarrow> snd (remove_pos cost (length before) d))"

text \<open>\<^verbatim>\<open>retain_observed\<close>: the index loop; the observer's calls are the returned list.\<close>

function retain_loop ::
  "('a \<Rightarrow> nat) \<Rightarrow> ('a \<Rightarrow> bool) \<Rightarrow> nat \<Rightarrow> 'a BoundedDeque \<Rightarrow> 'a list \<Rightarrow> 'a list \<times> 'a BoundedDeque" where
  "retain_loop cost keep idx d evicted =
    (if idx < length (q d) then
       (if keep (q d ! idx) then retain_loop cost keep (idx + 1) d evicted
        else case remove_pos cost idx d of
          (Some old, d') \<Rightarrow> retain_loop cost keep idx d' (evicted @ [old])
        | (None, d') \<Rightarrow> (evicted, d'))
     else (evicted, d))"
  by pat_completeness auto
termination
  by (relation "measure (\<lambda>(_, _, idx, d, _). length (q d) - idx)")
    (auto simp: remove_pos_def split: if_splits)

declare retain_loop.simps [simp del]

definition retain_observed ::
  "('a \<Rightarrow> nat) \<Rightarrow> ('a \<Rightarrow> bool) \<Rightarrow> 'a BoundedDeque \<Rightarrow> 'a list \<times> 'a BoundedDeque" where
  "retain_observed cost keep d = retain_loop cost keep 0 d []"

section \<open>Growth\<close>

definition ensure_room_for_one ::
  "('a \<Rightarrow> nat) \<Rightarrow> grow_env \<Rightarrow> 'a BoundedDeque \<Rightarrow> bool \<times> 'a BoundedDeque" where
  "ensure_room_for_one cost grow d =
    (if length (q d) < cap d then (True, d)
     else if fixed_capacity d then (True, snd (pop_front cost d))
     else if length (q d) \<ge> max_elems d then (True, snd (pop_front cost d))
     else if cap d \<ge> max_elems d then (True, snd (pop_front cost d))
     else
       let scaled = saturating_add (saturating_mul (cap d) (grow_num d)) (grow_den d - 1);
           target_cap = min (max (scaled div grow_den d) (cap d + 1)) (max_elems d);
           add = saturating_sub target_cap (cap d) in
       if add > 0 then
         (case grow (length (q d)) target_cap of
           None \<Rightarrow> (False, d)
         | Some c \<Rightarrow> (True, d\<lparr>cap := c\<rparr>))
       else (True, snd (pop_front cost d)))"

section \<open>FIFO insertion\<close>

abbreviation queue_unavailable :: "'b result" where
  "queue_unavailable \<equiv> Err (Io ''queue unavailable'')"
abbreviation item_too_large :: "'b result" where
  "item_too_large \<equiv> Err (PacketTooLarge ''Item exceeds maximum byte budget'')"
abbreviation queue_saturated :: "'b result" where
  "queue_saturated \<equiv> Err (Io ''priority queue saturated'')"

text \<open>\<^verbatim>\<open>while !is_empty && cur_bytes + cost > max_bytes { pop_front }\<close>; the sum is not
  checked, so it wraps in a release build.\<close>

function evict_front :: "('a \<Rightarrow> nat) \<Rightarrow> nat \<Rightarrow> 'a BoundedDeque \<Rightarrow> 'a BoundedDeque" where
  "evict_front cost c d =
    (if q d \<noteq> [] \<and> wrapping_add (cur_bytes d) c > max_bytes d
     then evict_front cost c (snd (pop_front cost d)) else d)"
  by pat_completeness auto
termination
  by (relation "measure (\<lambda>(_, _, d). length (q d))") (auto simp: pop_front_def split: list.splits)

declare evict_front.simps [simp del]

definition prepare_push_fifo ::
  "('a \<Rightarrow> nat) \<Rightarrow> grow_env \<Rightarrow> nat \<Rightarrow> 'a BoundedDeque \<Rightarrow> unit result \<times> 'a BoundedDeque" where
  "prepare_push_fifo cost grow c d =
    (if cap d = 0 then (queue_unavailable, d)
     else if c > max_bytes d then (item_too_large, d)
     else
       let d = evict_front cost c d;
           d = (if length (q d) \<ge> max_elems d then snd (pop_front cost d) else d);
           (room, d) = ensure_room_for_one cost grow d;
           d = (if \<not> room then snd (pop_front cost d) else d) in
       (Ok (), d))"

definition push_back :: "('a \<Rightarrow> nat) \<Rightarrow> grow_env \<Rightarrow> 'a \<Rightarrow> 'a BoundedDeque \<Rightarrow> unit result \<times> 'a BoundedDeque" where
  "push_back cost grow v d =
    (case prepare_push_fifo cost grow (cost v) d of
      (Inl e, d) \<Rightarrow> (Err e, d)
    | (Inr _, d) \<Rightarrow>
        (Ok (), d\<lparr>q := q d @ [v], cur_bytes := saturating_add (cur_bytes d) (cost v)\<rparr>))"

section \<open>Priority insertion\<close>

text \<open>\<^verbatim>\<open>VecDeque::partition_point\<close> on a queue partitioned by the predicate.\<close>

definition partition_point :: "('a \<Rightarrow> bool) \<Rightarrow> 'a list \<Rightarrow> nat" where
  "partition_point P xs = length (takeWhile P xs)"

definition insert_prioritized_prepared ::
  "'a \<Rightarrow> nat \<Rightarrow> u8 \<Rightarrow> ('a \<Rightarrow> u8) \<Rightarrow> 'a BoundedDeque \<Rightarrow> 'a BoundedDeque" where
  "insert_prioritized_prepared v c new_priority priority_of d =
    (let q' =
      (if q d = [] \<or> priority_of (last (q d)) \<ge> new_priority then q d @ [v]
       else if priority_of (hd (q d)) < new_priority then v # q d
       else
         let index = partition_point (\<lambda>existing. priority_of existing \<ge> new_priority) (q d) in
         take index (q d) @ v # drop index (q d)) in
     d\<lparr>q := q', cur_bytes := saturating_add (cur_bytes d) c\<rparr>)"

definition at_limit :: "nat \<Rightarrow> 'a BoundedDeque \<Rightarrow> bool" where
  "at_limit c d =
    (saturating_add (cur_bytes d) c > max_bytes d \<or> length (q d) \<ge> max_elems d \<or>
     (fixed_capacity d \<and> length (q d) \<ge> cap d))"

text \<open>The admission loop: it ends with room, with a refusal, or with an empty queue that
  cannot be used; the evicted entries are returned in the order of their removal.\<close>

function make_room_loop ::
  "('a \<Rightarrow> nat) \<Rightarrow> grow_env \<Rightarrow> ('a \<Rightarrow> u8) \<Rightarrow> nat \<Rightarrow> u8 \<Rightarrow> 'a BoundedDeque \<Rightarrow> 'a list \<Rightarrow>
    unit result \<times> 'a list \<times> 'a BoundedDeque" where
  "make_room_loop cost grow priority_of c new_priority d evicted =
    (let (room, d) = (if at_limit c d then (False, d) else ensure_room_for_one cost grow d) in
     if room then (Ok (), evicted, d)
     else
       let tail_priority = (if q d = [] then 0 else priority_of (last (q d))) in
       if tail_priority > new_priority \<or> (new_priority = 254 \<and> tail_priority = new_priority)
       then (queue_saturated, evicted, d)
       else if q d = [] then (queue_unavailable, evicted, d)
       else make_room_loop cost grow priority_of c new_priority (snd (pop_back cost d))
              (evicted @ [last (q d)]))"
  by pat_completeness auto
termination
  by (relation "measure (\<lambda>(_, _, _, _, _, d, _). length (q d))")
    (auto simp: pop_back_def pop_front_def ensure_room_for_one_def Let_def
      split: if_splits option.splits list.splits)

declare make_room_loop.simps [simp del]

definition push_back_prioritized_observed ::
  "('a \<Rightarrow> nat) \<Rightarrow> grow_env \<Rightarrow> ('a \<Rightarrow> u8) \<Rightarrow> 'a \<Rightarrow> 'a BoundedDeque \<Rightarrow>
    unit result \<times> 'a list \<times> 'a BoundedDeque" where
  "push_back_prioritized_observed cost grow priority_of v d =
    (if cap d = 0 then (queue_unavailable, [], d)
     else if cost v > max_bytes d then (item_too_large, [], d)
     else
       case make_room_loop cost grow priority_of (cost v) (priority_of v) d [] of
         (Inl e, evicted, d) \<Rightarrow> (Err e, evicted, d)
       | (Inr _, evicted, d) \<Rightarrow>
           (Ok (), evicted, insert_prioritized_prepared v (cost v) (priority_of v) priority_of d))"

text \<open>\<^verbatim>\<open>push_back_prioritized_select\<close>: a selector names the entry to evict.\<close>

function select_room_loop ::
  "('a \<Rightarrow> nat) \<Rightarrow> grow_env \<Rightarrow> ('a \<Rightarrow> u8) \<Rightarrow> ('a BoundedDeque \<Rightarrow> 'a \<Rightarrow> nat option) \<Rightarrow> 'a \<Rightarrow>
    nat \<Rightarrow> u8 \<Rightarrow> 'a BoundedDeque \<Rightarrow> 'a list \<Rightarrow> unit result \<times> 'a list \<times> 'a BoundedDeque" where
  "select_room_loop cost grow priority_of victim v c new_priority d evicted =
    (let (room, d) = (if at_limit c d then (False, d) else ensure_room_for_one cost grow d) in
     if room then (Ok (), evicted, d)
     else case victim d v of
       None \<Rightarrow> (queue_saturated, evicted, d)
     | Some index \<Rightarrow>
         if index < length (q d) then
           let old_priority = priority_of (q d ! index) in
           if old_priority > new_priority \<or> (new_priority = 254 \<and> old_priority = new_priority)
           then (queue_saturated, evicted, d)
           else select_room_loop cost grow priority_of victim v c new_priority
                  (snd (remove_pos cost index d)) (evicted @ [q d ! index])
         else (queue_saturated, evicted, d))"
  by pat_completeness auto
termination
  by (relation "measure (\<lambda>(_, _, _, _, _, _, _, d, _). length (q d))")
    (auto simp: remove_pos_def pop_front_def ensure_room_for_one_def Let_def
      split: if_splits option.splits list.splits)

declare select_room_loop.simps [simp del]

definition push_back_prioritized_select ::
  "('a \<Rightarrow> nat) \<Rightarrow> grow_env \<Rightarrow> ('a \<Rightarrow> u8) \<Rightarrow> ('a BoundedDeque \<Rightarrow> 'a \<Rightarrow> nat option) \<Rightarrow> 'a \<Rightarrow>
    'a BoundedDeque \<Rightarrow> unit result \<times> 'a list \<times> 'a BoundedDeque" where
  "push_back_prioritized_select cost grow priority_of victim v d =
    (if cap d = 0 then (queue_unavailable, [], d)
     else if cost v > max_bytes d then (item_too_large, [], d)
     else
       case select_room_loop cost grow priority_of victim v (cost v) (priority_of v) d [] of
         (Inl e, evicted, d) \<Rightarrow> (Err e, evicted, d)
       | (Inr _, evicted, d) \<Rightarrow>
           (Ok (), evicted, insert_prioritized_prepared v (cost v) (priority_of v) priority_of d))"

section \<open>Prepared batches and in-place updates\<close>

text \<open>\<^verbatim>\<open>try_fold\<close> with \<^verbatim>\<open>checked_add\<close>.\<close>

fun try_sum :: "nat \<Rightarrow> nat list \<Rightarrow> nat option" where
  "try_sum n [] = Some n"
| "try_sum n (c # cs) = (case checked_add n c of None \<Rightarrow> None | Some m \<Rightarrow> try_sum m cs)"

definition fits_prepared_batch :: "nat list \<Rightarrow> 'a BoundedDeque \<Rightarrow> bool" where
  "fits_prepared_batch costs d =
    (case checked_add (length (q d)) (length costs) of
      None \<Rightarrow> False
    | Some len \<Rightarrow>
        (case try_sum (cur_bytes d) costs of
          None \<Rightarrow> False
        | Some bytes \<Rightarrow> len \<le> max_elems d \<and> len \<le> cap d \<and> bytes \<le> max_bytes d))"

text \<open>None is a failed assertion.\<close>

definition push_prepared_batch_item ::
  "'a \<Rightarrow> nat \<Rightarrow> u8 \<Rightarrow> ('a \<Rightarrow> u8) \<Rightarrow> 'a BoundedDeque \<Rightarrow> 'a BoundedDeque option" where
  "push_prepared_batch_item v c priority priority_of d =
    (if fits_prepared_batch [c] d then Some (insert_prioritized_prepared v c priority priority_of d)
     else None)"

definition fits_replacement_group :: "('a \<Rightarrow> nat) \<Rightarrow> nat \<Rightarrow> nat list \<Rightarrow> 'a BoundedDeque \<Rightarrow> bool" where
  "fits_replacement_group cost index costs d =
    (if index \<ge> length (q d) then False
     else case checked_sub (length costs) 1 of
       None \<Rightarrow> False
     | Some extra \<Rightarrow>
         (case checked_add (length (q d)) extra of
           None \<Rightarrow> False
         | Some len \<Rightarrow>
             (case checked_sub (cur_bytes d) (cost (q d ! index)) of
               None \<Rightarrow> False
             | Some used \<Rightarrow>
                 (case try_sum used costs of
                   None \<Rightarrow> False
                 | Some bytes \<Rightarrow> len \<le> max_elems d \<and> len \<le> cap d \<and> bytes \<le> max_bytes d))))"

definition replace_prepared_item ::
  "('a \<Rightarrow> nat) \<Rightarrow> nat \<Rightarrow> 'a \<Rightarrow> nat \<Rightarrow> 'a BoundedDeque \<Rightarrow> 'a BoundedDeque option" where
  "replace_prepared_item cost index item c d =
    (if index < length (q d) then
       (case checked_sub (cur_bytes d) (cost (q d ! index)) of
         None \<Rightarrow> None
       | Some used \<Rightarrow>
           (case checked_add used c of
             None \<Rightarrow> None
           | Some bytes \<Rightarrow> Some (d\<lparr>cur_bytes := bytes, q := (q d)[index := item]\<rparr>)))
     else None)"

definition replace_prepared_group ::
  "('a \<Rightarrow> nat) \<Rightarrow> nat \<Rightarrow> ('a \<times> nat) list \<Rightarrow> ('a \<Rightarrow> u8) \<Rightarrow> 'a BoundedDeque \<Rightarrow> 'a BoundedDeque option" where
  "replace_prepared_group cost index vals priority_of d =
    (case vals of
      [] \<Rightarrow> None
    | (first, c) # rest \<Rightarrow>
        map_option
          (fold (\<lambda>(item, c). insert_prioritized_prepared item c (priority_of item) priority_of) rest)
          (replace_prepared_item cost index first c d))"

definition update_admitted ::
  "('a \<Rightarrow> nat) \<Rightarrow> nat \<Rightarrow> nat \<Rightarrow> ('a \<Rightarrow> 'a) \<Rightarrow> 'a BoundedDeque \<Rightarrow> unit result \<times> 'a BoundedDeque" where
  "update_admitted cost index new_cost update d =
    (if index < length (q d) then
       let used = saturating_add (saturating_sub (cur_bytes d) (cost (q d ! index))) new_cost in
       if used > max_bytes d then (Err (Io ''queue full''), d)
       else (Ok (), d\<lparr>q := (q d)[index := update (q d ! index)], cur_bytes := used\<rparr>)
     else (Err BadArg, d))"

definition update_metadata :: "nat \<Rightarrow> ('a \<Rightarrow> 'a) \<Rightarrow> 'a BoundedDeque \<Rightarrow> 'a BoundedDeque" where
  "update_metadata index update d =
    (if index < length (q d) then d\<lparr>q := (q d)[index := update (q d ! index)]\<rparr> else d)"

definition lowest_priority :: "('a \<Rightarrow> u8) \<Rightarrow> 'a BoundedDeque \<Rightarrow> u8 option" where
  "lowest_priority priority_of d = (if q d = [] then None else Some (priority_of (last (q d))))"

section \<open>Fair selection\<close>

definition sat_inc :: "u8 \<Rightarrow> u8" where
  "sat_inc b = (if b = 255 then 255 else b + 1)"

fun position :: "('a \<Rightarrow> bool) \<Rightarrow> 'a list \<Rightarrow> nat option" where
  "position P [] = None"
| "position P (x # xs) = (if P x then Some 0 else map_option Suc (position P xs))"

text \<open>The result carries the updated burst counter.\<close>

definition pop_front_bulk_fair ::
  "('a \<Rightarrow> nat) \<Rightarrow> u8 \<Rightarrow> ('a \<Rightarrow> u8) \<Rightarrow> u8 \<Rightarrow> 'a BoundedDeque \<Rightarrow> 'a option \<times> u8 \<times> 'a BoundedDeque" where
  "pop_front_bulk_fair cost max_priority_burst priority_of burst d =
    (case q d of
      [] \<Rightarrow> (None, 0, d)
    | x # _ \<Rightarrow>
        let front = priority_of x; lowest = priority_of (last (q d)) in
        if front \<ge> 200 \<or> front = lowest then
          (case pop_front cost d of (r, d') \<Rightarrow> (r, 0, d'))
        else if burst < max_priority_burst then
          (case pop_front cost d of (r, d') \<Rightarrow> (r, burst + 1, d'))
        else
          let index = length (takeWhile (\<lambda>item. priority_of item \<noteq> lowest) (q d)) in
          (case remove_pos cost index d of (r, d') \<Rightarrow> (r, 0, d')))"

text \<open>The loop of \<^verbatim>\<open>select_front_fair_with_context\<close> over the entries after the first
  ready one; its state is \<^verbatim>\<open>(lower, lower_priority, best_distance)\<close>.\<close>

definition lower_step ::
  "('a \<Rightarrow> u8) \<Rightarrow> ('a \<Rightarrow> bool) \<Rightarrow> u8 \<Rightarrow> nat \<Rightarrow> u8 \<Rightarrow> nat \<times> 'a \<Rightarrow> nat \<times> u8 \<times> u8 \<Rightarrow> nat \<times> u8 \<times> u8" where
  "lower_step priority_of eligible cursor front front_priority ix st =
    (case ix of (index, item) \<Rightarrow> case st of (lower, lower_priority, best_distance) \<Rightarrow>
      if \<not> eligible item then st
      else
        let priority = priority_of item in
        if priority \<ge> front_priority then st
        else
          let distance = cursor - priority - 1 in
          if lower = front \<or> distance < best_distance then (index, priority, distance) else st)"

definition select_front_fair_with_context ::
  "u8 \<Rightarrow> ('a \<Rightarrow> u8) \<Rightarrow> ('a list \<Rightarrow> 'a \<Rightarrow> bool) \<Rightarrow> u8 \<Rightarrow> 'a BoundedDeque \<Rightarrow>
    nat option \<times> u8 \<times> 'a BoundedDeque" where
  "select_front_fair_with_context max_priority_burst priority_of eligible burst d =
    (case position (eligible (q d)) (q d) of
      None \<Rightarrow> (None, burst, d)
    | Some front \<Rightarrow>
        let front_priority = priority_of (q d ! front);
            (lower, lower_priority, _) =
              fold (lower_step priority_of (eligible (q d)) (fair_priority_cursor d) front front_priority)
                (drop (front + 1) (enumerate 0 (q d))) (front, front_priority, 255) in
        if lower \<noteq> front \<and> burst \<ge> max_priority_burst then
          (Some lower, 0, d\<lparr>fair_priority_cursor := lower_priority\<rparr>)
        else if lower \<noteq> front then (Some front, sat_inc burst, d)
        else (Some front, 0, d))"

text \<open>\<^verbatim>\<open>select_front_fair_deferred\<close>: the part after the owed band's own turn.\<close>

definition select_deferred_fallback ::
  "u8 \<Rightarrow> ('a \<Rightarrow> u8) \<Rightarrow> ('a list \<Rightarrow> 'a \<Rightarrow> bool) \<Rightarrow> u8 \<Rightarrow> 'a BoundedDeque \<Rightarrow>
    (nat \<times> bool) option \<times> u8 \<times> 'a BoundedDeque" where
  "select_deferred_fallback max_priority_burst priority_of eligible burst d =
    (case select_front_fair_with_context max_priority_burst priority_of eligible burst d of
      (None, b, d') \<Rightarrow> (None, b, d')
    | (Some index, b, d') \<Rightarrow>
        let priority = priority_of (q d' ! index);
            b' = (if fair_owed_flags d' AND PRIORITY_TURN_PENDING \<noteq> 0
                  then min (max burst b) max_priority_burst else b) in
        if fair_owed_flags d' = 0 \<and> list_ex (\<lambda>item. priority_of item > priority) (q d') then
          (Some (index, True), burst,
           d'\<lparr>fair_owed_priority := priority,
              fair_owed_flags := PRIORITY_TURN_PENDING OR PRIORITY_TURN_ACTIVE,
              fair_priority_cursor := fair_priority_cursor d\<rparr>)
        else (Some (index, False), b', d'))"

definition select_front_fair_deferred ::
  "u8 \<Rightarrow> ('a \<Rightarrow> u8) \<Rightarrow> ('a list \<Rightarrow> 'a \<Rightarrow> bool) \<Rightarrow> u8 \<Rightarrow> 'a BoundedDeque \<Rightarrow>
    (nat \<times> bool) option \<times> u8 \<times> 'a BoundedDeque" where
  "select_front_fair_deferred max_priority_burst priority_of eligible burst d =
    (let owed = (\<lambda>item. priority_of item = fair_owed_priority d);
         urgent = position (\<lambda>item. priority_of item = 255 \<and> eligible (q d) item) (q d);
         fallback = select_deferred_fallback max_priority_burst priority_of eligible burst in
     if fair_owed_flags d AND PRIORITY_TURN_PENDING \<noteq> 0 \<and>
        fair_owed_flags d AND PRIORITY_TURN_ACTIVE = 0 then
       (if burst < max_priority_burst \<and> urgent \<noteq> None then (Some (the urgent, False), sat_inc burst, d)
        else case position (\<lambda>item. owed item \<and> eligible (q d) item) (q d) of
          Some index \<Rightarrow>
            (Some (index, True), burst,
             d\<lparr>fair_owed_flags := fair_owed_flags d OR PRIORITY_TURN_ACTIVE\<rparr>)
        | None \<Rightarrow>
            fallback (if list_ex owed (q d) then d else d\<lparr>fair_owed_flags := 0\<rparr>))
     else fallback d)"

definition cancel_deferred_turn :: "'a BoundedDeque \<Rightarrow> 'a BoundedDeque" where
  "cancel_deferred_turn d = d\<lparr>fair_owed_flags := fair_owed_flags d AND PRIORITY_TURN_ACTIVE\<rparr>"

definition finish_deferred_turn ::
  "u8 \<Rightarrow> bool \<Rightarrow> bool \<Rightarrow> bool \<Rightarrow> u8 \<Rightarrow> 'a BoundedDeque \<Rightarrow> u8 \<times> 'a BoundedDeque" where
  "finish_deferred_turn priority owns admitted retained burst d0 =
    (let d = (if \<not> owns \<and> admitted \<and> fair_owed_flags d0 AND PRIORITY_TURN_ACTIVE \<noteq> 0
              then d0\<lparr>fair_owed_flags := fair_owed_flags d0 OR PRIORITY_TURN_NESTED_ADMISSION\<rparr> else d0) in
     if \<not> owns \<or> fair_owed_flags d AND PRIORITY_TURN_ACTIVE = 0 \<or> fair_owed_priority d \<noteq> priority
     then (burst, d)
     else if admitted \<or> \<not> retained then
       (if fair_owed_flags d AND PRIORITY_TURN_PENDING \<noteq> 0
        then (0, d\<lparr>fair_priority_cursor := priority, fair_owed_flags := 0\<rparr>)
        else (burst, d\<lparr>fair_owed_flags := 0\<rparr>))
     else
       (if fair_owed_flags d AND PRIORITY_TURN_NESTED_ADMISSION = 0 then 0 else burst,
        d\<lparr>fair_owed_flags := fair_owed_flags d AND
          NOT (PRIORITY_TURN_ACTIVE OR PRIORITY_TURN_NESTED_ADMISSION)\<rparr>))"

section \<open>The invariant\<close>

definition queue_ok :: "('a \<Rightarrow> nat) \<Rightarrow> 'a BoundedDeque \<Rightarrow> bool" where
  "queue_ok cost d \<longleftrightarrow>
    cur_bytes d = sum_list (map cost (q d)) \<and> cur_bytes d \<le> max_bytes d \<and>
    length (q d) \<le> max_elems d \<and> length (q d) \<le> cap d \<and>
    0 < max_elems d \<and> 0 < grow_den d \<and> max_bytes d < 2 ^ 63"

text \<open>The allocator gives at least the capacity it was asked for, as
  \<^verbatim>\<open>VecDeque::try_reserve_exact\<close> documents.\<close>

definition grow_ok :: "grow_env \<Rightarrow> bool" where
  "grow_ok grow \<longleftrightarrow> (\<forall>len target c. grow len target = Some c \<longrightarrow> target \<le> c)"

definition limits :: "'a BoundedDeque \<Rightarrow> nat \<times> nat \<times> nat \<times> nat \<times> bool" where
  "limits d = (max_bytes d, max_elems d, grow_num d, grow_den d, fixed_capacity d)"

definition has_room :: "nat \<Rightarrow> 'a BoundedDeque \<Rightarrow> bool" where
  "has_room c d \<longleftrightarrow> cur_bytes d + c \<le> max_bytes d \<and> length (q d) < max_elems d \<and> length (q d) < cap d"

definition descending :: "('a \<Rightarrow> u8) \<Rightarrow> 'a list \<Rightarrow> bool" where
  "descending priority_of = sorted_wrt (\<lambda>x y. priority_of y \<le> priority_of x)"

lemma limits_simps [simp]:
  "limits (d\<lparr>q := xs\<rparr>) = limits d" "limits (d\<lparr>cur_bytes := n\<rparr>) = limits d" "limits (d\<lparr>cap := n\<rparr>) = limits d"
  by (simp_all add: limits_def)

lemma limits_eqD:
  assumes "limits d = limits d'"
  shows "max_bytes d = max_bytes d'" "max_elems d = max_elems d'" "fixed_capacity d = fixed_capacity d'"
    "grow_den d = grow_den d'" "grow_num d = grow_num d'"
  using assms by (simp_all add: limits_def)

lemma queue_ok_shrink:
  assumes "queue_ok cost d" "sum_list (map cost xs) \<le> sum_list (map cost (q d))" "length xs \<le> length (q d)"
    and "n = sum_list (map cost xs)"
  shows "queue_ok cost (d\<lparr>q := xs, cur_bytes := n\<rparr>)"
  using assms by (simp add: queue_ok_def)

lemma queue_ok_insert:
  assumes "queue_ok cost d" "has_room (cost v) d"
    and "sum_list (map cost xs) = sum_list (map cost (q d)) + cost v" "length xs = Suc (length (q d))"
  shows "queue_ok cost (d\<lparr>q := xs, cur_bytes := saturating_add (cur_bytes d) (cost v)\<rparr>)"
  using assms by (simp add: queue_ok_def has_room_def USIZE_MAX_def)

lemma pop_front_Nil [simp]: "q d = [] \<Longrightarrow> pop_front cost d = (None, d)"
  by (simp add: pop_front_def)

lemma pop_front_Cons:
  assumes "queue_ok cost d" "q d = v # vs"
  shows "pop_front cost d = (Some v, d\<lparr>q := vs, cur_bytes := sum_list (map cost vs)\<rparr>)"
  using assms by (simp add: pop_front_def queue_ok_def)

lemma pop_front_ok:
  assumes "queue_ok cost d"
  shows "queue_ok cost (snd (pop_front cost d))" "q (snd (pop_front cost d)) = tl (q d)"
    "limits (snd (pop_front cost d)) = limits d" "cap (snd (pop_front cost d)) = cap d"
proof (cases "q d", goal_cases)
  case (2 v vs)
  then show ?case by (simp add: pop_front_Cons [OF assms] queue_ok_shrink [OF assms])
qed (use assms in \<open>simp_all add: pop_front_def split: list.splits\<close>)

lemma pop_back_snoc:
  assumes "queue_ok cost d" "q d = vs @ [v]"
  shows "pop_back cost d = (Some v, d\<lparr>q := vs, cur_bytes := sum_list (map cost vs)\<rparr>)"
  using assms by (simp add: pop_back_def queue_ok_def)

lemma pop_back_ok:
  assumes "queue_ok cost d"
  shows "queue_ok cost (snd (pop_back cost d)) \<and> q (snd (pop_back cost d)) = butlast (q d) \<and>
    limits (snd (pop_back cost d)) = limits d \<and> cap (snd (pop_back cost d)) = cap d"
proof (cases "q d" rule: rev_exhaust)
  case Nil
  then show ?thesis using assms by (simp add: pop_back_def)
next
  case (snoc vs v)
  then show ?thesis by (simp add: pop_back_snoc [OF assms] queue_ok_shrink [OF assms])
qed

lemma remove_pos_ok:
  assumes "queue_ok cost d"
  shows "queue_ok cost (snd (remove_pos cost i d)) \<and>
    q (snd (remove_pos cost i d)) = take i (q d) @ drop (Suc i) (q d) \<and>
    limits (snd (remove_pos cost i d)) = limits d \<and> cap (snd (remove_pos cost i d)) = cap d"
proof (cases "i < length (q d)")
  case True
  moreover have "cur_bytes d - cost (q d ! i) = sum_list (map cost (take i (q d) @ drop (Suc i) (q d)))"
    using sum_list_delete_at [OF True, of cost] assms by (simp add: queue_ok_def)
  moreover have "sum_list (map cost (take i (q d) @ drop (Suc i) (q d))) \<le> sum_list (map cost (q d))"
    using sum_list_delete_at [OF True, of cost] by simp
  ultimately show ?thesis
    by (simp add: remove_pos_def queue_ok_shrink [OF assms] del: map_append)
next
  case False
  then show ?thesis using assms by (simp add: remove_pos_def)
qed

lemma queue_clear_ok:
  "queue_ok cost d \<Longrightarrow> queue_ok cost (queue_clear d) \<and> q (queue_clear d) = [] \<and> limits (queue_clear d) = limits d"
  by (simp add: queue_clear_def queue_ok_def limits_def)

lemma retain_loop_ok:
  assumes "queue_ok cost d"
  shows "case retain_loop cost keep i d ev of (ev', d') \<Rightarrow>
    queue_ok cost d' \<and> limits d' = limits d \<and> cap d' = cap d \<and>
    q d' = take i (q d) @ filter keep (drop i (q d)) \<and> ev' = ev @ filter (\<lambda>x. \<not> keep x) (drop i (q d))"
  using assms
proof (induction cost keep i d ev rule: retain_loop.induct)
  case (1 cost keep i d ev)
  show ?case
  proof (cases "i < length (q d)")
    case False
    then show ?thesis using 1(3) by (simp add: retain_loop.simps)
  next
    case inside: True
    note dropi = Cons_nth_drop_Suc [OF inside, symmetric]
    show ?thesis
    proof (cases "keep (q d ! i)")
      case True
      then show ?thesis
        using 1(1) [OF inside True 1(3)] inside
        by (simp add: retain_loop.simps [of cost keep i] dropi take_Suc_conv_app_nth split: prod.splits)
    next
      case False
      define d' where "d' = snd (remove_pos cost i d)"
      have rem: "remove_pos cost i d = (Some (q d ! i), d')"
        using inside by (simp add: remove_pos_def d'_def)
      have d': "queue_ok cost d'" "q d' = take i (q d) @ drop (Suc i) (q d)" "limits d' = limits d" "cap d' = cap d"
        using remove_pos_ok [OF 1(3), of i] by (simp_all add: d'_def)
      show ?thesis
        using 1(2) [OF inside False rem [symmetric] refl d'(1)] inside False
        by (simp add: retain_loop.simps [of cost keep i] rem d' dropi min_absorb2 split: prod.splits)
    qed
  qed
qed

lemma retain_observed_ok:
  assumes "queue_ok cost d" "retain_observed cost keep d = (ev, d')"
  shows "queue_ok cost d' \<and> limits d' = limits d \<and> q d' = filter keep (q d) \<and> ev = filter (\<lambda>x. \<not> keep x) (q d)"
  using retain_loop_ok [OF assms(1), where keep = keep and i = 0 and ev = "[]"] assms(2) by (simp add: retain_observed_def)

section \<open>FIFO insertion\<close>

lemma grow_target:
  fixes len mx n :: nat
  assumes "len < mx"
  shows "len < min (max n (len + 1)) mx" "min (max n (len + 1)) mx - len \<noteq> 0"
  using assms by auto

text \<open>Growth either finds room, or gives up the oldest entry, or reports a refusal.\<close>

lemma ensure_room_cases:
  assumes "queue_ok cost d" "grow_ok grow" "0 < cap d"
  obtains (room) "length (q d) < cap d" "ensure_room_for_one cost grow d = (True, d)"
  | (evict) "length (q d) = cap d" "fixed_capacity d \<or> length (q d) \<ge> max_elems d"
      "ensure_room_for_one cost grow d = (True, snd (pop_front cost d))"
  | (grown) c where "length (q d) = cap d" "cap d < c" "\<not> fixed_capacity d" "length (q d) < max_elems d"
      "ensure_room_for_one cost grow d = (True, d\<lparr>cap := c\<rparr>)"
  | (refused) "length (q d) = cap d" "\<not> fixed_capacity d" "length (q d) < max_elems d"
      "ensure_room_for_one cost grow d = (False, d)"
proof -
  consider "length (q d) < cap d" | "length (q d) = cap d" "fixed_capacity d \<or> length (q d) \<ge> max_elems d"
    | "length (q d) = cap d" "\<not> fixed_capacity d" "length (q d) < max_elems d"
    using assms(1) by (force simp: queue_ok_def)
  then show thesis
  proof cases
    case 1
    then show ?thesis by (intro room) (simp_all add: ensure_room_for_one_def)
  next
    case 2
    then show ?thesis by (intro evict) (auto simp: ensure_room_for_one_def)
  next
    case 3
    define n where "n = saturating_add (saturating_mul (cap d) (grow_num d)) (grow_den d - 1) div grow_den d"
    define t where "t = min (max n (cap d + 1)) (max_elems d)"
    have t: "cap d < t" "t - cap d \<noteq> 0"
      using 3 by (auto simp: t_def)
    have eq: "ensure_room_for_one cost grow d =
        (case grow (cap d) t of None \<Rightarrow> (False, d) | Some c \<Rightarrow> (True, d\<lparr>cap := c\<rparr>))"
      using 3 t unfolding ensure_room_for_one_def Let_def n_def t_def by auto
    show ?thesis
    proof (cases "grow (cap d) t")
      case None
      then show ?thesis using 3 eq by (intro refused) simp_all
    next
      case (Some c)
      then have "cap d < c" using assms(2) t(1) by (fastforce simp: grow_ok_def)
      then show ?thesis using 3 eq Some by (intro grown [of c]) simp_all
    qed
  qed
qed

lemma wrapping_add_small: "a + b < 2 ^ 64 \<Longrightarrow> wrapping_add a b = a + b"
  by (simp add: wrapping_add_def)

lemma evict_front_ok:
  assumes "queue_ok cost d" "c \<le> max_bytes d"
  shows "\<exists>k \<le> length (q d). q (evict_front cost c d) = drop k (q d) \<and>
    queue_ok cost (evict_front cost c d) \<and> limits (evict_front cost c d) = limits d \<and>
    cap (evict_front cost c d) = cap d \<and> cur_bytes (evict_front cost c d) + c \<le> max_bytes d \<and>
    (0 < k \<longrightarrow> sum_list (map cost (drop (k - 1) (q d))) + c > max_bytes d)"
  using assms
proof (induction cost c d rule: evict_front.induct)
  case (1 cost c d)
  have small: "wrapping_add (cur_bytes d) c = cur_bytes d + c"
    using 1(2,3) by (intro wrapping_add_small) (simp add: queue_ok_def)
  show ?case
  proof (cases "q d \<noteq> [] \<and> cur_bytes d + c > max_bytes d")
    case True
    define d' where "d' = snd (pop_front cost d)"
    have d': "queue_ok cost d'" "q d' = tl (q d)" "limits d' = limits d" "cap d' = cap d"
      using pop_front_ok [OF 1(2)] by (simp_all add: d'_def)
    have eq: "evict_front cost c d = evict_front cost c d'"
      using True small by (subst evict_front.simps) (simp add: d'_def)
    obtain k where k: "k \<le> length (q d')" "q (evict_front cost c d') = drop k (q d')"
        "queue_ok cost (evict_front cost c d')" "limits (evict_front cost c d') = limits d'"
        "cap (evict_front cost c d') = cap d'" "cur_bytes (evict_front cost c d') + c \<le> max_bytes d'"
        "0 < k \<Longrightarrow> sum_list (map cost (drop (k - 1) (q d'))) + c > max_bytes d'"
      using 1(1) [folded d'_def] True small d' 1(3) limits_eqD(1) [OF d'(3)] by auto
    have "sum_list (map cost (drop k (q d))) + c > max_bytes d"
    proof (cases k)
      case 0
      then show ?thesis using True 1(2) by (simp add: queue_ok_def)
    next
      case (Suc j)
      then show ?thesis
        using k(7) limits_eqD(1) [OF d'(3)] d'(2) True by (cases "q d") simp_all
    qed
    with True k d' eq limits_eqD(1) [OF d'(3)] show ?thesis
      by (intro exI [of _ "Suc k"]) (cases "q d"; simp)
  next
    case False
    then have "evict_front cost c d = d"
      using small by (subst evict_front.simps) auto
    with False 1(2,3) show ?thesis
      by (intro exI [of _ 0]) (auto simp: queue_ok_def)
  qed
qed

definition crowded :: "('a \<Rightarrow> nat) \<Rightarrow> nat \<Rightarrow> 'a BoundedDeque \<Rightarrow> 'a list \<Rightarrow> bool" where
  "crowded cost c d xs \<longleftrightarrow>
    sum_list (map cost xs) + c > max_bytes d \<or> length xs \<ge> max_elems d \<or> length xs \<ge> cap d"

lemma prepare_push_fifo_ok:
  assumes "queue_ok cost d" "grow_ok grow" "0 < cap d" "c \<le> max_bytes d"
  shows "\<exists>k d'. prepare_push_fifo cost grow c d = (Ok (), d') \<and> k \<le> length (q d) \<and> q d' = drop k (q d) \<and>
    queue_ok cost d' \<and> limits d' = limits d \<and> cap d \<le> cap d' \<and> has_room c d' \<and>
    (0 < k \<longrightarrow> crowded cost c d (drop (k - 1) (q d)))"
proof -
  define d1 where "d1 = evict_front cost c d"
  obtain k where k: "k \<le> length (q d)" "q d1 = drop k (q d)" "queue_ok cost d1" "limits d1 = limits d"
      "cap d1 = cap d" "cur_bytes d1 + c \<le> max_bytes d"
      "0 < k \<Longrightarrow> sum_list (map cost (drop (k - 1) (q d))) + c > max_bytes d"
    using evict_front_ok [OF assms(1,4)] by (auto simp: d1_def)
  note lim1 = limits_eqD [OF k(4)]
  have prep: "prepare_push_fifo cost grow c d =
      (let d2 = (if length (q d1) \<ge> max_elems d1 then snd (pop_front cost d1) else d1);
           (room, d3) = ensure_room_for_one cost grow d2 in
       (Ok (), if \<not> room then snd (pop_front cost d3) else d3))"
    using assms(3,4) by (simp add: prepare_push_fifo_def d1_def Let_def)
  have crowd: "0 < k \<Longrightarrow> crowded cost c d (drop (k - 1) (q d))"
    using k(7) by (simp add: crowded_def)
  define d4 where "d4 = snd (pop_front cost d1)"
  have d4: "queue_ok cost d4" "q d4 = drop (Suc k) (q d)" "limits d4 = limits d" "cap d4 = cap d"
    using pop_front_ok [OF k(3)] k by (simp_all add: d4_def drop_Suc tl_drop)
  have popped: ?thesis
    if full: "length (q d1) \<ge> max_elems d \<or> length (q d1) \<ge> cap d"
      and eq: "prepare_push_fifo cost grow c d = (Ok (), d4)"
  proof (intro exI [of _ "Suc k"] exI [of _ d4] conjI impI)
    have ne: "q d1 \<noteq> []"
      using full assms(1,3) by (auto simp: queue_ok_def)
    then show "Suc k \<le> length (q d)" using k(1,2) by (cases "k = length (q d)") auto
    have bounds: "length (q d1) \<le> max_elems d" "length (q d1) \<le> cap d" "0 < max_elems d"
      using k(3,5) lim1 by (simp_all add: queue_ok_def)
    have "cur_bytes d4 \<le> cur_bytes d1"
      using d4 k(2,3) by (simp add: queue_ok_def drop_Suc flip: tl_drop) (cases "drop k (q d)"; simp)
    then show "has_room c d4"
      using bounds d4 k(2,6) ne limits_eqD [OF d4(3)] assms(3) by (auto simp: has_room_def)
    show "crowded cost c d (drop (Suc k - 1) (q d))"
      using full k(2) by (auto simp: crowded_def)
  qed (use d4 eq in simp_all)
  show ?thesis
  proof (cases "length (q d1) \<ge> max_elems d")
    case True
    have "length (q d4) < cap d4"
      using d4(2,4) k(2,3,5) assms(3) by (auto simp: queue_ok_def)
    then have "prepare_push_fifo cost grow c d = (Ok (), d4)"
      using True lim1 by (simp add: prep d4_def [symmetric] ensure_room_for_one_def)
    with True show ?thesis using popped by simp
  next
    case False
    then have prep1: "prepare_push_fifo cost grow c d =
        (case ensure_room_for_one cost grow d1 of (room, d3) \<Rightarrow>
          (Ok (), if \<not> room then snd (pop_front cost d3) else d3))"
      using lim1 by (simp add: prep)
    have "0 < cap d1" using assms(3) k(5) by simp
    with k(3) assms(2) show ?thesis
    proof (cases rule: ensure_room_cases)
      case room
      then show ?thesis
        using False prep1 k lim1 crowd by (intro exI [of _ k] exI [of _ d1]) (simp add: has_room_def)
    next
      case evict
      then show ?thesis using popped prep1 k(5) by (simp add: d4_def)
    next
      case (grown c')
      then have "queue_ok cost (d1\<lparr>cap := c'\<rparr>)"
        using k(3) by (simp add: queue_ok_def)
      with grown show ?thesis
        using False prep1 k lim1 crowd
        by (intro exI [of _ k] exI [of _ "d1\<lparr>cap := c'\<rparr>"]) (simp add: has_room_def)
    next
      case refused
      then show ?thesis using popped prep1 k(5) by (simp add: d4_def)
    qed
  qed
qed

lemma push_back_spec:
  assumes "queue_ok cost d" "grow_ok grow" "0 < cap d" "cost v \<le> max_bytes d"
  shows "\<exists>k d'. push_back cost grow v d = (Ok (), d') \<and> k \<le> length (q d) \<and>
    q d' = drop k (q d) @ [v] \<and> queue_ok cost d' \<and> limits d' = limits d \<and> cap d \<le> cap d' \<and>
    (0 < k \<longrightarrow> crowded cost (cost v) d (drop (k - 1) (q d)))"
proof -
  obtain k d1 where d1: "prepare_push_fifo cost grow (cost v) d = (Ok (), d1)" "k \<le> length (q d)"
      "q d1 = drop k (q d)" "queue_ok cost d1" "limits d1 = limits d" "cap d \<le> cap d1"
      "has_room (cost v) d1" "0 < k \<longrightarrow> crowded cost (cost v) d (drop (k - 1) (q d))"
    using prepare_push_fifo_ok [OF assms] by blast
  have "queue_ok cost (d1\<lparr>q := q d1 @ [v], cur_bytes := saturating_add (cur_bytes d1) (cost v)\<rparr>)"
    by (rule queue_ok_insert [OF d1(4,7)]) simp_all
  with d1 show ?thesis
    by (intro exI [of _ k]
        exI [of _ "d1\<lparr>q := q d1 @ [v], cur_bytes := saturating_add (cur_bytes d1) (cost v)\<rparr>"])
      (simp add: push_back_def)
qed

lemma push_back_refused:
  "cap d = 0 \<or> cost v > max_bytes d \<Longrightarrow>
    push_back cost grow v d = (if cap d = 0 then queue_unavailable else item_too_large, d)"
  by (auto simp: push_back_def prepare_push_fifo_def)

lemma push_back_ok:
  assumes "queue_ok cost d" "grow_ok grow"
  shows "queue_ok cost (snd (push_back cost grow v d)) \<and> limits (snd (push_back cost grow v d)) = limits d"
proof (cases "cap d = 0 \<or> cost v > max_bytes d")
  case True
  then show ?thesis using assms by (simp add: push_back_refused)
next
  case False
  then show ?thesis using push_back_spec [OF assms, of v] by auto
qed

section \<open>Priority insertion\<close>

lemma at_limit_iff:
  assumes "queue_ok cost d"
  shows "at_limit c d \<longleftrightarrow> cur_bytes d + c > max_bytes d \<or> length (q d) \<ge> max_elems d \<or>
    (fixed_capacity d \<and> length (q d) \<ge> cap d)"
proof -
  have "max_bytes d < USIZE_MAX" using assms by (simp add: queue_ok_def USIZE_MAX_def)
  then show ?thesis
    using saturating_add_le_iff [of "max_bytes d" "cur_bytes d" c] by (auto simp: at_limit_def)
qed

text \<open>Below the limits the growth step never gives up an entry.\<close>

lemma ensure_room_below_limit:
  assumes "queue_ok cost d" "grow_ok grow" "0 < cap d" "\<not> at_limit c d"
  obtains c' where "cap d \<le> c'" "ensure_room_for_one cost grow d = (True, d\<lparr>cap := c'\<rparr>)"
      "queue_ok cost (d\<lparr>cap := c'\<rparr>)" "has_room c (d\<lparr>cap := c'\<rparr>)"
  | "ensure_room_for_one cost grow d = (False, d)" "length (q d) = cap d"
proof -
  have lim: "cur_bytes d + c \<le> max_bytes d" "length (q d) < max_elems d"
      "\<not> (fixed_capacity d \<and> length (q d) \<ge> cap d)"
    using assms(4) by (auto simp: at_limit_iff [OF assms(1)])
  show thesis
    using assms(1-3)
  proof (cases rule: ensure_room_cases)
    case room
    then show ?thesis using that(1) [of "cap d"] lim assms(1) by (simp add: has_room_def)
  next
    case evict
    then show ?thesis using lim by simp
  next
    case (grown c')
    then show ?thesis using that(1) [of c'] lim assms(1) by (simp add: has_room_def queue_ok_def)
  next
    case refused
    then show ?thesis using that(2) by simp
  qed
qed

definition yields :: "u8 \<Rightarrow> u8 \<Rightarrow> bool" where
  "yields new old \<longleftrightarrow> old \<le> new \<and> (new = 254 \<longrightarrow> old < new)"

lemma not_yields: "(old > new \<or> (new = 254 \<and> old = new)) \<longleftrightarrow> \<not> yields new old"
  by (auto simp: yields_def)

lemma make_room_loop_spec:
  assumes "queue_ok cost d" "grow_ok grow" "0 < cap d" "c \<le> max_bytes d"
  shows "\<exists>n d'. n \<le> length (q d) \<and> q d' = take n (q d) \<and> queue_ok cost d' \<and> limits d' = limits d \<and>
    cap d \<le> cap d' \<and> list_all (\<lambda>x. yields p (priority_of x)) (drop n (q d)) \<and>
    (n < length (q d) \<longrightarrow> crowded cost c d (take (Suc n) (q d))) \<and>
    (make_room_loop cost grow priority_of c p d ev = (Ok (), ev @ rev (drop n (q d)), d') \<and> has_room c d' \<or>
     make_room_loop cost grow priority_of c p d ev = (queue_saturated, ev @ rev (drop n (q d)), d') \<and>
       0 < n \<and> \<not> yields p (priority_of (q d ! (n - 1))) \<and> crowded cost c d (take n (q d)))"
  (is "?spec d ev")
  using assms
proof (induction "length (q d)" arbitrary: d ev)
  case 0
  then have "\<not> at_limit c d" "length (q d) \<noteq> cap d"
    by (auto simp: at_limit_iff [OF 0(2)]) (auto simp: queue_ok_def)
  with 0(2-4) obtain c' where c': "cap d \<le> c'" "ensure_room_for_one cost grow d = (True, d\<lparr>cap := c'\<rparr>)"
      "queue_ok cost (d\<lparr>cap := c'\<rparr>)" "has_room c (d\<lparr>cap := c'\<rparr>)"
    by (metis ensure_room_below_limit)
  then show ?case
    using 0(1) \<open>\<not> at_limit c d\<close>
    by (intro exI [of _ 0] exI [of _ "d\<lparr>cap := c'\<rparr>"]) (simp add: make_room_loop.simps [of _ _ _ _ _ d])
next
  case (Suc m)
  obtain vs v where q: "q d = vs @ [v]"
    using Suc(2) by (cases "q d" rule: rev_exhaust) auto
  have stuck: "?spec d ev"
    if full: "crowded cost c d (q d)" and
      eq: "(if at_limit c d then (False, d) else ensure_room_for_one cost grow d) = (False, d)"
  proof (cases "yields p (priority_of v)")
    case False
    then have "make_room_loop cost grow priority_of c p d ev = (queue_saturated, ev, d)"
      using eq q by (subst make_room_loop.simps) (simp add: not_yields)
    with False full q Suc(3) show ?thesis
      by (intro exI [of _ "length (q d)"] exI [of _ d]) simp
  next
    case True
    define d1 where "d1 = d\<lparr>q := vs, cur_bytes := sum_list (map cost vs)\<rparr>"
    have pop: "snd (pop_back cost d) = d1"
      using pop_back_snoc [OF Suc(3) q] by (simp add: d1_def)
    have loop: "make_room_loop cost grow priority_of c p d ev =
        make_room_loop cost grow priority_of c p d1 (ev @ [v])"
      using eq q True by (subst make_room_loop.simps) (simp add: not_yields pop)
    have "queue_ok cost d1" using pop_back_ok [OF Suc(3)] pop by simp
    moreover have "m = length (q d1)" "0 < cap d1" "c \<le> max_bytes d1"
      using Suc(2,5,6) q by (simp_all add: d1_def)
    ultimately obtain n d' where n: "n \<le> length vs" "q d' = take n vs" "queue_ok cost d'"
        "limits d' = limits d" "cap d \<le> cap d'" "list_all (\<lambda>x. yields p (priority_of x)) (drop n vs)"
        "n < length vs \<longrightarrow> crowded cost c d (take (Suc n) vs)"
      and res: "make_room_loop cost grow priority_of c p d1 (ev @ [v]) =
            (Ok (), (ev @ [v]) @ rev (drop n vs), d') \<and> has_room c d' \<or>
          make_room_loop cost grow priority_of c p d1 (ev @ [v]) =
            (queue_saturated, (ev @ [v]) @ rev (drop n vs), d') \<and>
          0 < n \<and> \<not> yields p (priority_of (vs ! (n - 1))) \<and> crowded cost c d (take n vs)"
      using Suc(1) [of d1 "ev @ [v]", OF _ _ Suc(4)] by (auto simp: d1_def crowded_def)
    have "n \<le> length (q d)" "q d' = take n (q d)"
        "list_all (\<lambda>x. yields p (priority_of x)) (drop n (q d))"
        "n < length (q d) \<longrightarrow> crowded cost c d (take (Suc n) (q d))"
      using n q True full by (cases "n = length vs"; simp)+
    moreover have "0 < n \<Longrightarrow> q d ! (n - 1) = vs ! (n - 1)" "rev (drop n (q d)) = v # rev (drop n vs)"
        "take n (q d) = take n vs"
      using n(1) q by (auto simp: nth_append)
    ultimately show ?thesis
      using n(3-5) res loop by (intro exI [of _ n] exI [of _ d']) auto
  qed
  show ?case
  proof (cases "at_limit c d")
    case True
    then show ?thesis
      using Suc(3) by (intro stuck) (auto simp: crowded_def at_limit_iff [OF Suc(3)] queue_ok_def)
  next
    case False
    with Suc(3-5) show ?thesis
    proof (cases rule: ensure_room_below_limit)
      case (1 c')
      then have "make_room_loop cost grow priority_of c p d ev = (Ok (), ev, d\<lparr>cap := c'\<rparr>)"
        using False by (subst make_room_loop.simps) simp
      with 1 show ?thesis
        by (intro exI [of _ "length (q d)"] exI [of _ "d\<lparr>cap := c'\<rparr>"]) simp
    next
      case 2
      then show ?thesis using False by (intro stuck) (simp_all add: crowded_def)
    qed
  qed
qed

lemma descending_append:
  "descending priority_of (xs @ ys) \<longleftrightarrow>
    descending priority_of xs \<and> descending priority_of ys \<and>
    (\<forall>x \<in> set xs. \<forall>y \<in> set ys. priority_of y \<le> priority_of x)"
  by (simp add: descending_def sorted_wrt_append)

lemma descending_simps [simp]:
  "descending priority_of []"
  "descending priority_of (x # xs) \<longleftrightarrow>
    (\<forall>y \<in> set xs. priority_of y \<le> priority_of x) \<and> descending priority_of xs"
  by (auto simp: descending_def)

lemma descending_drop_lower:
  "descending priority_of xs \<Longrightarrow> x \<in> set (dropWhile (\<lambda>x. p \<le> priority_of x) xs) \<Longrightarrow> priority_of x < p"
  by (induction xs) (auto split: if_splits)

text \<open>The three insertion branches agree: the new entry goes behind every entry of at
  least its priority.\<close>

lemma insert_prioritized_prepared_eq:
  assumes "descending priority_of (q d)"
  shows "insert_prioritized_prepared v c p priority_of d =
    d\<lparr>q := takeWhile (\<lambda>x. p \<le> priority_of x) (q d) @ v # dropWhile (\<lambda>x. p \<le> priority_of x) (q d),
      cur_bytes := saturating_add (cur_bytes d) c\<rparr>"
proof -
  let ?P = "\<lambda>x. p \<le> priority_of x"
  consider "q d = [] \<or> ?P (last (q d))" | "q d \<noteq> []" "\<not> ?P (last (q d))" "\<not> ?P (hd (q d))"
    | "q d \<noteq> []" "\<not> ?P (last (q d))" "?P (hd (q d))"
    by blast
  then show ?thesis
  proof cases
    case 1
    then have "\<forall>x \<in> set (q d). ?P x"
    proof (cases "q d" rule: rev_exhaust)
      case (snoc ys y)
      then show ?thesis using 1 assms by (auto simp: descending_append)
    qed simp
    then have "takeWhile ?P (q d) = q d" "dropWhile ?P (q d) = []" by simp_all
    with 1 show ?thesis unfolding insert_prioritized_prepared_def Let_def by (simp only: if_True)
  next
    case 2
    then have "takeWhile ?P (q d) = []" "dropWhile ?P (q d) = q d" by (cases "q d"; simp)+
    with 2 show ?thesis by (simp add: insert_prioritized_prepared_def Let_def not_le)
  next
    case 3
    moreover have "take (length (takeWhile ?P (q d))) (q d) = takeWhile ?P (q d)"
        "drop (length (takeWhile ?P (q d))) (q d) = dropWhile ?P (q d)"
      by (rule takeWhile_eq_take [symmetric], rule dropWhile_eq_drop [symmetric])
    ultimately show ?thesis
      by (simp add: insert_prioritized_prepared_def partition_point_def Let_def not_le)
  qed
qed

lemma insert_prioritized_descending:
  assumes "descending priority_of xs"
  shows "descending priority_of (takeWhile (\<lambda>x. priority_of v \<le> priority_of x) xs @ v #
    dropWhile (\<lambda>x. priority_of v \<le> priority_of x) xs)"
proof -
  let ?P = "\<lambda>x. priority_of v \<le> priority_of x"
  have "descending priority_of (takeWhile ?P xs)" "descending priority_of (dropWhile ?P xs)"
    using assms descending_append [of priority_of "takeWhile ?P xs" "dropWhile ?P xs"] by simp_all
  moreover have "\<And>x. x \<in> set (dropWhile ?P xs) \<Longrightarrow> priority_of x < priority_of v"
    using descending_drop_lower [OF assms] by blast
  moreover have "\<And>x. x \<in> set (takeWhile ?P xs) \<Longrightarrow> ?P x"
    by (meson set_takeWhileD)
  ultimately show ?thesis
    by (simp add: descending_append less_imp_le) (meson less_imp_le order_trans)
qed

lemma insert_prioritized_prepared_ok:
  assumes "queue_ok cost d" "has_room (cost v) d"
  shows "queue_ok cost (insert_prioritized_prepared v (cost v) p priority_of d) \<and>
    limits (insert_prioritized_prepared v (cost v) p priority_of d) = limits d \<and>
    cap (insert_prioritized_prepared v (cost v) p priority_of d) = cap d"
  using queue_ok_insert [OF assms, of "v # q d"] queue_ok_insert [OF assms, of "q d @ [v]"]
    queue_ok_insert [OF assms, of "take i (q d) @ v # drop i (q d)" for i]
    sum_list_insert_at [of cost _ "q d" v]
  by (auto simp: insert_prioritized_prepared_def Let_def min_def)

lemma push_back_prioritized_cases:
  assumes "queue_ok cost d" "grow_ok grow" "0 < cap d" "cost v \<le> max_bytes d"
  obtains (admitted) n d' where "n \<le> length (q d)" "q d' = take n (q d)" "queue_ok cost d'"
      "limits d' = limits d" "cap d \<le> cap d'" "has_room (cost v) d'"
      "list_all (\<lambda>x. yields (priority_of v) (priority_of x)) (drop n (q d))"
      "n < length (q d) \<longrightarrow> crowded cost (cost v) d (take (Suc n) (q d))"
      "push_back_prioritized_observed cost grow priority_of v d =
        (Ok (), rev (drop n (q d)), insert_prioritized_prepared v (cost v) (priority_of v) priority_of d')"
  | (saturated) n d' where "0 < n" "n \<le> length (q d)" "q d' = take n (q d)" "queue_ok cost d'"
      "limits d' = limits d" "cap d \<le> cap d'" "\<not> yields (priority_of v) (priority_of (q d ! (n - 1)))"
      "list_all (\<lambda>x. yields (priority_of v) (priority_of x)) (drop n (q d))"
      "crowded cost (cost v) d (take n (q d))"
      "push_back_prioritized_observed cost grow priority_of v d = (queue_saturated, rev (drop n (q d)), d')"
proof -
  obtain n d' where n: "n \<le> length (q d)" "q d' = take n (q d)" "queue_ok cost d'"
      "limits d' = limits d" "cap d \<le> cap d'"
      "list_all (\<lambda>x. yields (priority_of v) (priority_of x)) (drop n (q d))"
      "n < length (q d) \<longrightarrow> crowded cost (cost v) d (take (Suc n) (q d))"
    and res: "make_room_loop cost grow priority_of (cost v) (priority_of v) d [] =
          (Ok (), [] @ rev (drop n (q d)), d') \<and> has_room (cost v) d' \<or>
        make_room_loop cost grow priority_of (cost v) (priority_of v) d [] =
          (queue_saturated, [] @ rev (drop n (q d)), d') \<and> 0 < n \<and>
          \<not> yields (priority_of v) (priority_of (q d ! (n - 1))) \<and> crowded cost (cost v) d (take n (q d))"
    using make_room_loop_spec [OF assms, of "priority_of v" priority_of "[]"] by blast
  from res show thesis
  proof
    assume r: "make_room_loop cost grow priority_of (cost v) (priority_of v) d [] =
          (Ok (), [] @ rev (drop n (q d)), d') \<and> has_room (cost v) d'"
    show thesis
      by (rule admitted [of n d'])
        (use n r assms in \<open>simp_all add: push_back_prioritized_observed_def\<close>)
  next
    assume r: "make_room_loop cost grow priority_of (cost v) (priority_of v) d [] =
          (queue_saturated, [] @ rev (drop n (q d)), d') \<and> 0 < n \<and>
          \<not> yields (priority_of v) (priority_of (q d ! (n - 1))) \<and> crowded cost (cost v) d (take n (q d))"
    show thesis
      by (rule saturated [of n d'])
        (use n r assms in \<open>simp_all add: push_back_prioritized_observed_def\<close>)
  qed
qed

lemma descending_take: "descending priority_of xs \<Longrightarrow> descending priority_of (take n xs)"
  by (simp add: descending_def sorted_wrt_take)

lemma push_back_prioritized_refused:
  "cap d = 0 \<or> cost v > max_bytes d \<Longrightarrow>
    push_back_prioritized_observed cost grow priority_of v d =
      (if cap d = 0 then queue_unavailable else item_too_large, [], d)"
  by (auto simp: push_back_prioritized_observed_def)

lemma push_back_prioritized_ok:
  assumes "queue_ok cost d" "grow_ok grow"
  shows "queue_ok cost (snd (snd (push_back_prioritized_observed cost grow priority_of v d))) \<and>
    limits (snd (snd (push_back_prioritized_observed cost grow priority_of v d))) = limits d"
proof (cases "cap d = 0 \<or> cost v > max_bytes d")
  case True
  then show ?thesis using assms by (simp add: push_back_prioritized_refused)
next
  case False
  then have "0 < cap d" "cost v \<le> max_bytes d" by simp_all
  with assms show ?thesis
    by (cases rule: push_back_prioritized_cases [where priority_of = priority_of])
      (simp_all add: insert_prioritized_prepared_ok)
qed

text \<open>The selecting variant: whatever entry the selector names, an evicted entry yields
  to the new one and every entry is accounted for.\<close>

lemma descending_remove:
  "descending priority_of xs \<Longrightarrow> descending priority_of (take i xs @ drop (Suc i) xs)"
proof (induction xs arbitrary: i)
  case (Cons x xs)
  then show ?case
    by (cases i) (auto dest: in_set_takeD in_set_dropD)
qed simp

lemma mset_remove_nth: "i < length xs \<Longrightarrow> mset xs = add_mset (xs ! i) (mset (take i xs @ drop (Suc i) xs))"
  by (metis id_take_nth_drop mset.simps(2) mset_append union_mset_add_mset_right)

lemma select_room_loop_ok:
  assumes "queue_ok cost d" "grow_ok grow" "0 < cap d"
    and "select_room_loop cost grow priority_of victim v c p d ev = (r, ev', d')"
  shows "queue_ok cost d' \<and> limits d' = limits d \<and> cap d \<le> cap d' \<and> (is_ok r \<longrightarrow> has_room c d') \<and>
    (is_ok r \<or> r = queue_saturated) \<and>
    (descending priority_of (q d) \<longrightarrow> descending priority_of (q d')) \<and>
    (\<exists>out. ev' = ev @ out \<and> list_all (\<lambda>x. yields p (priority_of x)) out \<and> mset (q d) = mset (q d') + mset out)"
  using assms
proof (induction cost grow priority_of victim v c p d ev rule: select_room_loop.induct)
  case (1 cost grow priority_of victim v c p d ev)
  show ?case
  proof (cases "\<not> at_limit c d \<and> fst (ensure_room_for_one cost grow d)")
    case True
    with 1(2-4) obtain c' where "cap d \<le> c'" "ensure_room_for_one cost grow d = (True, d\<lparr>cap := c'\<rparr>)"
        "queue_ok cost (d\<lparr>cap := c'\<rparr>)" "has_room c (d\<lparr>cap := c'\<rparr>)"
      by (metis ensure_room_below_limit fst_conv)
    with True 1(5) show ?thesis
      by (auto simp: select_room_loop.simps [of _ _ _ _ _ _ _ d])
  next
    case False
    have stuck: "(if at_limit c d then (False, d) else ensure_room_for_one cost grow d) = (False, d)"
      using 1(2-4) False by (metis ensure_room_below_limit fst_conv)
    show ?thesis
    proof (cases "\<exists>i < length (q d). victim d v = Some i \<and> yields p (priority_of (q d ! i))")
      case False
      then have "(r, ev', d') = (queue_saturated, ev, d)"
        using 1(5) stuck
        by (auto simp: select_room_loop.simps [of _ _ _ _ _ _ _ d] not_yields Let_def
            split: option.splits if_splits)
      then show ?thesis using 1(2) by simp
    next
      case True
      then obtain i where i: "i < length (q d)" "victim d v = Some i" "yields p (priority_of (q d ! i))"
        by blast
      define d1 where "d1 = snd (remove_pos cost i d)"
      have d1: "queue_ok cost d1" "q d1 = take i (q d) @ drop (Suc i) (q d)" "limits d1 = limits d" "cap d1 = cap d"
        using remove_pos_ok [OF 1(2), of i] by (simp_all add: d1_def)
      have loop: "select_room_loop cost grow priority_of victim v c p d1 (ev @ [q d ! i]) = (r, ev', d')"
        using 1(5) stuck i
        by (simp add: select_room_loop.simps [of _ _ _ _ _ _ _ d] not_yields d1_def)
      have "queue_ok cost d' \<and> limits d' = limits d1 \<and> cap d1 \<le> cap d' \<and> (is_ok r \<longrightarrow> has_room c d') \<and>
        (is_ok r \<or> r = queue_saturated) \<and>
        (descending priority_of (q d1) \<longrightarrow> descending priority_of (q d')) \<and>
        (\<exists>out. ev' = (ev @ [q d ! i]) @ out \<and> list_all (\<lambda>x. yields p (priority_of x)) out \<and>
          mset (q d1) = mset (q d') + mset out)"
        unfolding d1_def
        by (rule 1(1) [OF stuck [symmetric] _ _ i(2) i(1) refl])
          (use d1 1(3,4) loop i(3) in \<open>auto simp: d1_def yields_def\<close>)
      then obtain out where out: "queue_ok cost d'" "limits d' = limits d" "cap d \<le> cap d'"
          "is_ok r \<longrightarrow> has_room c d'" "is_ok r \<or> r = queue_saturated"
          "descending priority_of (q d1) \<longrightarrow> descending priority_of (q d')"
          "ev' = ev @ (q d ! i) # out" "list_all (\<lambda>x. yields p (priority_of x)) out"
          "mset (q d1) = mset (q d') + mset out"
        using d1(3,4) by auto
      have "mset (q d) = mset (q d') + mset ((q d ! i) # out)"
        using mset_remove_nth [OF i(1)] out(9) by (simp add: d1(2))
      with out i(3) show ?thesis
        using descending_remove [of priority_of "q d" i] d1(2) by auto
    qed
  qed
qed

lemma push_back_prioritized_select_ok:
  assumes "queue_ok cost d" "grow_ok grow"
    and "push_back_prioritized_select cost grow priority_of victim v d = (r, ev, d')"
  shows "queue_ok cost d' \<and> limits d' = limits d \<and>
    (descending priority_of (q d) \<longrightarrow> descending priority_of (q d')) \<and>
    list_all (\<lambda>x. yields (priority_of v) (priority_of x)) ev \<and>
    mset (q d) + (if is_ok r then {#v#} else {#}) = mset (q d') + mset ev"
proof (cases "cap d = 0 \<or> cost v > max_bytes d")
  case True
  then have "(r, ev, d') = (if cap d = 0 then queue_unavailable else item_too_large, [], d)"
    using assms(3) by (auto simp: push_back_prioritized_select_def)
  then show ?thesis using assms(1) by (auto split: if_splits)
next
  case False
  obtain r1 d1 where loop: "select_room_loop cost grow priority_of victim v (cost v) (priority_of v) d [] = (r1, ev, d1)"
    and r: "r = map_sum id (\<lambda>_. ()) r1"
      "d' = (if is_ok r1 then insert_prioritized_prepared v (cost v) (priority_of v) priority_of d1 else d1)"
    using False assms(3)
    by (cases "select_room_loop cost grow priority_of victim v (cost v) (priority_of v) d []")
      (auto simp: push_back_prioritized_select_def split: sum.splits if_splits)
  have "0 < cap d" using False by simp
  note ok = select_room_loop_ok [OF assms(1,2) this loop]
  show ?thesis
  proof (cases r1)
    case (Inl e)
    then show ?thesis using ok r by auto
  next
    case (Inr u)
    have ins: "mset (q d') = add_mset v (mset (q d1))"
    proof -
      have "mset (take i (q d1)) + mset (drop i (q d1)) = mset (q d1)" for i
        by (metis append_take_drop_id mset_append)
      then show ?thesis using r Inr by (simp add: insert_prioritized_prepared_def Let_def)
    qed
    have "descending priority_of (q d1) \<longrightarrow> descending priority_of (q d')"
      using r Inr insert_prioritized_descending [of priority_of "q d1" v]
      by (simp add: insert_prioritized_prepared_eq)
    with ok r Inr ins show ?thesis
      using insert_prioritized_prepared_ok [of cost d1 v "priority_of v" priority_of] by auto
  qed
qed

section \<open>Prepared batches\<close>

lemma try_sum_eq: "try_sum n cs = (if n + sum_list cs \<le> USIZE_MAX \<or> cs = [] then Some (n + sum_list cs) else None)"
  by (induction cs arbitrary: n) (auto simp: checked_add_def)

lemma fits_prepared_batch_iff:
  assumes "queue_ok cost d"
  shows "fits_prepared_batch cs d \<longleftrightarrow>
    length (q d) + length cs \<le> USIZE_MAX \<and> length (q d) + length cs \<le> max_elems d \<and>
    length (q d) + length cs \<le> cap d \<and> cur_bytes d + sum_list cs \<le> max_bytes d"
  using assms
  by (auto simp: fits_prepared_batch_def try_sum_eq queue_ok_def USIZE_MAX_def checked_add_def split: option.splits)

text \<open>The commit loop after a successful check of the whole batch.\<close>

fun commit_batch :: "('a \<Rightarrow> nat) \<Rightarrow> ('a \<Rightarrow> u8) \<Rightarrow> 'a list \<Rightarrow> 'a BoundedDeque \<Rightarrow> 'a BoundedDeque option" where
  "commit_batch cost priority_of [] d = Some d"
| "commit_batch cost priority_of (v # vs) d =
    (case push_prepared_batch_item v (cost v) (priority_of v) priority_of d of
      None \<Rightarrow> None
    | Some d' \<Rightarrow> commit_batch cost priority_of vs d')"

lemma insert_prioritized_prepared_q:
  "cur_bytes (insert_prioritized_prepared v c p priority_of d) = saturating_add (cur_bytes d) c"
  "mset (q (insert_prioritized_prepared v c p priority_of d)) = add_mset v (mset (q d))"
  "length (q (insert_prioritized_prepared v c p priority_of d)) = Suc (length (q d))"
proof -
  have "mset (take i (q d)) + mset (drop i (q d)) = mset (q d)" for i
    by (metis append_take_drop_id mset_append)
  then show *: "mset (q (insert_prioritized_prepared v c p priority_of d)) = add_mset v (mset (q d))"
    by (simp add: insert_prioritized_prepared_def Let_def)
  then show "length (q (insert_prioritized_prepared v c p priority_of d)) = Suc (length (q d))"
    by (metis size_add_mset size_mset)
qed (simp add: insert_prioritized_prepared_def Let_def)

lemma push_prepared_batch_item_ok:
  assumes "queue_ok cost d" "fits_prepared_batch (cost v # cs) d"
  shows "\<exists>d'. push_prepared_batch_item v (cost v) p priority_of d = Some d' \<and> queue_ok cost d' \<and>
    limits d' = limits d \<and> cap d' = cap d \<and> mset (q d') = add_mset v (mset (q d)) \<and>
    (p = priority_of v \<and> descending priority_of (q d) \<longrightarrow> descending priority_of (q d')) \<and>
    fits_prepared_batch cs d'"
proof -
  let ?d = "insert_prioritized_prepared v (cost v) p priority_of d"
  have fits: "fits_prepared_batch [cost v] d" "has_room (cost v) d"
    using assms by (auto simp: fits_prepared_batch_iff [OF assms(1)] has_room_def)
  then have ok: "queue_ok cost ?d" "limits ?d = limits d" "cap ?d = cap d"
    using insert_prioritized_prepared_ok [OF assms(1)] by simp_all
  moreover have "fits_prepared_batch cs ?d"
    using assms(2) limits_eqD [OF ok(2)] fits(2) assms(1)
    by (simp add: fits_prepared_batch_iff [OF assms(1)] fits_prepared_batch_iff [OF ok(1)] ok(3)
        insert_prioritized_prepared_q has_room_def queue_ok_def USIZE_MAX_def)
  moreover have "descending priority_of (q d) \<Longrightarrow>
      descending priority_of (q (insert_prioritized_prepared v (cost v) (priority_of v) priority_of d))"
    using insert_prioritized_descending [of priority_of "q d" v] by (simp add: insert_prioritized_prepared_eq)
  ultimately show ?thesis
    using fits by (auto simp: push_prepared_batch_item_def insert_prioritized_prepared_q)
qed

lemma commit_batch_ok:
  assumes "queue_ok cost d" "fits_prepared_batch (map cost vs) d"
  shows "\<exists>d'. commit_batch cost priority_of vs d = Some d' \<and> queue_ok cost d' \<and> limits d' = limits d \<and>
    cap d' = cap d \<and> mset (q d') = mset (q d) + mset vs \<and>
    (descending priority_of (q d) \<longrightarrow> descending priority_of (q d'))"
  using assms
proof (induction vs arbitrary: d)
  case (Cons v vs)
  obtain d1 where d1: "push_prepared_batch_item v (cost v) (priority_of v) priority_of d = Some d1"
      "queue_ok cost d1" "limits d1 = limits d" "cap d1 = cap d" "mset (q d1) = add_mset v (mset (q d))"
      "descending priority_of (q d) \<longrightarrow> descending priority_of (q d1)" "fits_prepared_batch (map cost vs) d1"
    using push_prepared_batch_item_ok [OF Cons.prems(1), of v "map cost vs" "priority_of v" priority_of]
      Cons.prems(2) by auto
  obtain d' where "commit_batch cost priority_of vs d1 = Some d'" "queue_ok cost d'" "limits d' = limits d1"
    "cap d' = cap d1" "mset (q d') = mset (q d1) + mset vs"
    "descending priority_of (q d1) \<longrightarrow> descending priority_of (q d')"
    using Cons.IH [OF d1(2,7)] by blast
  with d1 show ?case by auto
qed simp

lemma fold_insert_ok:
  assumes "queue_ok cost d" "fits_prepared_batch (map snd vs) d" "\<forall>(v, c) \<in> set vs. c = cost v"
  shows "queue_ok cost (fold (\<lambda>(item, c). insert_prioritized_prepared item c (priority_of item) priority_of) vs d) \<and>
    limits (fold (\<lambda>(item, c). insert_prioritized_prepared item c (priority_of item) priority_of) vs d) = limits d \<and>
    mset (q (fold (\<lambda>(item, c). insert_prioritized_prepared item c (priority_of item) priority_of) vs d)) =
      mset (q d) + mset (map fst vs)"
  using assms
proof (induction vs arbitrary: d)
  case (Cons vc vs)
  obtain v c where vc: "vc = (v, c)" "c = cost v" using Cons.prems(3) by (cases vc) auto
  obtain d1 where d1: "push_prepared_batch_item v (cost v) (priority_of v) priority_of d = Some d1"
      "queue_ok cost d1" "limits d1 = limits d" "mset (q d1) = add_mset v (mset (q d))"
      "fits_prepared_batch (map snd vs) d1"
    using push_prepared_batch_item_ok [OF Cons.prems(1), of v "map snd vs" "priority_of v" priority_of]
      Cons.prems(2) vc by auto
  moreover have "d1 = insert_prioritized_prepared v c (priority_of v) priority_of d"
    using d1(1) vc by (simp add: push_prepared_batch_item_def split: if_splits)
  ultimately show ?case
    using Cons.IH [of d1] Cons.prems(3) vc by auto
qed simp

lemma mset_update_nth:
  "i < length xs \<Longrightarrow> add_mset (xs ! i) (mset (xs[i := x])) = add_mset x (mset xs)"
  by (simp add: mset_update)

lemma sum_list_update_nth:
  fixes f :: "'a \<Rightarrow> nat"
  shows "i < length xs \<Longrightarrow> sum_list (map f (xs[i := x])) + f (xs ! i) = sum_list (map f xs) + f x"
  by (induction xs arbitrary: i) (auto split: nat.splits)

lemma replace_prepared_group_ok:
  assumes "queue_ok cost d" "fits_replacement_group cost i (map snd vs) d" "\<forall>(v, c) \<in> set vs. c = cost v"
  shows "\<exists>d'. replace_prepared_group cost i vs priority_of d = Some d' \<and> queue_ok cost d' \<and>
    limits d' = limits d \<and> i < length (q d) \<and>
    add_mset (q d ! i) (mset (q d')) = mset (q d) + mset (map fst vs)"
proof -
  obtain v c rest where vs: "vs = (v, c) # rest"
    using assms(2) by (cases vs) (auto simp: fits_replacement_group_def checked_sub_def split: if_splits)
  have c: "c = cost v" and rest: "\<forall>(v, c) \<in> set rest. c = cost v"
    using assms(3) by (auto simp: vs)
  have i: "i < length (q d)"
    using assms(2) by (auto simp: fits_replacement_group_def split: if_splits)
  have le: "cost (q d ! i) \<le> cur_bytes d"
    using assms(1) member_le_sum_list [of "cost (q d ! i)" "map cost (q d)"] i by (simp add: queue_ok_def)
  have fit: "length (q d) + length rest \<le> USIZE_MAX" "length (q d) + length rest \<le> max_elems d"
      "length (q d) + length rest \<le> cap d"
      "cur_bytes d - cost (q d ! i) + (c + sum_list (map snd rest)) \<le> max_bytes d"
    using assms(2) i le
    by (auto simp: fits_replacement_group_def vs try_sum_eq checked_add_def checked_sub_def
        split: if_splits option.splits)
  define d1 where "d1 = d\<lparr>cur_bytes := cur_bytes d - cost (q d ! i) + c, q := (q d)[i := v]\<rparr>"
  have "max_bytes d \<le> USIZE_MAX" using assms(1) by (simp add: queue_ok_def USIZE_MAX_def)
  then have "cur_bytes d - cost (q d ! i) + c \<le> USIZE_MAX" using fit(4) by linarith
  then have "replace_prepared_item cost i v c d = Some d1"
    using i le by (simp add: replace_prepared_item_def checked_sub_def checked_add_def d1_def)
  moreover have "queue_ok cost d1"
  proof -
    have "cur_bytes d = sum_list (map cost (q d))" using assms(1) by (simp add: queue_ok_def)
    then have "cur_bytes d1 = sum_list (map cost (q d1))"
      using sum_list_update_nth [OF i, of cost v] le c by (simp add: d1_def)
    moreover have "cur_bytes d1 \<le> max_bytes d1" using fit(4) by (simp add: d1_def)
    ultimately show ?thesis using assms(1) by (simp add: queue_ok_def d1_def)
  qed
  moreover from this have "fits_prepared_batch (map snd rest) d1"
    using fit by (simp add: fits_prepared_batch_iff d1_def)
  ultimately show ?thesis
    using fold_insert_ok [of cost d1 rest priority_of] rest i mset_update_nth [OF i, of v]
    by (auto simp: replace_prepared_group_def vs d1_def)
qed

lemma update_admitted_ok:
  assumes "queue_ok cost d" "cost (update (q d ! i)) = c"
  shows "queue_ok cost (snd (update_admitted cost i c update d)) \<and>
    limits (snd (update_admitted cost i c update d)) = limits d"
proof -
  let ?used = "saturating_add (saturating_sub (cur_bytes d) (cost (q d ! i))) c"
  consider "i \<ge> length (q d) \<or> ?used > max_bytes d" | "i < length (q d)" "?used \<le> max_bytes d"
    by linarith
  then show ?thesis
  proof cases
    case 1
    then show ?thesis using assms by (auto simp: update_admitted_def Let_def simp del: saturating_sub_eq)
  next
    case 2
    have le: "cost (q d ! i) \<le> cur_bytes d"
      using assms(1) member_le_sum_list [of "cost (q d ! i)" "map cost (q d)"] 2(1) by (simp add: queue_ok_def)
    have "max_bytes d < USIZE_MAX"
      using assms(1) by (simp add: queue_ok_def USIZE_MAX_def)
    then have "?used = cur_bytes d - cost (q d ! i) + c"
      using 2(2) by (simp add: saturating_add_def)
    moreover have "cur_bytes d = sum_list (map cost (q d))" using assms(1) by (simp add: queue_ok_def)
    ultimately have "?used = sum_list (map cost ((q d)[i := update (q d ! i)]))"
      using sum_list_update_nth [OF 2(1), of cost "update (q d ! i)"] le assms(2) by linarith
    moreover have "snd (update_admitted cost i c update d) =
        d\<lparr>q := (q d)[i := update (q d ! i)], cur_bytes := ?used\<rparr>"
      using 2 by (simp add: update_admitted_def Let_def)
    ultimately show ?thesis
      using 2 assms(1) by (simp add: queue_ok_def del: saturating_sub_eq)
  qed
qed

lemma update_metadata_ok:
  assumes "queue_ok cost d" "\<And>x. cost (update x) = cost x"
  shows "queue_ok cost (update_metadata i update d) \<and> limits (update_metadata i update d) = limits d"
  using assms sum_list_update_nth [of i "q d" cost "update (q d ! i)"]
  by (auto simp: update_metadata_def queue_ok_def)

lemma remove_value_ok:
  "queue_ok cost d \<Longrightarrow> queue_ok cost (remove_value cost x d) \<and> limits (remove_value cost x d) = limits d"
  using remove_pos_ok [of cost d] by (auto simp: remove_value_def split: option.splits)

section \<open>Reachable queues\<close>

lemma lower_step_only_cursor:
  "select_front_fair_with_context mx priority_of eligible burst d = (r, b, d') \<Longrightarrow>
    d' = d\<lparr>fair_priority_cursor := fair_priority_cursor d'\<rparr>"
  by (auto simp: select_front_fair_with_context_def Let_def split: option.splits prod.splits if_splits)

text \<open>The fairness bookkeeping touches neither entries nor limits.\<close>

definition fair_frame :: "'a BoundedDeque \<Rightarrow> 'a BoundedDeque \<Rightarrow> bool" where
  "fair_frame d d' \<longleftrightarrow>
    d' = d\<lparr>fair_priority_cursor := fair_priority_cursor d', fair_owed_priority := fair_owed_priority d',
      fair_owed_flags := fair_owed_flags d'\<rparr>"

lemma fair_frame_ok:
  assumes "fair_frame d d'"
  shows "q d' = q d" "limits d' = limits d" "queue_ok cost d' = queue_ok cost d"
proof -
  obtain a b c where "d' = d\<lparr>fair_priority_cursor := a, fair_owed_priority := b, fair_owed_flags := c\<rparr>"
    using assms unfolding fair_frame_def by blast
  then show "q d' = q d" "limits d' = limits d" "queue_ok cost d' = queue_ok cost d"
    by (simp_all add: limits_def queue_ok_def)
qed

lemma fair_frame_updates [simp]:
  "fair_frame d d" "fair_frame d (d\<lparr>fair_priority_cursor := a\<rparr>)"
  "fair_frame d (d\<lparr>fair_owed_flags := f\<rparr>)"
  "fair_frame d (d\<lparr>fair_priority_cursor := a, fair_owed_flags := f\<rparr>)"
  by (simp_all add: fair_frame_def)

lemma select_fair_frame:
  "fair_frame d (snd (snd (select_front_fair_with_context mx priority_of eligible burst d)))"
  by (auto simp: select_front_fair_with_context_def Let_def split: option.splits prod.splits)

lemma fair_frame_trans: "fair_frame d d' \<Longrightarrow> fair_frame d' d'' \<Longrightarrow> fair_frame d d''"
  by (cases d; cases d'; cases d''; simp add: fair_frame_def)

lemma select_fallback_frame:
  "fair_frame d (snd (snd (select_deferred_fallback mx priority_of eligible burst d)))"
proof -
  obtain r b d' where sel: "select_front_fair_with_context mx priority_of eligible burst d = (r, b, d')"
    by (cases "select_front_fair_with_context mx priority_of eligible burst d")
  then have "fair_frame d d'"
    using select_fair_frame [of d mx priority_of eligible burst] by simp
  moreover have "fair_frame d' (d'\<lparr>fair_owed_priority := x, fair_owed_flags := y, fair_priority_cursor := z\<rparr>)" for x y z
    by (simp add: fair_frame_def)
  ultimately show ?thesis
    by (auto simp: select_deferred_fallback_def sel Let_def split: option.splits intro: fair_frame_trans)
qed

lemma select_deferred_frame:
  "fair_frame d (snd (snd (select_front_fair_deferred mx priority_of eligible burst d)))"
  using select_fallback_frame [of "d\<lparr>fair_owed_flags := 0\<rparr>" mx priority_of eligible burst]
    select_fallback_frame [of d mx priority_of eligible burst]
  by (auto simp: select_front_fair_deferred_def Let_def split: option.splits
      intro: fair_frame_trans [of d "d\<lparr>fair_owed_flags := 0\<rparr>"])

lemma finish_deferred_frame: "fair_frame d (snd (finish_deferred_turn p owns admitted retained burst d))"
  by (simp add: finish_deferred_turn_def Let_def fair_frame_def)

lemma pop_front_bulk_fair_ok:
  assumes "queue_ok cost d"
  shows "queue_ok cost (snd (snd (pop_front_bulk_fair cost mx priority_of burst d))) \<and>
    limits (snd (snd (pop_front_bulk_fair cost mx priority_of burst d))) = limits d"
proof (cases "q d")
  case Nil
  then show ?thesis using assms by (simp add: pop_front_bulk_fair_def)
next
  case (Cons x xs)
  define d1 d2 where "d1 = snd (pop_front cost d)"
    and "d2 = snd (remove_pos cost (length (takeWhile (\<lambda>y. priority_of y \<noteq> priority_of (last (q d))) (q d))) d)"
  have "snd (snd (pop_front_bulk_fair cost mx priority_of burst d)) \<in> {d1, d2}"
    using Cons by (simp add: pop_front_bulk_fair_def d1_def d2_def Let_def split: prod.split)
  then show ?thesis
    using pop_front_ok [OF assms] remove_pos_ok [OF assms] by (auto simp: d1_def d2_def)
qed

text \<open>One call of a public operation, with arguments the caller is allowed to give.\<close>

inductive queue_step :: "('a \<Rightarrow> nat) \<Rightarrow> 'a BoundedDeque \<Rightarrow> 'a BoundedDeque \<Rightarrow> bool" for cost where
  pop_front: "queue_step cost d (snd (pop_front cost d))"
| pop_back: "queue_step cost d (snd (pop_back cost d))"
| remove_pos: "queue_step cost d (snd (remove_pos cost i d))"
| remove_value: "queue_step cost d (remove_value cost x d)"
| clear: "queue_step cost d (queue_clear d)"
| retain: "queue_step cost d (snd (retain_observed cost keep d))"
| push_back: "grow_ok grow \<Longrightarrow> queue_step cost d (snd (push_back cost grow v d))"
| push_prioritized: "grow_ok grow \<Longrightarrow>
    queue_step cost d (snd (snd (push_back_prioritized_observed cost grow priority_of v d)))"
| push_select: "grow_ok grow \<Longrightarrow>
    queue_step cost d (snd (snd (push_back_prioritized_select cost grow priority_of victim v d)))"
| push_prepared: "push_prepared_batch_item v (cost v) p priority_of d = Some d' \<Longrightarrow> queue_step cost d d'"
| replace_group: "fits_replacement_group cost i (map snd vs) d \<Longrightarrow> \<forall>(v, c) \<in> set vs. c = cost v \<Longrightarrow>
    replace_prepared_group cost i vs priority_of d = Some d' \<Longrightarrow> queue_step cost d d'"
| update_admitted: "cost (update (q d ! i)) = c \<Longrightarrow> queue_step cost d (snd (update_admitted cost i c update d))"
| update_metadata: "(\<And>x. cost (update x) = cost x) \<Longrightarrow> queue_step cost d (update_metadata i update d)"
| bulk_fair: "queue_step cost d (snd (snd (pop_front_bulk_fair cost mx priority_of burst d)))"
| select_fair: "queue_step cost d (snd (snd (select_front_fair_with_context mx priority_of eligible burst d)))"
| select_deferred: "queue_step cost d (snd (snd (select_front_fair_deferred mx priority_of eligible burst d)))"
| cancel: "queue_step cost d (cancel_deferred_turn d)"
| finish: "queue_step cost d (snd (finish_deferred_turn p owns admitted retained burst d))"

lemma queue_keeps_observed:
  assumes "queue_ok cost d"
  shows "queue_ok cost (snd (retain_observed cost keep d)) \<and> limits (snd (retain_observed cost keep d)) = limits d"
    and "grow_ok grow \<Longrightarrow>
      queue_ok cost (snd (snd (push_back_prioritized_select cost grow priority_of victim v d))) \<and>
      limits (snd (snd (push_back_prioritized_select cost grow priority_of victim v d))) = limits d"
    and "queue_ok cost (cancel_deferred_turn d) \<and> limits (cancel_deferred_turn d) = limits d"
proof -
  show "queue_ok cost (snd (retain_observed cost keep d)) \<and> limits (snd (retain_observed cost keep d)) = limits d"
    using retain_observed_ok [OF assms, of keep "fst (retain_observed cost keep d)"
        "snd (retain_observed cost keep d)"] by simp
  obtain r ev d' where sel: "push_back_prioritized_select cost grow priority_of victim v d = (r, ev, d')"
    by (rule prod_cases3)
  show "grow_ok grow \<Longrightarrow>
      queue_ok cost (snd (snd (push_back_prioritized_select cost grow priority_of victim v d))) \<and>
      limits (snd (snd (push_back_prioritized_select cost grow priority_of victim v d))) = limits d"
    using push_back_prioritized_select_ok [OF assms _ sel] by (simp add: sel)
  show "queue_ok cost (cancel_deferred_turn d) \<and> limits (cancel_deferred_turn d) = limits d"
    using assms by (simp add: cancel_deferred_turn_def queue_ok_def limits_def)
qed

lemma queue_keeps_prepared:
  assumes "queue_ok cost d"
  shows "push_prepared_batch_item v (cost v) p priority_of d = Some d' \<Longrightarrow> queue_ok cost d' \<and> limits d' = limits d"
    and "fits_replacement_group cost i (map snd vs) d \<Longrightarrow> \<forall>(v, c) \<in> set vs. c = cost v \<Longrightarrow>
      replace_prepared_group cost i vs priority_of d = Some d' \<Longrightarrow> queue_ok cost d' \<and> limits d' = limits d"
proof -
  assume push: "push_prepared_batch_item v (cost v) p priority_of d = Some d'"
  then have "fits_prepared_batch [cost v] d"
    by (simp add: push_prepared_batch_item_def split: if_splits)
  with push show "queue_ok cost d' \<and> limits d' = limits d"
    using push_prepared_batch_item_ok [OF assms, of v "[]" p priority_of] by auto
next
  assume "fits_replacement_group cost i (map snd vs) d" "\<forall>(v, c) \<in> set vs. c = cost v"
    and rep: "replace_prepared_group cost i vs priority_of d = Some d'"
  from replace_prepared_group_ok [OF assms this(1,2), of priority_of] rep
  show "queue_ok cost d' \<and> limits d' = limits d" by force
qed

lemma queue_step_keeps:
  assumes "queue_step cost d d'" "queue_ok cost d"
  shows "queue_ok cost d' \<and> limits d' = limits d"
  using assms
proof induction
  case (push_prepared v p priority_of d d')
  from queue_keeps_prepared(1) [OF this(2,1)] show ?case .
next
  case (replace_group i vs d priority_of d')
  from queue_keeps_prepared(2) [OF this(4,1-3)] show ?case .
next
  case (update_metadata update d i)
  from update_metadata_ok [OF this(2,1)] show ?case .
next
  case (update_admitted update d i c)
  then show ?case
    by (intro update_admitted_ok [where cost = cost and update = update and d = d and i = i and c = c])
qed (simp_all add: pop_front_ok pop_back_ok remove_pos_ok remove_value_ok queue_clear_ok
    push_back_ok push_back_prioritized_ok pop_front_bulk_fair_ok queue_keeps_observed
    fair_frame_ok(2,3) [OF select_fair_frame] fair_frame_ok(2,3) [OF select_deferred_frame]
    fair_frame_ok(2,3) [OF finish_deferred_frame])

interpretation bq: stateful_component "queue_ok cost" limits "queue_step cost" for cost
  by unfold_locales (simp_all add: queue_step_keeps)

lemma snd_float_to_ratio: "snd (float_to_ratio bits) = 1024"
  by (simp add: float_to_ratio_def Let_def)

lemma queue_new_ok:
  assumes "queue_new probe reserve item_size mx start grow_mult = Some d" "mx < 2 ^ 63"
  shows "queue_ok cost d" "max_bytes d = mx" "max_elems d = max (mx div max item_size 1) 1"
proof -
  have d: "q d = []" "cur_bytes d = 0" "max_bytes d = mx" "max_elems d = max (mx div max item_size 1) 1"
      "grow_den d = snd (float_to_ratio grow_mult)"
    using assms(1) by (auto simp: queue_new_def Let_def split_beta split: if_splits)
  then show "queue_ok cost d" "max_bytes d = mx" "max_elems d = max (mx div max item_size 1) 1"
    using assms(2) by (simp_all add: queue_ok_def snd_float_to_ratio)
qed

section \<open>Fairness\<close>

lemma position_Some_iff:
  "position P xs = Some i \<longleftrightarrow> i < length xs \<and> P (xs ! i) \<and> (\<forall>j < i. \<not> P (xs ! j))"
proof (induction xs arbitrary: i)
  case (Cons x xs)
  show ?case
  proof (cases i)
    case (Suc k)
    then show ?thesis using Cons.IH [of k] by (auto simp: All_less_Suc2)
  qed simp
qed simp

lemma position_None_iff: "position P xs = None \<longleftrightarrow> (\<forall>x \<in> set xs. \<not> P x)"
  by (induction xs) auto

definition lower_candidate :: "('a \<Rightarrow> u8) \<Rightarrow> ('a \<Rightarrow> bool) \<Rightarrow> u8 \<Rightarrow> 'a \<Rightarrow> bool" where
  "lower_candidate priority_of eligible front_priority x \<longleftrightarrow> eligible x \<and> priority_of x < front_priority"

lemma lower_step_simps:
  "lower_step priority_of eligible cursor front fp (i, x) (l, lp, best) =
    (if lower_candidate priority_of eligible fp x \<and> (l = front \<or> cursor - priority_of x - 1 < best)
     then (i, priority_of x, cursor - priority_of x - 1) else (l, lp, best))"
  by (auto simp: lower_step_def lower_candidate_def Let_def not_le)

text \<open>The loop finds a candidate with the smallest cyclic distance below the cursor.\<close>

lemma fold_lower_step:
  assumes "\<forall>y \<in> set ys. fst y \<noteq> front"
  shows "(\<forall>y \<in> set ys. \<not> lower_candidate priority_of eligible fp (snd y)) \<and>
      fold (lower_step priority_of eligible cursor front fp) ys (front, fp, 255) = (front, fp, 255) \<or>
    (\<exists>y \<in> set ys. lower_candidate priority_of eligible fp (snd y) \<and>
      fold (lower_step priority_of eligible cursor front fp) ys (front, fp, 255) =
        (fst y, priority_of (snd y), cursor - priority_of (snd y) - 1) \<and>
      (\<forall>z \<in> set ys. lower_candidate priority_of eligible fp (snd z) \<longrightarrow>
        cursor - priority_of (snd y) - 1 \<le> cursor - priority_of (snd z) - 1))"
  using assms
proof (induction ys rule: rev_induct)
  case (snoc y ys)
  obtain i x where y: "y = (i, x)" by (cases y)
  have "\<forall>y \<in> set ys. fst y \<noteq> front" "i \<noteq> front" using snoc.prems y by auto
  from snoc.IH [OF this(1)] show ?case
  proof (elim disjE conjE bexE)
    assume none: "\<forall>y \<in> set ys. \<not> lower_candidate priority_of eligible fp (snd y)"
      and r: "fold (lower_step priority_of eligible cursor front fp) ys (front, fp, 255) = (front, fp, 255)"
    show ?case
    proof (cases "lower_candidate priority_of eligible fp x")
      case True
      with none r show ?thesis
        by (intro disjI2 bexI [of _ y]) (auto simp: y lower_step_simps)
    next
      case False
      with none r show ?thesis
        by (intro disjI1) (auto simp: y lower_step_simps)
    qed
  next
    fix z
    assume z: "z \<in> set ys" "lower_candidate priority_of eligible fp (snd z)"
      and r: "fold (lower_step priority_of eligible cursor front fp) ys (front, fp, 255) =
        (fst z, priority_of (snd z), cursor - priority_of (snd z) - 1)"
      and least: "\<forall>w \<in> set ys. lower_candidate priority_of eligible fp (snd w) \<longrightarrow>
        cursor - priority_of (snd z) - 1 \<le> cursor - priority_of (snd w) - 1"
    have ne: "fst z \<noteq> front" using snoc.prems z(1) by simp
    show ?case
    proof (cases "lower_candidate priority_of eligible fp x \<and>
        cursor - priority_of x - 1 < cursor - priority_of (snd z) - 1")
      case True
      then have "fold (lower_step priority_of eligible cursor front fp) (ys @ [y]) (front, fp, 255) =
          (i, priority_of x, cursor - priority_of x - 1)"
        using r by (simp add: y lower_step_simps)
      moreover have "\<forall>w \<in> set (ys @ [y]). lower_candidate priority_of eligible fp (snd w) \<longrightarrow>
          cursor - priority_of x - 1 \<le> cursor - priority_of (snd w) - 1"
        using least True y by (auto intro: less_imp_le less_le_trans)
      ultimately show ?thesis
        using True y by (intro disjI2 bexI [of _ y]) simp_all
    next
      case False
      then have "fold (lower_step priority_of eligible cursor front fp) (ys @ [y]) (front, fp, 255) =
          (fst z, priority_of (snd z), cursor - priority_of (snd z) - 1)"
        using r ne by (auto simp: y lower_step_simps)
      moreover have "\<forall>w \<in> set (ys @ [y]). lower_candidate priority_of eligible fp (snd w) \<longrightarrow>
          cursor - priority_of (snd z) - 1 \<le> cursor - priority_of (snd w) - 1"
        using least False y by (auto simp: not_less)
      ultimately show ?thesis
        using z by (intro disjI2 bexI [of _ z]) simp_all
    qed
  qed
qed simp

lemma set_drop_enumerate:
  "set (drop (Suc f) (enumerate 0 xs)) = {(j, xs ! j) | j. f < j \<and> j < length xs}"
proof -
  have "set (drop (Suc f) (enumerate 0 xs)) = {(j, xs ! j) | j. Suc f \<le> j \<and> j < length xs}"
  proof (rule set_eqI, rule iffI)
    fix y
    assume "y \<in> set (drop (Suc f) (enumerate 0 xs))"
    then obtain i where "i < length xs - Suc f" "y = drop (Suc f) (enumerate 0 xs) ! i"
      by (auto simp: in_set_conv_nth)
    then show "y \<in> {(j, xs ! j) | j. Suc f \<le> j \<and> j < length xs}"
      by (auto simp: nth_enumerate_eq)
  next
    fix y
    assume "y \<in> {(j, xs ! j) | j. Suc f \<le> j \<and> j < length xs}"
    then obtain j where "Suc f \<le> j" "j < length xs" "y = (j, xs ! j)" by blast
    then show "y \<in> set (drop (Suc f) (enumerate 0 xs))"
      by (auto simp: in_set_conv_nth nth_enumerate_eq intro!: exI [of _ "j - Suc f"])
  qed
  then show ?thesis by (simp add: Suc_le_eq)
qed

lemma select_fair_cases:
  fixes d :: "'a BoundedDeque"
  obtains (none) "\<forall>x \<in> set (q d). \<not> eligible (q d) x"
      "select_front_fair_with_context mx priority_of eligible burst d = (None, burst, d)"
  | (alone) f where "position (eligible (q d)) (q d) = Some f"
      "\<forall>j. f < j \<and> j < length (q d) \<longrightarrow>
        \<not> lower_candidate priority_of (eligible (q d)) (priority_of (q d ! f)) (q d ! j)"
      "select_front_fair_with_context mx priority_of eligible burst d = (Some f, 0, d)"
  | (front) f j where "position (eligible (q d)) (q d) = Some f" "f < j" "j < length (q d)"
      "lower_candidate priority_of (eligible (q d)) (priority_of (q d ! f)) (q d ! j)" "burst < mx"
      "select_front_fair_with_context mx priority_of eligible burst d = (Some f, burst + 1, d)"
  | (lower) f j where "position (eligible (q d)) (q d) = Some f" "f < j" "j < length (q d)"
      "lower_candidate priority_of (eligible (q d)) (priority_of (q d ! f)) (q d ! j)" "mx \<le> burst"
      "\<forall>i. f < i \<and> i < length (q d) \<and>
        lower_candidate priority_of (eligible (q d)) (priority_of (q d ! f)) (q d ! i) \<longrightarrow>
        fair_priority_cursor d - priority_of (q d ! j) - 1 \<le> fair_priority_cursor d - priority_of (q d ! i) - 1"
      "select_front_fair_with_context mx priority_of eligible burst d =
        (Some j, 0, d\<lparr>fair_priority_cursor := priority_of (q d ! j)\<rparr>)"
proof (cases "position (eligible (q d)) (q d)")
  case None
  then show thesis
    by (intro none) (simp_all add: select_front_fair_with_context_def flip: position_None_iff)
next
  case (Some f)
  let ?fp = "priority_of (q d ! f)"
  let ?ys = "drop (Suc f) (enumerate 0 (q d))"
  let ?cand = "lower_candidate priority_of (eligible (q d)) ?fp"
  define r where "r = fold (lower_step priority_of (eligible (q d)) (fair_priority_cursor d) f ?fp) ?ys (f, ?fp, 255)"
  have sel: "select_front_fair_with_context mx priority_of eligible burst d =
      (if fst r \<noteq> f \<and> burst \<ge> mx then (Some (fst r), 0, d\<lparr>fair_priority_cursor := fst (snd r)\<rparr>)
       else if fst r \<noteq> f then (Some f, sat_inc burst, d) else (Some f, 0, d))"
    using Some by (simp add: select_front_fair_with_context_def r_def Let_def split_beta)
  have "\<forall>y \<in> set ?ys. fst y \<noteq> f" by (auto simp: set_drop_enumerate)
  from fold_lower_step [OF this, of priority_of "eligible (q d)" ?fp "fair_priority_cursor d", folded r_def]
  show thesis
  proof (elim disjE conjE bexE)
    assume "\<forall>y \<in> set ?ys. \<not> ?cand (snd y)" "r = (f, ?fp, 255)"
    then show thesis using Some sel by (intro alone [of f]) (auto simp: set_drop_enumerate)
  next
    fix y
    assume y: "y \<in> set ?ys" "?cand (snd y)"
      and r: "r = (fst y, priority_of (snd y), fair_priority_cursor d - priority_of (snd y) - 1)"
      and least: "\<forall>z \<in> set ?ys. ?cand (snd z) \<longrightarrow>
        fair_priority_cursor d - priority_of (snd y) - 1 \<le> fair_priority_cursor d - priority_of (snd z) - 1"
    obtain j where j: "y = (j, q d ! j)" "f < j" "j < length (q d)"
      using y(1) by (auto simp: set_drop_enumerate)
    show thesis
    proof (cases "mx \<le> burst")
      case True
      have "\<forall>i. f < i \<and> i < length (q d) \<and> ?cand (q d ! i) \<longrightarrow>
          fair_priority_cursor d - priority_of (q d ! j) - 1 \<le> fair_priority_cursor d - priority_of (q d ! i) - 1"
        using least j(1) by (auto simp: set_drop_enumerate)
      with True show thesis using Some sel r y(2) j by (intro lower [of f j]) simp_all
    next
      case False
      then have "sat_inc burst = burst + 1"
        by (auto simp: sat_inc_def)
      with False show thesis using Some sel r y(2) j by (intro front [of f j]) simp_all
    qed
  qed
qed

text \<open>Repeated selection from queues whose contents may change arbitrarily in between:
  each entry of the list is the content and the eligibility test of one turn.  The result
  is the priority served at each turn.\<close>

fun select_run ::
  "u8 \<Rightarrow> ('a \<Rightarrow> u8) \<Rightarrow> ('a list \<times> ('a \<Rightarrow> bool)) list \<Rightarrow> u8 \<Rightarrow> 'a BoundedDeque \<Rightarrow> u8 list" where
  "select_run mx priority_of [] burst d = []"
| "select_run mx priority_of ((xs, el) # turns) burst d =
    (case select_front_fair_with_context mx priority_of (\<lambda>_. el) burst (d\<lparr>q := xs\<rparr>) of
      (None, b, d') \<Rightarrow> select_run mx priority_of turns b d'
    | (Some i, b, d') \<Rightarrow> priority_of (xs ! i) # select_run mx priority_of turns b d')"

text \<open>Priority \<^verbatim>\<open>b\<close> waits behind a higher one.\<close>

definition waiting :: "('a \<Rightarrow> u8) \<Rightarrow> u8 \<Rightarrow> 'a list \<times> ('a \<Rightarrow> bool) \<Rightarrow> bool" where
  "waiting priority_of b turn \<longleftrightarrow>
    (case turn of (xs, el) \<Rightarrow>
      list_ex (\<lambda>x. el x \<and> priority_of x = b) xs \<and>
      (case position el xs of None \<Rightarrow> False | Some f \<Rightarrow> b < priority_of (xs ! f)))"

definition cyclic_distance :: "u8 \<Rightarrow> u8 \<Rightarrow> nat" where
  "cyclic_distance cursor b = unat (cursor - b - 1)"

lemma cyclic_distance_step:
  assumes "cursor - p - 1 \<le> cursor - b - 1" "p \<noteq> b"
  shows "cyclic_distance p b < cyclic_distance cursor b"
proof -
  let ?X = "cursor - b - 1" and ?Y = "cursor - p - 1"
  have "?Y \<noteq> ?X" using assms(2) by simp
  with assms(1) have less: "?Y < ?X" by (rule le_neq_trans)
  have "p - b - 1 = ?X - ?Y - 1" by simp
  moreover have "unat (?X - ?Y) = unat ?X - unat ?Y" using less by (intro unat_sub) simp
  moreover have "unat (?X - ?Y) \<noteq> 0" using assms(2) by (simp add: unat_eq_0)
  ultimately have "unat (p - b - 1) = unat ?X - unat ?Y - 1"
    by (metis unat_minus_one unat_eq_0)
  then show ?thesis
    using less by (simp add: cyclic_distance_def word_less_nat_alt)
qed

lemma select_run_serves:
  assumes "\<forall>t \<in> set turns. waiting priority_of b t"
    and "cyclic_distance (fair_priority_cursor d) b * (unat mx + 1) + (unat mx - unat burst) < length turns"
  shows "b \<in> set (select_run mx priority_of turns burst d)"
  using assms
proof (induction turns arbitrary: burst d)
  case (Cons t turns)
  obtain xs el where t: "t = (xs, el)" by (cases t)
  let ?d = "d\<lparr>q := xs\<rparr>"
  have w: "waiting priority_of b (xs, el)" and ws: "\<forall>t \<in> set turns. waiting priority_of b t"
    using Cons.prems(1) t by auto
  then obtain x f where x: "x \<in> set xs" "el x" "priority_of x = b"
    and f: "position el xs = Some f" "b < priority_of (xs ! f)"
    by (auto simp: waiting_def list_ex_iff split: option.splits)
  obtain k where k: "k < length xs" "xs ! k = x" using x(1) by (auto simp: in_set_conv_nth)
  have "f < k"
  proof -
    have "\<not> k < f" using f(1) k x(2) by (auto simp: position_Some_iff)
    moreover have "k \<noteq> f" using f(2) k x(3) by auto
    ultimately show ?thesis by simp
  qed
  have cand: "lower_candidate priority_of el (priority_of (xs ! f)) (xs ! k)"
    using k x f by (simp add: lower_candidate_def)
  show ?case
  proof (cases rule: select_fair_cases [of ?d "\<lambda>_. el" mx priority_of burst])
    case none
    then show ?thesis using x by simp
  next
    case (alone f')
    then show ?thesis using f(1) \<open>f < k\<close> k(1) cand by auto
  next
    case (front f' j)
    have "unat (burst + 1) = unat burst + 1" "unat burst < unat mx"
      using \<open>burst < mx\<close> unsigned_less [of mx, where ?'a = nat]
      by (auto simp: word_less_nat_alt unat_word_ariths)
    then have "b \<in> set (select_run mx priority_of turns (burst + 1) ?d)"
      using Cons.prems(2) by (intro Cons.IH ws) simp
    then show ?thesis using front(6) by (simp add: t)
  next
    case (lower f' j)
    show ?thesis
    proof (cases "priority_of (xs ! j) = b")
      case True
      then show ?thesis using lower(7) by (simp add: t)
    next
      case False
      have "f' = f" using lower(1) f(1) by simp
      then have "fair_priority_cursor d - priority_of (xs ! j) - 1 \<le> fair_priority_cursor d - b - 1"
        using lower(6) [rule_format, of k] \<open>f < k\<close> k cand x(3) by simp
      from cyclic_distance_step [OF this False]
      obtain m where m: "cyclic_distance (fair_priority_cursor d) b =
          Suc (cyclic_distance (priority_of (xs ! j)) b) + m"
        using less_iff_Suc_add by auto
      have "b \<in> set (select_run mx priority_of turns 0 (?d\<lparr>fair_priority_cursor := priority_of (xs ! j)\<rparr>))"
        using Cons.prems(2) m by (intro Cons.IH ws) (simp add: algebra_simps)
      then show ?thesis using lower(7) by (simp add: t)
    qed
  qed
qed simp

section \<open>Properties\<close>

text \<open>C7: from construction on, whatever operations are called, the byte counter is the
  exact sum of the queued costs and never exceeds the budget, and the number of entries
  stays within the element limit and the allocated ring.\<close>

theorem queue_within_budget:
  assumes "queue_new probe reserve item_size mx start grow_mult = Some d0" "mx < 2 ^ 63"
    and "(queue_step cost)\<^sup>*\<^sup>* d0 d"
  shows "cur_bytes d = sum_list (map cost (q d)) \<and> cur_bytes d \<le> mx \<and>
    length (q d) \<le> max (mx div max item_size 1) 1 \<and> length (q d) \<le> cap d"
proof -
  note new = queue_new_ok [OF assms(1,2)]
  have "queue_ok cost d" using bq.run_inv [OF assms(3) new(1)] .
  moreover have "limits d = limits d0" using bq.run_config [OF assms(3) new(1)] .
  ultimately show ?thesis using new(2,3) limits_eqD [of d d0] by (simp add: queue_ok_def)
qed

abbreviation example_new :: "nat BoundedDeque option" where
  "example_new \<equiv> queue_new (\<lambda>_. True) Some 8 64 16 0x4000000000000000"

theorem queue_within_budget_witness:
  "\<exists>d0. example_new = Some d0 \<and>
    cur_bytes (snd (push_back id (\<lambda>_. Some) 10 d0)) \<le> 64 \<and> q (snd (push_back id (\<lambda>_. Some) 10 d0)) = [10]"
proof -
  obtain d0 where d0: "example_new = Some d0" "q d0 = []" "cap d0 \<noteq> 0" "max_bytes d0 = 64" "cur_bytes d0 = 0"
      "max_elems d0 = 8"
    by (simp add: queue_new_def f64_lt_one_def f64_is_nan_def Let_def split_beta allocate_initial_ring.simps
        admitted_initial_capacity.simps)
  have "grow_ok (\<lambda>_. Some)" by (simp add: grow_ok_def)
  then have step: "(queue_step id)\<^sup>*\<^sup>* d0 (snd (push_back id (\<lambda>_. Some) 10 d0))"
    by (intro r_into_rtranclp queue_step.push_back)
  have "q (snd (push_back id (\<lambda>_. Some) 10 d0)) = [10]"
    using d0 by (simp add: push_back_def prepare_push_fifo_def evict_front.simps ensure_room_for_one_def)
  with queue_within_budget [OF d0(1) _ step] d0(1) show ?thesis by simp
qed

text \<open>C27: a FIFO push is refused, leaving the queue as it was, only when the queue has no
  ring or the item alone exceeds the budget.  Otherwise the item becomes the last entry,
  the survivors are the youngest entries in their order, and no entry is dropped
  without need: with the last dropped one kept, a limit would be exceeded.\<close>

theorem push_back_fifo:
  assumes "queue_ok cost d" "grow_ok grow"
  shows "if cap d = 0 then push_back cost grow v d = (queue_unavailable, d)
    else if cost v > max_bytes d then push_back cost grow v d = (item_too_large, d)
    else \<exists>k d'. push_back cost grow v d = (Ok (), d') \<and> k \<le> length (q d) \<and>
      q d' = drop k (q d) @ [v] \<and> (k = 0 \<or> crowded cost (cost v) d (drop (k - 1) (q d)))"
proof (cases "cap d = 0 \<or> cost v > max_bytes d")
  case True
  then show ?thesis by (auto simp: push_back_refused)
next
  case False
  then obtain k d' where "push_back cost grow v d = (Ok (), d')" "k \<le> length (q d)"
      "q d' = drop k (q d) @ [v]" "0 < k \<longrightarrow> crowded cost (cost v) d (drop (k - 1) (q d))"
    using push_back_spec [OF assms, of v] by auto
  then have "\<exists>k d'. push_back cost grow v d = (Ok (), d') \<and> k \<le> length (q d) \<and>
      q d' = drop k (q d) @ [v] \<and> (k = 0 \<or> crowded cost (cost v) d (drop (k - 1) (q d)))"
    by (intro exI [of _ k] exI [of _ d']) auto
  with False show ?thesis by simp
qed

definition example_queue :: "(nat \<times> u8) list \<Rightarrow> (nat \<times> u8) BoundedDeque" where
  "example_queue xs =
    \<lparr>q = xs, cap = 4, max_bytes = 20, cur_bytes = sum_list (map fst xs), max_elems = 3, grow_num = 2048,
     grow_den = 1024, fixed_capacity = False, fair_priority_cursor = 255, fair_owed_priority = 0,
     fair_owed_flags = 0\<rparr>"

lemma example_queue_fields [simp]:
  "q (example_queue xs) = xs" "cap (example_queue xs) = 4" "max_bytes (example_queue xs) = 20"
  by (simp_all add: example_queue_def)

lemma example_queue_ok:
  "sum_list (map fst xs) \<le> 20 \<Longrightarrow> length xs \<le> 3 \<Longrightarrow> queue_ok fst (example_queue xs)"
  "grow_ok (\<lambda>_. Some)"
  by (simp_all add: example_queue_def queue_ok_def grow_ok_def)

theorem push_back_fifo_witness:
  "\<exists>k d'. push_back fst (\<lambda>_. Some) (12, 3) (example_queue [(6, 3), (6, 3), (2, 3)]) = (Ok (), d') \<and>
    k \<le> length (q (example_queue [(6, 3), (6, 3), (2, 3)])) \<and>
    q d' = drop k (q (example_queue [(6, 3), (6, 3), (2, 3)])) @ [(12, 3)] \<and>
    (k = 0 \<or> crowded fst (fst (12, 3 :: u8)) (example_queue [(6, 3), (6, 3), (2, 3)])
      (drop (k - 1) (q (example_queue [(6, 3), (6, 3), (2, 3)]))))"
  using push_back_fifo [OF example_queue_ok, of "[(6, 3), (6, 3), (2, 3)]" "(12, 3)"] by simp

text \<open>C19: on a queue in descending priority order, a priority push either admits the item
  behind every entry of at least its priority and keeps the order, or reports a saturated
  queue.  Either way only a tail of the queue is dropped, every dropped entry yields to the
  new priority (an equal one too, except at priority 254), each is reported once, and the
  refusal means that an entry that does not yield stands in the way.\<close>

theorem push_back_prioritized_order:
  assumes "queue_ok cost d" "grow_ok grow" "0 < cap d" "cost v \<le> max_bytes d" "descending priority_of (q d)"
  shows "\<exists>n r d'. push_back_prioritized_observed cost grow priority_of v d = (r, rev (drop n (q d)), d') \<and>
    n \<le> length (q d) \<and> list_all (\<lambda>x. yields (priority_of v) (priority_of x)) (drop n (q d)) \<and>
    descending priority_of (q d') \<and>
    (r = Ok () \<and>
       q d' = takeWhile (\<lambda>x. priority_of v \<le> priority_of x) (take n (q d)) @ v #
         dropWhile (\<lambda>x. priority_of v \<le> priority_of x) (take n (q d)) \<and>
       (n = length (q d) \<or> crowded cost (cost v) d (take (Suc n) (q d))) \<or>
     r = queue_saturated \<and> q d' = take n (q d) \<and> 0 < n \<and>
       \<not> yields (priority_of v) (priority_of (q d ! (n - 1))) \<and> crowded cost (cost v) d (take n (q d)))"
  using assms(1-4)
proof (cases rule: push_back_prioritized_cases [where priority_of = priority_of])
  case (admitted n d')
  have "descending priority_of (q d')"
    using descending_take [OF assms(5)] admitted(2) by simp
  note ins = insert_prioritized_prepared_eq [OF this] insert_prioritized_descending [OF this]
  show ?thesis
    by (rule exI [of _ n], rule exI [of _ "Ok ()"], rule exI)
      (use admitted ins in \<open>auto simp: le_less\<close>)
next
  case (saturated n d')
  then show ?thesis
    using descending_take [OF assms(5)]
    by (intro exI [of _ n] exI [of _ queue_saturated] exI [of _ d']) simp
qed

theorem push_back_prioritized_order_witness:
  "\<exists>n r d'. push_back_prioritized_observed fst (\<lambda>_. Some) snd (12, 7) (example_queue [(6, 9), (6, 3), (1, 3)]) =
     (r, rev (drop n (q (example_queue [(6, 9), (6, 3), (1, 3)]))), d') \<and> descending snd (q d')"
  using push_back_prioritized_order [OF example_queue_ok, of "[(6, 9), (6, 3), (1, 3)]" "(12, 7)" snd]
  by (simp add: descending_def) blast

text \<open>C18: bounded waiting.  However the queue and the eligibility of its entries change
  between turns, a priority that at every turn has a ready entry behind a higher one is
  served within 256 times the burst limit plus one turns.\<close>

theorem select_front_fair_bounded_waiting:
  assumes "\<forall>t \<in> set turns. waiting priority_of b t" "256 * (unat mx + 1) \<le> length turns"
  shows "b \<in> set (select_run mx priority_of turns burst d)"
proof (rule select_run_serves [OF assms(1)])
  have "cyclic_distance (fair_priority_cursor d) b \<le> 255"
    using unsigned_less [of "fair_priority_cursor d - b - 1", where ?'a = nat] by (simp add: cyclic_distance_def)
  then have "cyclic_distance (fair_priority_cursor d) b * (unat mx + 1) \<le> 255 * (unat mx + 1)"
    by (rule mult_le_mono1)
  with assms(2) show "cyclic_distance (fair_priority_cursor d) b * (unat mx + 1) + (unat mx - unat burst) < length turns"
    by simp
qed

theorem select_front_fair_bounded_waiting_witness:
  "3 \<in> set (select_run 4 id (replicate 1280 ([9, 7, 3], \<lambda>_. True)) 0 (the (queue_new (\<lambda>_. True) Some 8 64 16 0)))"
proof (rule select_front_fair_bounded_waiting)
  have "waiting id 3 ([9, 7, 3 :: u8], \<lambda>_. True)" by (simp add: waiting_def)
  then show "\<forall>t \<in> set (replicate 1280 ([9, 7, 3], \<lambda>_. True)). waiting id 3 t"
    by (metis in_set_replicate)
qed simp

text \<open>C20: a batch that passes the check as a whole is committed without a failed assertion
  and without an eviction: afterwards the queue holds exactly the old entries and the
  batch, in priority order.\<close>

theorem prepared_batch_commits:
  assumes "queue_ok cost d" "fits_prepared_batch (map cost vs) d" "descending priority_of (q d)"
  shows "\<exists>d'. commit_batch cost priority_of vs d = Some d' \<and> queue_ok cost d' \<and> cap d' = cap d \<and>
    mset (q d') = mset (q d) + mset vs \<and> descending priority_of (q d')"
  using commit_batch_ok [OF assms(1,2), of priority_of] assms(3) by blast

theorem prepared_batch_commits_witness:
  "\<exists>d'. commit_batch fst snd [(5, 9), (2, 1)] (example_queue [(6, 3)]) = Some d' \<and>
    mset (q d') = {#(6, 3), (5, 9), (2, 1)#}"
  using prepared_batch_commits [of fst "example_queue [(6, 3)]" "[(5, 9), (2, 1)]" snd]
  by (auto simp: example_queue_def queue_ok_def fits_prepared_batch_def checked_add_def USIZE_MAX_def)

end
