(* ===== verification/Heap_Sort.thy ===== *)
theory Heap_Sort
  imports Prelude "HOL-Library.Multiset"
begin

text \<open>
  The in-place heapsort of the embedded build (\<^verbatim>\<open>src/src/small_sort.rs\<close>) on lists updated
  by index, and its agreement with the sorting function the hosted build calls.  All
  index computations stay below the given end, so no access is out of range.
\<close>

section \<open>Definitions\<close>

definition swap :: "'a list \<Rightarrow> nat \<Rightarrow> nat \<Rightarrow> 'a list" where
  "swap v a b = (let pa = v ! a; pb = v ! b in (v[a := pb])[b := pa])"

text \<open>The larger child of \<^verbatim>\<open>root\<close>, the left one when they are equal.\<close>

definition larger_child :: "'a::linorder list \<Rightarrow> nat \<Rightarrow> nat \<Rightarrow> nat" where
  "larger_child xs root e =
    (let child = root * 2 + 1 in
     if child + 1 < e \<and> xs ! child < xs ! (child + 1) then child + 1 else child)"

function sift :: "'a::linorder list \<Rightarrow> nat \<Rightarrow> nat \<Rightarrow> 'a list" where
  "sift xs root e =
    (if root < e div 2 then
       let child = larger_child xs root e in
       if xs ! root \<ge> xs ! child then xs else sift (swap xs root child) child e
     else xs)"
  by pat_completeness auto
termination
  by (relation "measure (\<lambda>(_, root, e). e - root)") (auto simp: larger_child_def Let_def)

declare sift.simps [simp del]

definition build_heap :: "'a::linorder list \<Rightarrow> 'a list" where
  "build_heap xs = fold (\<lambda>root xs. sift xs root (length xs)) (rev [0..<length xs div 2]) xs"

definition extract_step :: "nat \<Rightarrow> 'a::linorder list \<Rightarrow> 'a list" where
  "extract_step e xs = sift (swap xs 0 e) 0 e"

definition heap_sort :: "'a::linorder list \<Rightarrow> 'a list" where
  "heap_sort xs = fold extract_step (rev [1..<length xs]) (build_heap xs)"

text \<open>\<^verbatim>\<open>small_sort::sort\<close>: the hosted build calls \<^verbatim>\<open>sort_unstable\<close>, which orders the slice.\<close>

definition small_sort :: "bool \<Rightarrow> 'a::linorder list \<Rightarrow> 'a list" where
  "small_sort embedded xs = (if embedded then heap_sort xs else sort xs)"

section \<open>Permutation\<close>

text \<open>Where an index reads from after a swap.\<close>

definition swapped_index :: "nat \<Rightarrow> nat \<Rightarrow> nat \<Rightarrow> nat" where
  "swapped_index a b k = (if k = b then a else if k = a then b else k)"

lemma swap_length [simp]: "length (swap v a b) = length v"
  unfolding swap_def Let_def length_list_update ..

lemma swap_reads:
  assumes "a < length v" "b < length v"
  shows "swap v a b ! k = v ! swapped_index a b k"
proof (cases "k = b")
  case True
  with assms show ?thesis by (simp add: swap_def swapped_index_def Let_def)
next
  case False
  with assms show ?thesis by (cases "k = a") (simp_all add: swap_def swapped_index_def Let_def)
qed

lemmas nth_swap = swap_reads [unfolded swapped_index_def]

lemma swap_permutes [simp]:
  assumes "a < length v" and "b < length v"
  shows "mset (swap v a b) = mset v"
  using assms by (cases "a = b") (simp_all add: swap_def Let_def mset_swap)

lemma larger_child_bounds:
  assumes "root < e div 2"
  shows "root < larger_child xs root e" "larger_child xs root e < e"
  using assms by (auto simp: larger_child_def Let_def)

text \<open>Sifting permutes the entries below the end and leaves the others in place.\<close>

lemma sift_frame:
  assumes "e \<le> length xs"
  shows "length (sift xs root e) = length xs" "mset (sift xs root e) = mset xs"
    "drop e (sift xs root e) = drop e xs"
proof -
  have "length (sift xs root e) = length xs \<and> mset (sift xs root e) = mset xs \<and>
      drop e (sift xs root e) = drop e xs"
    using assms
  proof (induction xs root e rule: sift.induct)
    case (1 xs root e)
    show ?case
    proof (cases "root < e div 2 \<and> \<not> xs ! root \<ge> xs ! larger_child xs root e")
      case False
      then have "sift xs root e = xs" by (subst sift.simps) (auto simp: Let_def)
      then show ?thesis by simp
    next
      case True
      let ?c = "larger_child xs root e"
      have c: "root < ?c" "?c < e" using larger_child_bounds True by blast+
      have "sift xs root e = sift (swap xs root ?c) ?c e"
        using True by (subst sift.simps) (simp add: Let_def)
      moreover have "drop e (swap xs root ?c) = drop e xs"
        using c by (simp add: swap_def)
      ultimately show ?thesis using 1 True c by simp
    qed
  qed
  then show "length (sift xs root e) = length xs" "mset (sift xs root e) = mset xs"
    "drop e (sift xs root e) = drop e xs" by simp_all
qed

section \<open>The heap property\<close>

abbreviation parent :: "nat \<Rightarrow> nat" where
  "parent j \<equiv> (j - 1) div 2"

definition is_heap :: "nat \<Rightarrow> nat \<Rightarrow> 'a::linorder list \<Rightarrow> bool" where
  "is_heap lo e xs \<longleftrightarrow> (\<forall>j. 0 < j \<and> j < e \<and> lo \<le> parent j \<longrightarrow> xs ! j \<le> xs ! parent j)"

text \<open>A heap except that \<^verbatim>\<open>r\<close> may be smaller than its children.\<close>

definition almost_heap :: "nat \<Rightarrow> nat \<Rightarrow> nat \<Rightarrow> 'a::linorder list \<Rightarrow> bool" where
  "almost_heap lo e r xs \<longleftrightarrow>
    (\<forall>j. 0 < j \<and> j < e \<and> lo \<le> parent j \<and> parent j \<noteq> r \<longrightarrow> xs ! j \<le> xs ! parent j) \<and>
    (\<forall>j. 0 < j \<and> j < e \<and> parent j = r \<and> 0 < r \<and> lo \<le> parent r \<longrightarrow> xs ! j \<le> xs ! parent r)"

lemma parent_child: "0 < j \<Longrightarrow> parent j = r \<longleftrightarrow> j = 2 * r + 1 \<or> j = 2 * r + 2"
  by presburger

lemma larger_child_max:
  assumes "root < e div 2" "0 < j" "j < e" "parent j = root"
  shows "xs ! j \<le> xs ! larger_child xs root e"
  using assms parent_child [of j root]
  by (auto simp: larger_child_def Let_def mult.commute)

lemma parent_larger_child [simp]: "(larger_child xs root e - Suc 0) div 2 = root"
  by (simp add: larger_child_def Let_def)

lemma sift_is_heap:
  assumes "almost_heap lo e root xs" "e \<le> length xs" "lo \<le> root"
  shows "is_heap lo e (sift xs root e)"
  using assms
proof (induction xs root e rule: sift.induct)
  case (1 xs root e)
  let ?c = "larger_child xs root e"
  show ?case
  proof (cases "root < e div 2 \<and> \<not> xs ! root \<ge> xs ! ?c")
    case True
    then have less: "xs ! root < xs ! ?c" by (simp add: not_le)
    have c: "root < ?c" "?c < e" using larger_child_bounds True by blast+
    define ys where "ys = swap xs root ?c"
    have ys: "ys ! k = (if k = root then xs ! ?c else if k = ?c then xs ! root else xs ! k)" for k
      using c "1.prems"(2) by (simp add: ys_def nth_swap)
    have eq: "sift xs root e = sift ys ?c e"
      using True by (subst sift.simps) (simp add: Let_def ys_def)
    have "almost_heap lo e ?c ys"
      unfolding almost_heap_def
    proof (intro conjI allI impI; elim conjE)
      fix j
      assume j: "0 < j" "j < e" "lo \<le> parent j" "parent j \<noteq> ?c"
      show "ys ! j \<le> ys ! parent j"
      proof (cases "parent j = root")
        case True
        then have "xs ! j \<le> xs ! ?c" using larger_child_max j \<open>root < e div 2 \<and> _\<close> by blast
        with True less j(1) show ?thesis by (auto simp: ys)
      next
        case False
        then have old: "xs ! j \<le> xs ! parent j" using "1.prems"(1) j by (simp add: almost_heap_def)
        have "j \<noteq> ?c" using False by auto
        show ?thesis
        proof (cases "j = root")
          case True
          have "xs ! ?c \<le> xs ! parent root"
            using "1.prems"(1) c j True by (simp add: almost_heap_def)
          with True False j(1) show ?thesis using j(4) by (simp add: ys)
        next
          case False
          then show ?thesis
            using old \<open>j \<noteq> ?c\<close> \<open>parent j \<noteq> root\<close> j(4) by (simp add: ys)
        qed
      qed
    next
      fix j
      assume j: "0 < j" "j < e" "parent j = ?c" "0 < ?c" "lo \<le> parent ?c"
      have "j \<noteq> root" "j \<noteq> ?c" using c j by auto
      moreover have "xs ! j \<le> xs ! parent j"
        using "1.prems"(1,3) j(1,2) unfolding almost_heap_def j(3)
        using c(1) j(3) by auto
      then have "xs ! j \<le> xs ! ?c" by (simp only: j(3))
      ultimately show "ys ! j \<le> ys ! parent ?c" by (simp add: ys)
    qed
    then have "is_heap lo e (sift ys ?c e)"
      using 1 True c unfolding ys_def by (simp add: less_imp_le)
    then show ?thesis by (simp add: eq)
  next
    case False
    then have "sift xs root e = xs" by (subst sift.simps) (auto simp: Let_def)
    moreover have "is_heap lo e xs"
      unfolding is_heap_def
    proof (intro allI impI; elim conjE)
      fix j
      assume j: "0 < j" "j < e" "lo \<le> parent j"
      show "xs ! j \<le> xs ! parent j"
      proof (cases "parent j = root")
        case True
        then have "root < e div 2" using j by auto
        then show ?thesis
          using False larger_child_max [OF _ j(1,2) True, of xs] True by auto
      qed (use "1.prems"(1) j in \<open>simp add: almost_heap_def\<close>)
    qed
    ultimately show ?thesis by simp
  qed
qed

lemma is_heap_max:
  assumes "is_heap 0 e xs" "j < e"
  shows "xs ! j \<le> xs ! 0"
  using assms(2)
proof (induction j rule: less_induct)
  case (less j)
  show ?case
  proof (cases "j = 0")
    case False
    then have "parent j < j" by auto
    with less have "xs ! parent j \<le> xs ! 0" by simp
    moreover have "xs ! j \<le> xs ! parent j"
      using assms(1) False less.prems by (simp add: is_heap_def)
    ultimately show ?thesis by simp
  qed simp
qed

section \<open>The two loops\<close>

lemma almost_heap_below: "is_heap (Suc r) e xs \<Longrightarrow> almost_heap r e r xs"
  by (auto simp: is_heap_def almost_heap_def)

lemma build_heap_loop:
  assumes "is_heap n (length xs) xs"
  shows "is_heap 0 (length xs) (fold (\<lambda>root xs. sift xs root (length xs)) (rev [0..<n]) xs) \<and>
    mset (fold (\<lambda>root xs. sift xs root (length xs)) (rev [0..<n]) xs) = mset xs"
  using assms
proof (induction n arbitrary: xs)
  case (Suc n)
  let ?ys = "sift xs n (length xs)"
  have "is_heap n (length ?ys) ?ys"
    using sift_is_heap [OF almost_heap_below [OF Suc.prems]] by (simp add: sift_frame(1))
  from Suc.IH [OF this] show ?case by (simp add: sift_frame)
qed simp

lemma build_heap_ok: "is_heap 0 (length xs) (build_heap xs)" "mset (build_heap xs) = mset xs"
proof -
  have "is_heap (length xs div 2) (length xs) xs" by (auto simp: is_heap_def)
  from build_heap_loop [OF this] show "is_heap 0 (length xs) (build_heap xs)" "mset (build_heap xs) = mset xs"
    by (simp_all add: build_heap_def)
qed

text \<open>After the entries from \<^verbatim>\<open>e\<close> on are extracted they are the largest, in order.\<close>

definition extracted :: "nat \<Rightarrow> 'a::linorder list \<Rightarrow> bool" where
  "extracted e xs \<longleftrightarrow> is_heap 0 e xs \<and> sorted (drop e xs) \<and> (\<forall>x \<in> set (take e xs). \<forall>y \<in> set (drop e xs). x \<le> y)"

lemma extract_step_frame:
  assumes "e < length xs"
  shows "length (extract_step e xs) = length xs" "mset (extract_step e xs) = mset xs"
    "drop e (extract_step e xs) = xs ! 0 # drop (Suc e) xs"
proof -
  have "0 < length xs" using assms by (rule le_less_trans [OF le0])
  with assms show "length (extract_step e xs) = length xs" "mset (extract_step e xs) = mset xs"
    by (simp_all add: extract_step_def sift_frame)
  have "drop e (swap xs 0 e) = swap xs 0 e ! e # drop (Suc e) (swap xs 0 e)"
    using assms by (simp add: Cons_nth_drop_Suc)
  also have "\<dots> = xs ! 0 # drop (Suc e) xs"
    using assms \<open>0 < length xs\<close> by (simp add: nth_swap) (simp add: swap_def)
  finally show "drop e (extract_step e xs) = xs ! 0 # drop (Suc e) xs"
    using assms by (simp add: extract_step_def sift_frame)
qed

lemma extract_step_extracted:
  assumes "e < length xs" "extracted (Suc e) xs"
  shows "extracted e (extract_step e xs)"
proof -
  have len: "0 < length xs" using assms(1) by (rule le_less_trans [OF le0])
  have heap: "is_heap 0 (Suc e) xs" and sorted: "sorted (drop (Suc e) xs)"
    and le: "\<And>x y. x \<in> set (take (Suc e) xs) \<Longrightarrow> y \<in> set (drop (Suc e) xs) \<Longrightarrow> x \<le> y"
    using assms(2) by (auto simp: extracted_def)
  have "is_heap (Suc 0) e (swap xs 0 e)"
    using heap assms(1) len by (auto simp: is_heap_def nth_swap)
  then have "is_heap 0 e (extract_step e xs)"
    using assms(1) by (simp add: extract_step_def sift_is_heap almost_heap_below)
  moreover have top: "xs ! 0 \<in> set (take (Suc e) xs)"
    using len by (cases xs) simp_all
  moreover have "mset (take e (extract_step e xs)) + {#xs ! 0#} = mset (take (Suc e) xs)"
  proof -
    have "mset (take e (extract_step e xs)) + mset (drop e (extract_step e xs)) =
        mset (take (Suc e) xs) + mset (drop (Suc e) xs)"
      using extract_step_frame(2) [OF assms(1)] by (metis append_take_drop_id mset_append)
    then show ?thesis by (simp add: extract_step_frame(3) [OF assms(1)])
  qed
  then have sub: "set (take e (extract_step e xs)) \<subseteq> set (take (Suc e) xs)"
    by (metis add.commute insert_subset set_mset_add_mset_insert set_mset_mset subset_refl
        union_mset_add_mset_left add_mset_add_single)
  moreover have "x \<le> xs ! 0" if "x \<in> set (take (Suc e) xs)" for x
    using that is_heap_max [OF heap] by (auto simp: in_set_conv_nth)
  ultimately show ?thesis
    using sorted le by (auto simp: extracted_def extract_step_frame(3) [OF assms(1)] subset_iff)
qed

lemma extract_loop:
  assumes "extracted n xs" "n \<le> length xs"
  shows "extracted (min 1 n) (fold extract_step (rev [1..<n]) xs) \<and>
    mset (fold extract_step (rev [1..<n]) xs) = mset xs"
  using assms
proof (induction n arbitrary: xs)
  case (Suc n)
  show ?case
  proof (cases "n = 0")
    case False
    then have loop: "fold extract_step (rev [1..<Suc n]) xs = fold extract_step (rev [1..<n]) (extract_step n xs)"
      by simp
    have n: "n < length xs" using Suc.prems(2) by simp
    have "extracted (min 1 n) (fold extract_step (rev [1..<n]) (extract_step n xs)) \<and>
        mset (fold extract_step (rev [1..<n]) (extract_step n xs)) = mset (extract_step n xs)"
      using n Suc.prems(1)
      by (intro Suc.IH extract_step_extracted) (simp_all add: extract_step_frame(1))
    moreover have "min 1 (Suc n) = min 1 n" using False by simp
    ultimately show ?thesis
      by (simp only: loop extract_step_frame(2) [OF n])
  qed (use Suc.prems in simp)
qed simp

lemma extracted_one_sorted: "extracted (min 1 n) xs \<Longrightarrow> sorted xs"
  by (cases xs; cases n) (auto simp: extracted_def)

text \<open>C29: the embedded heapsort returns exactly what the hosted sort returns, for every
  list of identifiers, so routes and recipients have one order in both builds.\<close>

theorem heap_sort_eq_sort: "small_sort True xs = small_sort False xs"
proof -
  have len: "length (build_heap xs) = length xs"
    using build_heap_ok(2) [of xs] by (rule mset_eq_length)
  then have "extracted (length xs) (build_heap xs)"
    using build_heap_ok(1) [of xs] by (simp add: extracted_def)
  note loop = extract_loop [OF this eq_refl [OF len [symmetric]], folded heap_sort_def]
  have "sorted (heap_sort xs)" using loop extracted_one_sorted by blast
  moreover have "mset (heap_sort xs) = mset xs" using loop build_heap_ok(2) by metis
  ultimately have "sort xs = heap_sort xs" by (intro properties_for_sort)
  then show ?thesis by (simp add: small_sort_def)
qed

end
