(* ===== verification/Small_Map.thy ===== *)
theory Small_Map
  imports Prelude
begin

text \<open>
  The compact ordered index of the embedded router tables
  (\<^verbatim>\<open>src/src/small_map.rs\<close>): a vector of entries sorted by key.  The operations refine the
  updates of a finite map, which is what the router relies on whichever table type
  the build selects.
\<close>

section \<open>Definitions\<close>

record ('k, 'v) SmallMap =
  entries :: "('k \<times> 'v) list"

definition map_new :: "('k, 'v) SmallMap" where
  "map_new = \<lparr>entries = []\<rparr>"

text \<open>\<^verbatim>\<open>position\<close>: the binary search of the standard library on a sorted vector.  Inr is the
  index of the key, Inl the index where it belongs.\<close>

definition map_position :: "'k::linorder \<Rightarrow> ('k, 'v) SmallMap \<Rightarrow> nat + nat" where
  "map_position key m =
    (let i = length (takeWhile (\<lambda>e. fst e < key) (entries m)) in
     if i < length (entries m) \<and> fst (entries m ! i) = key then Inr i else Inl i)"

definition map_len :: "('k, 'v) SmallMap \<Rightarrow> nat" where
  "map_len m = length (entries m)"

definition map_clear :: "('k, 'v) SmallMap \<Rightarrow> ('k, 'v) SmallMap" where
  "map_clear m = m\<lparr>entries := []\<rparr>"

definition map_get :: "('k::linorder, 'v) SmallMap \<Rightarrow> 'k \<Rightarrow> 'v option" where
  "map_get m key = (case map_position key m of Inr i \<Rightarrow> Some (snd (entries m ! i)) | Inl _ \<Rightarrow> None)"

text \<open>\<^verbatim>\<open>get_mut\<close> followed by a write through the reference.\<close>

definition map_modify :: "'k::linorder \<Rightarrow> ('v \<Rightarrow> 'v) \<Rightarrow> ('k, 'v) SmallMap \<Rightarrow> ('k, 'v) SmallMap" where
  "map_modify key f m =
    (case map_position key m of
      Inr i \<Rightarrow> m\<lparr>entries := (entries m)[i := (fst (entries m ! i), f (snd (entries m ! i)))]\<rparr>
    | Inl _ \<Rightarrow> m)"

definition contains_key :: "('k::linorder, 'v) SmallMap \<Rightarrow> 'k \<Rightarrow> bool" where
  "contains_key m key = is_ok (map_position key m)"

definition map_insert :: "'k::linorder \<Rightarrow> 'v \<Rightarrow> ('k, 'v) SmallMap \<Rightarrow> 'v option \<times> ('k, 'v) SmallMap" where
  "map_insert key v m =
    (case map_position key m of
      Inr i \<Rightarrow> (Some (snd (entries m ! i)), m\<lparr>entries := (entries m)[i := (fst (entries m ! i), v)]\<rparr>)
    | Inl i \<Rightarrow> (None, m\<lparr>entries := take i (entries m) @ (key, v) # drop i (entries m)\<rparr>))"

definition map_remove :: "'k::linorder \<Rightarrow> ('k, 'v) SmallMap \<Rightarrow> 'v option \<times> ('k, 'v) SmallMap" where
  "map_remove key m =
    (case map_position key m of
      Inr i \<Rightarrow>
        let m' = m\<lparr>entries := take i (entries m) @ drop (Suc i) (entries m)\<rparr> in
        (Some (snd (entries m ! i)), if entries m' = [] then map_clear m' else m')
    | Inl _ \<Rightarrow> (None, m))"

definition first_key_value :: "('k, 'v) SmallMap \<Rightarrow> ('k \<times> 'v) option" where
  "first_key_value m = (case entries m of [] \<Rightarrow> None | e # _ \<Rightarrow> Some e)"

definition pop_first :: "('k, 'v) SmallMap \<Rightarrow> ('k \<times> 'v) option \<times> ('k, 'v) SmallMap" where
  "pop_first m =
    (case entries m of
      [] \<Rightarrow> (None, m)
    | e # es \<Rightarrow>
        let m' = m\<lparr>entries := es\<rparr> in
        (Some e, if entries m' = [] then map_clear m' else m'))"

text \<open>\<^verbatim>\<open>retain\<close>: the predicate may update the value it keeps.\<close>

definition map_retain :: "('k \<Rightarrow> 'v \<Rightarrow> bool \<times> 'v) \<Rightarrow> ('k, 'v) SmallMap \<Rightarrow> ('k, 'v) SmallMap" where
  "map_retain f m =
    (let m' = m\<lparr>entries := concat (map (\<lambda>(k, v). case f k v of (keep, v') \<Rightarrow> if keep then [(k, v')] else [])
               (entries m))\<rparr> in
     if entries m' = [] then map_clear m' else m')"

text \<open>\<^verbatim>\<open>entry(key).or_insert_with(f)\<close>: the value found or inserted.\<close>

definition or_insert_with :: "'k::linorder \<Rightarrow> 'v \<Rightarrow> ('k, 'v) SmallMap \<Rightarrow> 'v \<times> ('k, 'v) SmallMap" where
  "or_insert_with key v m =
    (case map_position key m of
      Inr i \<Rightarrow> (snd (entries m ! i), m)
    | Inl i \<Rightarrow> (v, m\<lparr>entries := take i (entries m) @ (key, v) # drop i (entries m)\<rparr>))"

definition from_iter :: "('k::linorder \<times> 'v) list \<Rightarrow> ('k, 'v) SmallMap" where
  "from_iter kvs = fold (\<lambda>(k, v) m. snd (map_insert k v m)) kvs map_new"

section \<open>The table interface\<close>

text \<open>What a client of a keyed table relies on, and what follows from it for bulk
  construction and for lookup-or-insert.\<close>

locale keyed_table =
  fixes empty :: 'm and lookup :: "'m \<Rightarrow> 'k \<Rightarrow> 'v option" and insert :: "'k \<Rightarrow> 'v \<Rightarrow> 'm \<Rightarrow> 'm"
    and remove :: "'k \<Rightarrow> 'm \<Rightarrow> 'm" and invar :: "'m \<Rightarrow> bool"
  assumes lookup_empty: "lookup empty = Map.empty"
    and invar_empty: "invar empty"
    and lookup_insert: "invar m \<Longrightarrow> lookup (insert k v m) = (lookup m)(k \<mapsto> v)"
    and lookup_remove: "invar m \<Longrightarrow> lookup (remove k m) = (lookup m)(k := None)"
    and invar_insert: "invar m \<Longrightarrow> invar (insert k v m)"
    and invar_remove: "invar m \<Longrightarrow> invar (remove k m)"
begin

lemma fold_insert:
  "invar m \<Longrightarrow> invar (fold (\<lambda>(k, v). insert k v) kvs m) \<and>
    lookup (fold (\<lambda>(k, v). insert k v) kvs m) = lookup m ++ map_of (rev kvs)"
proof (induction kvs arbitrary: m)
  case (Cons kv kvs)
  obtain k v where "kv = (k, v)" by (cases kv)
  with Cons.IH [OF invar_insert [OF Cons.prems, of k v]] Cons.prems show ?case
    by (simp add: lookup_insert map_add_upd_left fun_eq_iff map_add_def split: option.splits)
qed simp

lemma insert_remove: "invar m \<Longrightarrow> lookup (remove k (insert k v m)) = (lookup m)(k := None)"
  by (simp add: lookup_remove lookup_insert invar_insert)

lemma insert_commute:
  "invar m \<Longrightarrow> k \<noteq> k' \<Longrightarrow> lookup (insert k v (insert k' v' m)) = lookup (insert k' v' (insert k v m))"
  by (simp add: lookup_insert invar_insert fun_upd_twist)

end

section \<open>Refinement\<close>

definition small_map_ok :: "('k::linorder, 'v) SmallMap \<Rightarrow> bool" where
  "small_map_ok m \<longleftrightarrow> sorted_wrt (<) (map fst (entries m))"

lemma sorted_split:
  fixes es :: "('k::linorder \<times> 'v) list"
  assumes "sorted_wrt (<) (map fst es)"
  obtains (found) as v bs where "es = as @ (k, v) # bs" "takeWhile (\<lambda>e. fst e < k) es = as"
      "\<forall>e \<in> set as. fst e < k" "\<forall>e \<in> set bs. k < fst e"
  | (missing) as bs where "es = as @ bs" "takeWhile (\<lambda>e. fst e < k) es = as"
      "\<forall>e \<in> set as. fst e < k" "\<forall>e \<in> set bs. k < fst e"
proof -
  define as ds where "as = takeWhile (\<lambda>e. fst e < k) es" and "ds = dropWhile (\<lambda>e. fst e < k) es"
  have es: "es = as @ ds" by (simp add: as_def ds_def)
  have as: "\<forall>e \<in> set as. fst e < k" unfolding as_def by (meson set_takeWhileD)
  have sd: "sorted_wrt (<) (map fst ds)"
    using assms by (simp add: es sorted_wrt_append)
  show thesis
  proof (cases ds)
    case Nil
    show thesis by (rule missing [of as ds]) (use Nil es as as_def in auto)
  next
    case (Cons e es')
    have "\<not> fst e < k"
      using hd_dropWhile [of "\<lambda>e. fst e < k" es, folded ds_def] unfolding Cons by simp
    have gt: "\<forall>x \<in> set es'. fst e < fst x" using sd Cons by simp
    show thesis
    proof (cases "fst e = k")
      case True
      show thesis
        by (rule found [of as "snd e" es']) (use True es as as_def Cons gt in auto)
    next
      case False
      show thesis
        by (rule missing [of as ds]) (use False es as as_def Cons gt \<open>\<not> fst e < k\<close> in auto)
    qed
  qed
qed

lemma map_of_above: "\<forall>e \<in> set es. k < fst e \<Longrightarrow> map_of es (k :: 'k::linorder) = None"
  by (metis less_irrefl map_of_eq_None_iff image_iff)

lemma map_of_below: "\<forall>e \<in> set es. fst e < k \<Longrightarrow> map_of es (k :: 'k::linorder) = None"
  by (metis less_irrefl map_of_eq_None_iff image_iff)

text \<open>The two outcomes of the search.\<close>

lemma position_cases:
  fixes m :: "('k::linorder, 'v) SmallMap"
  assumes "small_map_ok m"
  obtains (found) as v bs where "entries m = as @ (k, v) # bs" "map_position k m = Inr (length as)"
      "\<forall>e \<in> set as. fst e < k" "\<forall>e \<in> set bs. k < fst e"
      "map_of as k = None" "map_of bs k = None"
  | (missing) as bs where "entries m = as @ bs" "map_position k m = Inl (length as)"
      "\<forall>e \<in> set as. fst e < k" "\<forall>e \<in> set bs. k < fst e"
      "map_of as k = None" "map_of bs k = None"
proof -
  have "sorted_wrt (<) (map fst (entries m))" using assms by (simp add: small_map_ok_def)
  then show thesis
  proof (cases rule: sorted_split [where k = k])
    case (found as v bs)
    then have "map_position k m = Inr (length as)"
      unfolding map_position_def Let_def found(2) by (simp add: found(1))
    with found that(1) show thesis by (simp add: map_of_above map_of_below)
  next
    case (missing as bs)
    then have "map_position k m = Inl (length as)"
      unfolding map_position_def Let_def missing(2) by (cases bs) (auto simp: missing(1))
    with missing that(2) show thesis by (simp add: map_of_above map_of_below)
  qed
qed

lemma map_get_eq:
  assumes "small_map_ok m"
  shows "map_get m k = map_of (entries m) k"
  using assms by (cases rule: position_cases [where k = k]) (simp_all add: map_get_def map_add_def)

lemma contains_key_eq:
  assumes "small_map_ok m"
  shows "contains_key m k \<longleftrightarrow> map_get m k \<noteq> None"
  using assms by (cases rule: position_cases [where k = k]) (simp_all add: map_get_def contains_key_def)

lemma map_insert_ok:
  assumes "small_map_ok m"
  shows "small_map_ok (snd (map_insert k v m))" "fst (map_insert k v m) = map_get m k"
    "map_get (snd (map_insert k v m)) = (map_get m)(k \<mapsto> v)"
proof -
  have "small_map_ok (snd (map_insert k v m)) \<and> fst (map_insert k v m) = map_get m k \<and>
      map_of (entries (snd (map_insert k v m))) = (map_of (entries m))(k \<mapsto> v)"
    using assms
  proof (cases rule: position_cases [where k = k])
    case (found as v' bs)
    then show ?thesis
      using assms by (auto simp: map_insert_def map_get_def small_map_ok_def sorted_wrt_append map_add_def
          fun_eq_iff split: option.splits)
  next
    case (missing as bs)
    then show ?thesis
      using assms by (auto simp: map_insert_def map_get_def small_map_ok_def sorted_wrt_append map_add_def
          fun_eq_iff split: option.splits)
  qed
  then show "small_map_ok (snd (map_insert k v m))" "fst (map_insert k v m) = map_get m k"
    "map_get (snd (map_insert k v m)) = (map_get m)(k \<mapsto> v)"
    using map_get_eq [OF assms] map_get_eq [of "snd (map_insert k v m)"] by (auto simp: fun_eq_iff)
qed

lemma map_remove_ok:
  assumes "small_map_ok m"
  shows "small_map_ok (snd (map_remove k m))" "fst (map_remove k m) = map_get m k"
    "map_get (snd (map_remove k m)) = (map_get m)(k := None)"
proof -
  have "small_map_ok (snd (map_remove k m)) \<and> fst (map_remove k m) = map_get m k \<and>
      map_of (entries (snd (map_remove k m))) = (map_of (entries m))(k := None)"
    using assms
  proof (cases rule: position_cases [where k = k])
    case (found as v' bs)
    then have "entries (snd (map_remove k m)) = as @ bs" "fst (map_remove k m) = map_get m k"
      by (auto simp: map_remove_def map_clear_def map_get_def Let_def)
    then show ?thesis
      using assms found by (auto simp: small_map_ok_def sorted_wrt_append map_add_def
          fun_eq_iff split: option.splits)
  next
    case (missing as bs)
    then show ?thesis
      using assms by (auto simp: map_remove_def map_get_def map_add_def fun_eq_iff)
  qed
  then show "small_map_ok (snd (map_remove k m))" "fst (map_remove k m) = map_get m k"
    "map_get (snd (map_remove k m)) = (map_get m)(k := None)"
    using map_get_eq [OF assms] map_get_eq [of "snd (map_remove k m)"] by (auto simp: fun_eq_iff)
qed

lemma map_new_ok: "small_map_ok map_new" "map_get map_new = Map.empty"
  by (auto simp: map_new_def small_map_ok_def map_get_def map_position_def)

interpretation sm: keyed_table map_new map_get "\<lambda>k v m. snd (map_insert k v m)"
    "\<lambda>k m. snd (map_remove k m)" small_map_ok
  by unfold_locales (simp_all add: map_new_ok map_insert_ok map_remove_ok)

lemma or_insert_with_eq:
  assumes "small_map_ok m"
  shows "or_insert_with k v m =
    (case map_get m k of Some v' \<Rightarrow> (v', m) | None \<Rightarrow> (v, snd (map_insert k v m)))"
  using assms
  by (cases rule: position_cases [where k = k]) (simp_all add: or_insert_with_def map_get_def map_insert_def)

lemma map_modify_ok:
  assumes "small_map_ok m"
  shows "small_map_ok (map_modify k f m) \<and>
    map_of (entries (map_modify k f m)) = (map_of (entries m))(k := map_option f (map_of (entries m) k))"
  using assms
proof (cases rule: position_cases [where k = k])
  case (found as v' bs)
  then show ?thesis
    using assms by (auto simp: map_modify_def small_map_ok_def map_add_def fun_eq_iff split: option.splits)
next
  case (missing as bs)
  then show ?thesis using assms by (auto simp: map_modify_def map_add_def fun_eq_iff)
qed

lemma pop_first_ok:
  assumes "small_map_ok m"
  shows "small_map_ok (snd (pop_first m))" "fst (pop_first m) = first_key_value m"
    "entries (snd (pop_first m)) = tl (entries m)"
  using assms by (auto simp: pop_first_def first_key_value_def map_clear_def small_map_ok_def Let_def split: list.splits)

definition kept :: "('k \<Rightarrow> 'v \<Rightarrow> bool \<times> 'v) \<Rightarrow> ('k \<times> 'v) list \<Rightarrow> ('k \<times> 'v) list" where
  "kept f es = concat (map (\<lambda>(k, v). case f k v of (keep, v') \<Rightarrow> if keep then [(k, v')] else []) es)"

lemma entries_map_retain: "entries (map_retain f m) = kept f (entries m)"
  by (simp add: map_retain_def map_clear_def Let_def kept_def)

lemma set_kept: "(k, v') \<in> set (kept f es) \<longleftrightarrow> (\<exists>v. (k, v) \<in> set es \<and> f k v = (True, v'))"
  by (induction es) (auto simp: kept_def split: prod.splits if_splits)

lemma kept_sorted:
  fixes es :: "('k::linorder \<times> 'v) list"
  assumes "sorted_wrt (<) (map fst es)"
  shows "sorted_wrt (<) (map fst (kept f es))"
  using assms
proof (induction es)
  case (Cons e es)
  obtain k v where e: "e = (k, v)" by (cases e)
  have "\<forall>x \<in> set (kept f es). k < fst x"
    using Cons.prems by (fastforce simp: e set_kept)
  moreover have "kept f (e # es) = (if fst (f k v) then [(k, snd (f k v))] else []) @ kept f es"
    by (simp add: e kept_def split: prod.split)
  ultimately show ?case using Cons by simp
qed (simp add: kept_def)

lemma map_retain_ok: "small_map_ok m \<Longrightarrow> small_map_ok (map_retain f m)"
  by (simp add: small_map_ok_def entries_map_retain kept_sorted)



end
