(* ===== verification/Small_Payload.thy ===== *)
theory Small_Payload
  imports Prelude
begin

text \<open>
  Payload storage with an inline buffer (\<^verbatim>\<open>src/src/small_payload.rs\<close>).  A slot of the
  inline buffer that was never written is None, so that a read of uninitialised
  memory is a value of the model and its absence a theorem.  \<^verbatim>\<open>INLINE\<close> is the
  argument \<^verbatim>\<open>cap\<close>.
\<close>

section \<open>Definitions\<close>

type_synonym InlineBuf = "u8 option list"

datatype SmallPayload =
    Inline u8 InlineBuf
  | Heap bytes

text \<open>\<^verbatim>\<open>InlineBuf::from_slice\<close>: None is a failed assertion.\<close>

definition from_slice :: "nat \<Rightarrow> bytes \<Rightarrow> (InlineBuf \<times> u8) option" where
  "from_slice cap data =
    (if length data \<le> cap \<and> length data \<le> 255
     then Some (map Some data @ replicate (cap - length data) None, of_nat (length data))
     else None)"

text \<open>\<^verbatim>\<open>InlineBuf::as_slice\<close>: None is a read of an uninitialised byte or past the buffer.\<close>

definition inline_as_slice :: "u8 \<Rightarrow> InlineBuf \<Rightarrow> bytes option" where
  "inline_as_slice len buf =
    (if unat len \<le> length buf then those (take (unat len) buf) else None)"

definition payload_new :: "nat \<Rightarrow> bytes \<Rightarrow> SmallPayload option" where
  "payload_new cap data =
    (if length data \<le> cap \<and> length data \<le> 255
     then (case from_slice cap data of Some (buf, len) \<Rightarrow> Some (Inline len buf) | None \<Rightarrow> None)
     else Some (Heap data))"

text \<open>\<^verbatim>\<open>from_arc\<close> keeps the shared allocation instead of copying it; the value is the same.\<close>

definition from_arc :: "nat \<Rightarrow> bytes \<Rightarrow> SmallPayload option" where
  "from_arc cap data =
    (if length data \<le> cap \<and> length data \<le> 255
     then (case from_slice cap data of Some (buf, len) \<Rightarrow> Some (Inline len buf) | None \<Rightarrow> None)
     else Some (Heap data))"

definition as_slice :: "SmallPayload \<Rightarrow> bytes option" where
  "as_slice p = (case p of Inline len buf \<Rightarrow> inline_as_slice len buf | Heap arc \<Rightarrow> Some arc)"

definition payload_len :: "SmallPayload \<Rightarrow> nat" where
  "payload_len p = (case p of Inline len _ \<Rightarrow> unat len | Heap a \<Rightarrow> length a)"

text \<open>The size of a fat pointer on a 64-bit target.\<close>

definition byte_cost_saturated :: "SmallPayload \<Rightarrow> nat" where
  "byte_cost_saturated p = (case p of Inline len _ \<Rightarrow> unat len | Heap a \<Rightarrow> saturating_add (length a) 16)"

definition is_inline :: "SmallPayload \<Rightarrow> bool" where
  "is_inline p = (case p of Inline _ _ \<Rightarrow> True | Heap _ \<Rightarrow> False)"

definition read_range :: "nat \<Rightarrow> nat \<Rightarrow> SmallPayload \<Rightarrow> bytes result" where
  "read_range offset n p =
    (case checked_add offset n of
      None \<Rightarrow> Err (Unpack ''payload range out of bounds'')
    | Some e \<Rightarrow>
        if e \<le> payload_len p then
          (case as_slice p of
            Some bs \<Rightarrow> Ok (take n (drop offset bs))
          | None \<Rightarrow> Err (Unpack ''payload range out of bounds''))
        else Err (Unpack ''payload range out of bounds''))"

section \<open>Initialised reads\<close>

lemma those_map_Some [simp]: "those (map Some xs) = Some xs"
  by (induction xs) simp_all

lemma from_slice_as_slice:
  assumes "from_slice cap data = Some (buf, len)"
  shows "inline_as_slice len buf = Some data" "unat len = length data"
proof -
  have l: "length data \<le> cap" "length data \<le> 255"
    and b: "buf = map Some data @ replicate (cap - length data) None" "len = of_nat (length data)"
    using assms by (auto simp: from_slice_def split: if_splits)
  have u: "unat (of_nat (length data) :: u8) = length data"
    using l(2) by (simp add: unsigned_of_nat take_bit_nat_eq_self)
  then show "unat len = length data" by (simp add: b)
  show "inline_as_slice len buf = Some data"
    using l by (simp add: inline_as_slice_def b u)
qed

lemma payload_new_total:
  obtains p where "payload_new cap data = Some p" "from_arc cap data = Some p" "as_slice p = Some data"
    "payload_len p = length data" "is_inline p \<longleftrightarrow> length data \<le> cap \<and> length data \<le> 255"
proof (cases "length data \<le> cap \<and> length data \<le> 255")
  case True
  then obtain buf len where f: "from_slice cap data = Some (buf, len)"
    by (simp add: from_slice_def)
  show thesis
    by (rule that [of "Inline len buf"])
      (use True f from_slice_as_slice [OF f] in
        \<open>simp_all add: payload_new_def from_arc_def as_slice_def payload_len_def is_inline_def\<close>)
next
  case False
  show thesis
    by (rule that [of "Heap data"])
      (use False in \<open>auto simp: payload_new_def from_arc_def as_slice_def payload_len_def is_inline_def\<close>)
qed


end
