(* ===== verification/Packet.thy ===== *)
theory Packet
  imports Schema_Registry Small_Payload
begin

text \<open>
  The packet type (\<^verbatim>\<open>src/src/packet.rs\<close>): construction with validation against the
  schema, the packet identity and typed access to the payload.
  The schema registry, the tunable static widths, the inline capacity and the
  device name are the fields of an environment record.
\<close>

section \<open>Environment and state\<close>

record PacketEnv =
  env_registry :: Registry
  env_lengths :: StaticLengths
  env_inline :: nat
  env_device :: string

abbreviation message_meta :: "PacketEnv \<Rightarrow> DataType \<Rightarrow> MessageMeta" where
  "message_meta env ty \<equiv> get_message_meta (env_registry env) ty"

definition get_data_type :: "PacketEnv \<Rightarrow> DataType \<Rightarrow> MessageDataType" where
  "get_data_type env ty = data_type (mm_element (message_meta env ty))"

record Packet =
  pkt_ty :: DataType
  pkt_data_size :: nat
  pkt_sender :: string
  pkt_endpoints :: "DataEndpoint list"
  pkt_timestamp :: u64
  pkt_nonce :: u16
  pkt_payload :: SmallPayload
  pkt_wire_shape :: "MessageElement option"
  pkt_wire_target_senders :: "u64 list option"

text \<open>\<^verbatim>\<open>payload()\<close>: the slice view of the stored bytes.\<close>

definition payload :: "Packet \<Rightarrow> bytes" where
  "payload pkt = (case as_slice (pkt_payload pkt) of Some bs \<Rightarrow> bs | None \<Rightarrow> [])"

text \<open>\<^verbatim>\<open>next_packet_nonce\<close> on the process-wide counter.\<close>

definition next_packet_nonce :: "u32 \<Rightarrow> u16 \<times> u32" where
  "next_packet_nonce counter =
    (let x = counter;
         x = x XOR push_bit 13 x;
         x = x XOR drop_bit 17 x;
         x = x XOR push_bit 5 x in
     (ucast x OR 1, counter + 0x9E3779B9))"

section \<open>Identity\<close>

definition hash_bytes_u64 :: "u64 \<Rightarrow> bytes \<Rightarrow> u64" where
  "hash_bytes_u64 h bs =
    fold (\<lambda>b h. let h = h XOR ucast b; h = h * 0x9E3779B1 in h XOR drop_bit 27 h) bs h"

definition sender_address_u32 :: "string \<Rightarrow> u32" where
  "sender_address_u32 sender =
    (case (if take 6 sender = ''@addr:'' then parse_u32 (drop 6 sender) else None) of
      Some address \<Rightarrow> address
    | None \<Rightarrow>
        let raw = ucast (hash_bytes_u64 0xA6D38C214B7F19E5 (as_bytes sender)) :: u32 in
        if raw = 0 then 1 else raw)"

text \<open>\<^verbatim>\<open>unique_sorted_endpoints\<close> (\<^verbatim>\<open>src/src/wire_format.rs\<close>): each call yields the least
  endpoint above the previous one.\<close>

definition least_above :: "DataEndpoint option \<Rightarrow> DataEndpoint list \<Rightarrow> DataEndpoint option" where
  "least_above previous eps =
    (case filter (\<lambda>ep. case previous of None \<Rightarrow> True | Some p \<Rightarrow> ep > p) eps of
      [] \<Rightarrow> None
    | ep # rest \<Rightarrow> Some (fold min rest ep))"

lemma fold_min_in: "fold min xs (x :: 'a::linorder) \<in> insert x (set xs)"
  by (induction xs arbitrary: x) (auto simp: min_def split: if_splits)

lemma least_above_in:
  "least_above previous eps = Some n \<Longrightarrow> n \<in> set eps \<and> (case previous of None \<Rightarrow> True | Some p \<Rightarrow> n > p)"
proof -
  assume a: "least_above previous eps = Some n"
  then obtain ep rest where f: "filter (\<lambda>ep. case previous of None \<Rightarrow> True | Some p \<Rightarrow> ep > p) eps = ep # rest"
      "n = fold min rest ep"
    by (auto simp: least_above_def split: list.splits)
  then have "n \<in> set (filter (\<lambda>ep. case previous of None \<Rightarrow> True | Some p \<Rightarrow> ep > p) eps)"
    using fold_min_in [of rest ep] by (simp only: f) simp
  then show ?thesis by simp
qed

function unique_sorted_from :: "DataEndpoint option \<Rightarrow> DataEndpoint list \<Rightarrow> DataEndpoint list" where
  "unique_sorted_from previous eps =
    (case least_above previous eps of
      None \<Rightarrow> []
    | Some n \<Rightarrow> n # unique_sorted_from (Some n) eps)"
  by pat_completeness auto
termination
proof (relation "measure (\<lambda>(previous, eps). card {ep \<in> set eps. case previous of None \<Rightarrow> True | Some p \<Rightarrow> ep > p})",
    goal_cases)
  case (2 previous eps n)
  from least_above_in [OF 2] show ?case
    by (auto intro!: psubset_card_mono split: option.splits)
qed simp

declare unique_sorted_from.simps [simp del]

definition unique_sorted_endpoints :: "DataEndpoint list \<Rightarrow> DataEndpoint list" where
  "unique_sorted_endpoints eps = unique_sorted_from None eps"

definition ascending :: "DataEndpoint list \<Rightarrow> bool" where
  "ascending eps = list_all (\<lambda>(a, b). a < b) (zip eps (tl eps))"

definition packet_id_header :: "Packet \<Rightarrow> u64" where
  "packet_id_header pkt =
    (let h = 0x9E3779B97F4A7C15 :: u64;
         h = hash_bytes_u64 h (le_bytes 4 (sender_address_u32 (pkt_sender pkt)));
         h = hash_bytes_u64 h (le_bytes 4 (pkt_ty pkt));
         eps = (if ascending (pkt_endpoints pkt) then pkt_endpoints pkt
                else unique_sorted_endpoints (pkt_endpoints pkt));
         h = fold (\<lambda>ep h. hash_bytes_u64 h (le_bytes 4 ep)) eps h;
         h = hash_bytes_u64 h (le_bytes 8 (pkt_timestamp pkt));
         h = hash_bytes_u64 h (le_bytes 2 (pkt_nonce pkt)) in
     hash_bytes_u64 h (le_bytes 8 (of_nat (pkt_data_size pkt) :: u64)))"

definition packet_id :: "Packet \<Rightarrow> u64" where
  "packet_id pkt = hash_bytes_u64 (packet_id_header pkt) (payload pkt)"

section \<open>Validation and construction\<close>

fun element_width :: "MessageDataType \<Rightarrow> nat" where
  "element_width UInt8 = 1"
| "element_width Int8 = 1"
| "element_width DBool = 1"
| "element_width UInt16 = 2"
| "element_width Int16 = 2"
| "element_width UInt32 = 4"
| "element_width Int32 = 4"
| "element_width Float32 = 4"
| "element_width UInt64 = 8"
| "element_width Int64 = 8"
| "element_width Float64 = 8"
| "element_width UInt128 = 16"
| "element_width Int128 = 16"
| "element_width DString = 1"
| "element_width Binary = 1"
| "element_width NoData = 0"

text \<open>\<^verbatim>\<open>core::str::from_utf8\<close>: well-formed UTF-8, without overlong forms, surrogates and
  values above U+10FFFF.\<close>

definition cont :: "u8 \<Rightarrow> bool" where
  "cont b = (0x80 \<le> b \<and> b \<le> 0xbf)"

fun utf8_valid :: "bytes \<Rightarrow> bool" where
  "utf8_valid [] = True"
| "utf8_valid (a # bs) =
    (if a < 0x80 then utf8_valid bs
     else if 0xc2 \<le> a \<and> a \<le> 0xdf then
       (case bs of b # r \<Rightarrow> cont b \<and> utf8_valid r | _ \<Rightarrow> False)
     else if 0xe0 \<le> a \<and> a \<le> 0xef then
       (case bs of b # c # r \<Rightarrow>
          (if a = 0xe0 then 0xa0 \<le> b \<and> b \<le> 0xbf else if a = 0xed then 0x80 \<le> b \<and> b \<le> 0x9f else cont b) \<and>
          cont c \<and> utf8_valid r
        | _ \<Rightarrow> False)
     else if 0xf0 \<le> a \<and> a \<le> 0xf4 then
       (case bs of b # c # d # r \<Rightarrow>
          (if a = 0xf0 then 0x90 \<le> b \<and> b \<le> 0xbf else if a = 0xf4 then 0x80 \<le> b \<and> b \<le> 0x8f else cont b) \<and>
          cont c \<and> cont d \<and> utf8_valid r
        | _ \<Rightarrow> False)
     else False)"

text \<open>\<^verbatim>\<open>rposition(|b| b != 0) + 1\<close>: the length without trailing NULs.\<close>

definition trimmed_end :: "bytes \<Rightarrow> nat" where
  "trimmed_end bs = length (dropWhile (\<lambda>b. b = 0) (rev bs))"

definition validate_dynamic_len_and_content_for_element :: "MessageElement \<Rightarrow> bytes \<Rightarrow> unit result" where
  "validate_dynamic_len_and_content_for_element element bs =
    (case data_type element of
      DString \<Rightarrow>
        let e = trimmed_end bs in
        if e > 0 \<and> \<not> utf8_valid (take e bs) then Err InvalidUtf8 else Ok ()
    | Binary \<Rightarrow> Ok ()
    | dt \<Rightarrow>
        let w = element_width dt in
        if w = 0 \<or> length bs mod w \<noteq> 0 then Err (SizeMismatch w (length bs)) else Ok ())"

text \<open>The product of count and width wraps in a release build.\<close>

definition validate_payload_against_element :: "PacketEnv \<Rightarrow> MessageElement \<Rightarrow> bytes \<Rightarrow> unit result" where
  "validate_payload_against_element env element bs =
    (case element of
      Static n dt _ \<Rightarrow>
        let need = (n * data_type_size (env_lengths env) dt) mod 2 ^ 64 in
        if length bs \<noteq> need then Err (SizeMismatch need (length bs)) else Ok ()
    | Dynamic _ _ \<Rightarrow> validate_dynamic_len_and_content_for_element element bs)"

definition new_with_owned_wire_contract ::
  "PacketEnv \<Rightarrow> DataType \<Rightarrow> DataEndpoint list \<Rightarrow> string \<Rightarrow> u64 \<Rightarrow> u16 \<Rightarrow> SmallPayload \<Rightarrow>
    MessageElement option \<Rightarrow> u64 list option \<Rightarrow> Packet result" where
  "new_with_owned_wire_contract env ty eps sender timestamp nonce p wire_shape wire_target_senders =
    (if eps = [] then Err EmptyEndpoints
     else
       let element = (case wire_shape of Some s \<Rightarrow> s | None \<Rightarrow> mm_element (message_meta env ty));
           bs = (case as_slice p of Some bs \<Rightarrow> bs | None \<Rightarrow> []) in
       bind_r (validate_payload_against_element env element bs) (\<lambda>_.
         Ok \<lparr>pkt_ty = ty, pkt_data_size = payload_len p, pkt_sender = sender, pkt_endpoints = eps,
             pkt_timestamp = timestamp, pkt_nonce = nonce, pkt_payload = p, pkt_wire_shape = wire_shape,
             pkt_wire_target_senders = wire_target_senders\<rparr>))"

text \<open>\<^verbatim>\<open>StandardSmallPayload::from_arc\<close> at the environment's inline capacity; it never fails.\<close>

definition std_payload :: "PacketEnv \<Rightarrow> bytes \<Rightarrow> SmallPayload" where
  "std_payload env bs = (case from_arc (env_inline env) bs of Some p \<Rightarrow> p | None \<Rightarrow> Heap bs)"

definition new_with_nonce ::
  "PacketEnv \<Rightarrow> DataType \<Rightarrow> DataEndpoint list \<Rightarrow> string \<Rightarrow> u64 \<Rightarrow> u16 \<Rightarrow> bytes \<Rightarrow> Packet result" where
  "new_with_nonce env ty eps sender timestamp nonce bs =
    new_with_owned_wire_contract env ty eps sender timestamp nonce (std_payload env bs) None None"

text \<open>\<^verbatim>\<open>new\<close> and \<^verbatim>\<open>new_local\<close> draw the nonce from the counter, which they return.\<close>

definition packet_new ::
  "PacketEnv \<Rightarrow> u32 \<Rightarrow> DataType \<Rightarrow> DataEndpoint list \<Rightarrow> string \<Rightarrow> u64 \<Rightarrow> bytes \<Rightarrow> Packet result \<times> u32" where
  "packet_new env counter ty eps sender timestamp bs =
    (case next_packet_nonce counter of (nonce, counter') \<Rightarrow>
      (new_with_nonce env ty eps sender timestamp nonce bs, counter'))"

definition new_local ::
  "PacketEnv \<Rightarrow> u32 \<Rightarrow> DataType \<Rightarrow> DataEndpoint list \<Rightarrow> string \<Rightarrow> u64 \<Rightarrow> SmallPayload \<Rightarrow> Packet result \<times> u32" where
  "new_local env counter ty eps sender timestamp p =
    (case next_packet_nonce counter of (nonce, counter') \<Rightarrow>
      (new_with_owned_wire_contract env ty eps sender timestamp nonce p None None, counter'))"

definition effective_element :: "PacketEnv \<Rightarrow> Packet \<Rightarrow> MessageElement" where
  "effective_element env pkt =
    (case pkt_wire_shape pkt of Some s \<Rightarrow> s | None \<Rightarrow> mm_element (message_meta env (pkt_ty pkt)))"

definition effective_data_type :: "PacketEnv \<Rightarrow> Packet \<Rightarrow> MessageDataType" where
  "effective_data_type env pkt = data_type (effective_element env pkt)"

definition effective_message_class :: "PacketEnv \<Rightarrow> Packet \<Rightarrow> MessageClass" where
  "effective_message_class env pkt = message_type (effective_element env pkt)"

definition validate :: "PacketEnv \<Rightarrow> Packet \<Rightarrow> unit result" where
  "validate env pkt =
    (if pkt_endpoints pkt = [] then Err EmptyEndpoints
     else if payload_len (pkt_payload pkt) \<noteq> pkt_data_size pkt then
       Err (SizeMismatch (pkt_data_size pkt) (payload_len (pkt_payload pkt)))
     else validate_payload_against_element env (effective_element env pkt) (payload pkt))"

definition read_payload_range :: "Packet \<Rightarrow> nat \<Rightarrow> nat \<Rightarrow> bytes result" where
  "read_payload_range pkt offset n =
    (case checked_add offset n of
      None \<Rightarrow> Err (Unpack ''payload range out of bounds'')
    | Some e \<Rightarrow>
        if e \<le> pkt_data_size pkt then Ok (take n (drop offset (payload pkt)))
        else Err (Unpack ''payload range out of bounds''))"

definition wire_target_senders :: "Packet \<Rightarrow> u64 list" where
  "wire_target_senders pkt = (case pkt_wire_target_senders pkt of Some ts \<Rightarrow> ts | None \<Rightarrow> [])"

definition with_nonce :: "u16 \<Rightarrow> Packet \<Rightarrow> Packet" where
  "with_nonce nonce pkt = pkt\<lparr>pkt_nonce := nonce\<rparr>"

section \<open>Typed access\<close>

definition ensure_kind :: "PacketEnv \<Rightarrow> MessageDataType \<Rightarrow> Packet \<Rightarrow> unit result" where
  "ensure_kind env expected pkt =
    (let dt = effective_data_type env pkt in
     if dt \<noteq> expected then
       Err (TypeMismatch (data_type_size (env_lengths env) expected) (data_type_size (env_lengths env) dt))
     else Ok ())"

text \<open>\<^verbatim>\<open>chunks_exact\<close>: full chunks only.\<close>

function chunks_exact :: "nat \<Rightarrow> 'a list \<Rightarrow> 'a list list" where
  "chunks_exact w xs =
    (if w = 0 \<or> length xs < w then [] else take w xs # chunks_exact w (drop w xs))"
  by pat_completeness auto
termination by (relation "measure (\<lambda>(_, xs). length xs)") auto

declare chunks_exact.simps [simp del]

definition as_le_values :: "PacketEnv \<Rightarrow> MessageDataType \<Rightarrow> Packet \<Rightarrow> 'a::len word list result" where
  "as_le_values env expected_kind pkt =
    bind_r (ensure_kind env expected_kind pkt) (\<lambda>_.
      let bs = payload pkt; width = LENGTH('a) div 8 in
      if length bs mod width \<noteq> 0 then Err (SizeMismatch ((length bs div width) * width) (length bs))
      else Ok (map from_le_bytes (chunks_exact width bs)))"

definition data_as_bool :: "PacketEnv \<Rightarrow> Packet \<Rightarrow> bool list result" where
  "data_as_bool env pkt =
    bind_r (ensure_kind env DBool pkt) (\<lambda>_. Ok (map (\<lambda>b. b \<noteq> 0) (payload pkt)))"

definition data_as_string :: "PacketEnv \<Rightarrow> Packet \<Rightarrow> bytes result" where
  "data_as_string env pkt =
    bind_r (ensure_kind env DString pkt) (\<lambda>_.
      let bs = payload pkt; e = trimmed_end bs in
      if e = 0 then Ok []
      else if utf8_valid (take e bs) then Ok (take e bs) else Err InvalidUtf8)"

definition data_as_utf8_ref :: "PacketEnv \<Rightarrow> Packet \<Rightarrow> bytes option" where
  "data_as_utf8_ref env pkt =
    (if effective_data_type env pkt \<noteq> DString then None
     else
       let bs = payload pkt; e = trimmed_end bs in
       if e = 0 then None else if utf8_valid (take e bs) then Some (take e bs) else None)"

definition data_as_binary :: "PacketEnv \<Rightarrow> Packet \<Rightarrow> bytes result" where
  "data_as_binary env pkt = bind_r (ensure_kind env Binary pkt) (\<lambda>_. Ok (payload pkt))"

text \<open>\<^verbatim>\<open>from_prim_le_slice_with_sender\<close>: a value is the word with its little-endian bytes;
  floats are their bit patterns.  Byte counts wrap in a release build.\<close>

definition from_prim_le_slice_with_sender ::
  "PacketEnv \<Rightarrow> u32 \<Rightarrow> DataType \<Rightarrow> 'a::len word list \<Rightarrow> DataEndpoint list \<Rightarrow> string \<Rightarrow> u64 \<Rightarrow> Packet result \<times> u32" where
  "from_prim_le_slice_with_sender env counter ty vals eps sender timestamp =
    (let dt = get_data_type env ty;
         element_size = data_type_size (env_lengths env) dt;
         size_of = LENGTH('a) div 8;
         total_bytes = (length vals * element_size) mod 2 ^ 64;
         exact_bytes = (case mm_element (message_meta env ty) of
           Static n _ _ \<Rightarrow> Some ((n * element_size) mod 2 ^ 64) | Dynamic _ _ \<Rightarrow> None) in
     if dt = DBool \<or> dt = DString \<or> dt = Binary then (Err BadArg, counter)
     else if element_size \<noteq> size_of then (Err (TypeMismatch element_size size_of), counter)
     else if (case exact_bytes of Some e \<Rightarrow> total_bytes \<noteq> e | None \<Rightarrow> False)
       then (Err (SizeMismatch (the exact_bytes) total_bytes), counter)
     else packet_new env counter ty eps sender timestamp (concat (map (le_bytes size_of) vals)))"

definition from_prim_le_slice ::
  "PacketEnv \<Rightarrow> u32 \<Rightarrow> DataType \<Rightarrow> 'a::len word list \<Rightarrow> DataEndpoint list \<Rightarrow> u64 \<Rightarrow> Packet result \<times> u32" where
  "from_prim_le_slice env counter ty vals eps timestamp =
    from_prim_le_slice_with_sender env counter ty vals eps (env_device env) timestamp"

definition from_no_data ::
  "PacketEnv \<Rightarrow> u32 \<Rightarrow> DataType \<Rightarrow> DataEndpoint list \<Rightarrow> u64 \<Rightarrow> Packet result \<times> u32" where
  "from_no_data env counter ty eps timestamp =
    (case mm_element (message_meta env ty) of
      Static n _ _ \<Rightarrow>
        if n \<noteq> 0 then (Err (SizeMismatch n 0), counter)
        else packet_new env counter ty eps (env_device env) timestamp []
    | Dynamic _ _ \<Rightarrow> packet_new env counter ty eps (env_device env) timestamp [])"

definition from_bool_slice ::
  "PacketEnv \<Rightarrow> u32 \<Rightarrow> DataType \<Rightarrow> bool list \<Rightarrow> DataEndpoint list \<Rightarrow> u64 \<Rightarrow> Packet result \<times> u32" where
  "from_bool_slice env counter ty vals eps timestamp =
    (if get_data_type env ty \<noteq> DBool then
       (Err (TypeMismatch (data_type_size (env_lengths env) (get_data_type env ty)) 1), counter)
     else if (case mm_element (message_meta env ty) of Static n _ _ \<Rightarrow> length vals \<noteq> n | _ \<Rightarrow> False) then
       (Err (SizeMismatch (element_into (mm_element (message_meta env ty))) (length vals)), counter)
     else packet_new env counter ty eps (env_device env) timestamp (map (\<lambda>b. if b then 1 else 0) vals))"

definition from_str_slice ::
  "PacketEnv \<Rightarrow> u32 \<Rightarrow> DataType \<Rightarrow> string \<Rightarrow> DataEndpoint list \<Rightarrow> u64 \<Rightarrow> Packet result \<times> u32" where
  "from_str_slice env counter ty s eps timestamp =
    (if get_data_type env ty \<noteq> DString then
       (Err (TypeMismatch (data_type_size (env_lengths env) (get_data_type env ty)) 1), counter)
     else packet_new env counter ty eps (env_device env) timestamp (as_bytes s))"

text \<open>\<^verbatim>\<open>queue_byte_cost_saturated\<close>: the two \<^verbatim>\<open>size_of\<close> constants are arguments.\<close>

definition queue_byte_cost_saturated :: "nat \<Rightarrow> nat \<Rightarrow> Packet \<Rightarrow> nat" where
  "queue_byte_cost_saturated size_of_packet size_of_payload pkt =
    (let p = (case pkt_payload pkt of
        Heap a \<Rightarrow> saturating_add size_of_payload (length a)
      | Inline len _ \<Rightarrow> byte_cost_saturated (pkt_payload pkt)) in
     saturating_add
       (saturating_add (saturating_add size_of_packet (length (pkt_sender pkt)))
         (saturating_mul (length (pkt_endpoints pkt)) 4)) p)"

section \<open>Lemmas\<close>

lemma std_payload_simps [simp]:
  "as_slice (std_payload env bs) = Some bs" "payload_len (std_payload env bs) = length bs"
proof -
  obtain p where "from_arc (env_inline env) bs = Some p" "as_slice p = Some bs" "payload_len p = length bs"
    by (rule payload_new_total)
  then show "as_slice (std_payload env bs) = Some bs" "payload_len (std_payload env bs) = length bs"
    by (simp_all add: std_payload_def)
qed

lemma next_packet_nonce_odd: "bit (fst (next_packet_nonce counter)) 0" "fst (next_packet_nonce counter) \<noteq> 0"
proof -
  show "bit (fst (next_packet_nonce counter)) 0"
    by (simp add: next_packet_nonce_def Let_def bit_simps)
  then show "fst (next_packet_nonce counter) \<noteq> 0" by auto
qed

subsection \<open>Endpoint sets\<close>

lemma fold_min_le: "fold min xs (x :: 'a::linorder) \<le> x" "y \<in> set xs \<Longrightarrow> fold min xs x \<le> y"
proof -
  have le: "fold min ys z \<le> z" for ys and z :: 'a
  proof (induction ys arbitrary: z)
    case (Cons a ys)
    have "fold min ys (min a z) \<le> min a z" by (rule Cons)
    from order_trans [OF this min.cobounded2] show ?case by simp
  qed simp
  then show "fold min xs x \<le> x" .
  show "y \<in> set xs \<Longrightarrow> fold min xs x \<le> y"
  proof (induction xs arbitrary: x)
    case (Cons a xs)
    have "fold min xs (min a x) \<le> min a x" by (rule le)
    from order_trans [OF this min.cobounded1] have "fold min xs (min a x) \<le> a" .
    with Cons show ?case by auto
  qed simp
qed

lemma fold_min_eq: "fold min xs (x :: 'a::linorder) = Min (insert x (set xs))"
  using fold_min_in [of xs x] fold_min_le [where xs = xs and x = x] by (intro Min_eqI [symmetric]) auto

definition above :: "DataEndpoint option \<Rightarrow> DataEndpoint list \<Rightarrow> DataEndpoint set" where
  "above previous eps = {ep \<in> set eps. case previous of None \<Rightarrow> True | Some p \<Rightarrow> ep > p}"

lemma finite_above [simp]: "finite (above previous eps)"
  by (simp add: above_def)

lemma least_above_eq:
  "least_above previous eps = (if above previous eps = {} then None else Some (Min (above previous eps)))"
proof -
  let ?f = "filter (\<lambda>ep. case previous of None \<Rightarrow> True | Some p \<Rightarrow> ep > p) eps"
  have "set ?f = above previous eps" by (auto simp: above_def)
  then show ?thesis
    by (cases ?f) (auto simp: least_above_def fold_min_eq simp flip: \<open>set ?f = above previous eps\<close>)
qed

lemma above_Min:
  assumes "above previous eps \<noteq> {}"
  shows "above (Some (Min (above previous eps))) eps = above previous eps - {Min (above previous eps)}"
proof -
  have Min_in: "Min (above previous eps) \<in> above previous eps" using assms by simp
  then have gt: "case previous of None \<Rightarrow> True | Some p \<Rightarrow> Min (above previous eps) > p"
    unfolding above_def by blast
  have "ep \<in> above (Some (Min (above previous eps))) eps \<longleftrightarrow>
      ep \<in> above previous eps - {Min (above previous eps)}" for ep
  proof
    assume "ep \<in> above (Some (Min (above previous eps))) eps"
    then have "ep \<in> set eps" "ep > Min (above previous eps)" by (simp_all add: above_def)
    with gt show "ep \<in> above previous eps - {Min (above previous eps)}"
      by (auto simp: above_def split: option.splits)
  next
    assume "ep \<in> above previous eps - {Min (above previous eps)}"
    then have "ep \<in> above previous eps" "ep \<noteq> Min (above previous eps)" by simp_all
    moreover from this have "Min (above previous eps) < ep" using Min_le [of "above previous eps" ep] by (simp add: order_less_le)
    ultimately show "ep \<in> above (Some (Min (above previous eps))) eps" by (simp add: above_def)
  qed
  then show ?thesis by blast
qed

lemma unique_sorted_from_eq: "unique_sorted_from previous eps = sorted_list_of_set (above previous eps)"
proof (induction previous eps rule: unique_sorted_from.induct)
  case (1 previous eps)
  show ?case
  proof (cases "above previous eps = {}")
    case True
    then show ?thesis by (simp add: unique_sorted_from.simps [of previous] least_above_eq)
  next
    case False
    have "sorted_list_of_set (above previous eps) =
        Min (above previous eps) # sorted_list_of_set (above previous eps - {Min (above previous eps)})"
      using False by (intro sorted_list_of_set_nonempty) simp_all
    with 1 False show ?thesis
      by (simp add: unique_sorted_from.simps [of previous] least_above_eq above_Min)
  qed
qed

lemma unique_sorted_endpoints_eq: "unique_sorted_endpoints eps = sorted_list_of_set (set eps)"
  by (simp add: unique_sorted_endpoints_def unique_sorted_from_eq above_def)

lemma unique_sorted_endpoints_simps [simp]:
  "set (unique_sorted_endpoints eps) = set eps" "sorted_wrt (<) (unique_sorted_endpoints eps)"
  by (simp_all add: unique_sorted_endpoints_eq strict_sorted_list_of_set)

lemma ascending_iff: "ascending eps \<longleftrightarrow> sorted_wrt (<) eps"
proof (induction eps)
  case (Cons x xs)
  have "ascending (x # xs) \<longleftrightarrow> (case xs of [] \<Rightarrow> True | y # _ \<Rightarrow> x < y) \<and> ascending xs"
    by (cases xs) (simp_all add: ascending_def)
  also have "\<dots> \<longleftrightarrow> sorted_wrt (<) (x # xs)"
    unfolding Cons.IH by (cases xs) (auto intro: less_trans)
  finally show ?case .
qed (simp add: ascending_def)

lemma ascending_unique_sorted: "ascending eps \<Longrightarrow> unique_sorted_endpoints eps = eps"
  unfolding ascending_iff unique_sorted_endpoints_eq
  by (metis strict_sorted_equal set_sorted_list_of_set strict_sorted_list_of_set List.finite_set)

lemma packet_id_header_eq:
  "packet_id_header pkt =
    (let h = hash_bytes_u64 0x9E3779B97F4A7C15 (le_bytes 4 (sender_address_u32 (pkt_sender pkt)));
         h = hash_bytes_u64 h (le_bytes 4 (pkt_ty pkt));
         h = fold (\<lambda>ep h. hash_bytes_u64 h (le_bytes 4 ep)) (unique_sorted_endpoints (pkt_endpoints pkt)) h;
         h = hash_bytes_u64 h (le_bytes 8 (pkt_timestamp pkt));
         h = hash_bytes_u64 h (le_bytes 2 (pkt_nonce pkt)) in
     hash_bytes_u64 h (le_bytes 8 (of_nat (pkt_data_size pkt) :: u64)))"
  by (simp add: packet_id_header_def ascending_unique_sorted)

subsection \<open>Constructors\<close>

lemma constructor_ok_iff:
  "new_with_owned_wire_contract env ty eps sender ts nonce p shape targets = Ok pkt \<longleftrightarrow>
    eps \<noteq> [] \<and>
    validate_payload_against_element env
      (case shape of Some s \<Rightarrow> s | None \<Rightarrow> mm_element (message_meta env ty))
      (case as_slice p of Some bs \<Rightarrow> bs | None \<Rightarrow> []) = Ok () \<and>
    pkt = \<lparr>pkt_ty = ty, pkt_data_size = payload_len p, pkt_sender = sender, pkt_endpoints = eps,
      pkt_timestamp = ts, pkt_nonce = nonce, pkt_payload = p, pkt_wire_shape = shape,
      pkt_wire_target_senders = targets\<rparr>"
  by (auto simp: new_with_owned_wire_contract_def Let_def bind_r_ok_iff)

lemma constructor_validates:
  assumes "new_with_owned_wire_contract env ty eps sender ts nonce p shape targets = Ok pkt"
  shows "validate env pkt = Ok ()"
  using assms
  by (cases shape) (auto simp: constructor_ok_iff validate_def effective_element_def payload_def)

lemma packet_new_ok:
  assumes "fst (packet_new env counter ty eps sender ts bs) = Ok pkt"
  shows "payload pkt = bs" "pkt_data_size pkt = length bs" "pkt_ty pkt = ty" "pkt_wire_shape pkt = None"
    "pkt_endpoints pkt = eps" "pkt_sender pkt = sender" "pkt_timestamp pkt = ts" "pkt_nonce pkt \<noteq> 0"
    "validate env pkt = Ok ()"
proof -
  have ok: "new_with_owned_wire_contract env ty eps sender ts (fst (next_packet_nonce counter))
      (std_payload env bs) None None = Ok pkt"
    using assms by (simp add: packet_new_def new_with_nonce_def split_beta)
  then show "payload pkt = bs" "pkt_data_size pkt = length bs" "pkt_ty pkt = ty" "pkt_wire_shape pkt = None"
    "pkt_endpoints pkt = eps" "pkt_sender pkt = sender" "pkt_timestamp pkt = ts" "pkt_nonce pkt \<noteq> 0"
    by (auto simp: constructor_ok_iff payload_def next_packet_nonce_odd(2))
  show "validate env pkt = Ok ()" using ok by (rule constructor_validates)
qed

subsection \<open>Typed access\<close>

lemma chunks_exact_concat:
  assumes "0 < w" "\<forall>x \<in> set xs. length (f x) = w"
  shows "chunks_exact w (concat (map f xs)) = map f xs"
  using assms(2)
proof (induction xs)
  case Nil
  then show ?case using assms(1) by (subst chunks_exact.simps) simp
next
  case (Cons x xs)
  then show ?case using assms(1) by (subst chunks_exact.simps) simp
qed

lemma length_concat_le_bytes: "length (concat (map (le_bytes w) vs)) = length vs * w"
  by (induction vs) simp_all

section \<open>Properties\<close>

text \<open>C31: a packet built from a slice of numbers gives the same numbers back through the
  typed accessor of the schema's element type, whatever their width, and validates.\<close>

theorem typed_payload_roundtrip:
  fixes vals :: "'a::len word list"
  assumes "fst (from_prim_le_slice_with_sender env counter ty vals eps sender ts) = Ok pkt"
    and "8 dvd LENGTH('a)"
  shows "as_le_values env (get_data_type env ty) pkt = Ok vals \<and> validate env pkt = Ok () \<and> pkt_nonce pkt \<noteq> 0"
proof -
  let ?w = "LENGTH('a) div 8"
  obtain k where "LENGTH('a) = 8 * k" using assms(2) by blast
  then have w: "0 < ?w" "LENGTH('a) \<le> 8 * ?w" using len_gt_0 [where 'a = 'a] by simp_all
  have new: "fst (packet_new env counter ty eps sender ts (concat (map (le_bytes ?w) vals))) = Ok pkt"
    using assms(1) by (auto simp: from_prim_le_slice_with_sender_def Let_def split: if_splits)
  note pkt = packet_new_ok [OF new]
  have "map from_le_bytes (chunks_exact ?w (concat (map (le_bytes ?w) vals))) = vals"
    using w by (simp add: chunks_exact_concat from_le_bytes_le_bytes map_idI comp_def)
  moreover have "effective_data_type env pkt = get_data_type env ty"
    by (simp add: effective_data_type_def effective_element_def get_data_type_def pkt)
  ultimately show ?thesis
    by (simp add: as_le_values_def ensure_kind_def Let_def pkt length_concat_le_bytes)
qed


text \<open>C33: the identity of a packet depends on the set of its destinations only: neither
  their order nor duplicates change it.\<close>

theorem packet_id_endpoint_set:
  assumes "set eps = set eps'"
  shows "packet_id (pkt\<lparr>pkt_endpoints := eps\<rparr>) = packet_id (pkt\<lparr>pkt_endpoints := eps'\<rparr>)"
  using assms by (simp add: packet_id_def packet_id_header_eq unique_sorted_endpoints_eq payload_def)

definition example_env :: PacketEnv where
  "example_env = \<lparr>env_registry = \<lparr>endpoints = [], types = [(70000, \<lparr>mm_name = ''GPS'', mm_description = [],
      mm_element = Static 2 UInt16 CData, mm_endpoints = [300], mm_reliable = RNone, mm_priority = 5,
      mm_e2e_encryption = PreferOff\<rparr>)], next_endpoint_id = 0, next_type_id = 0\<rparr>,
    env_lengths = \<lparr>static_string_length = 64, static_hex_length = 64\<rparr>, env_inline = 16, env_device = ''NODE''\<rparr>"

theorem typed_payload_roundtrip_witness:
  "\<exists>pkt. fst (from_prim_le_slice_with_sender example_env 7 70000 [0x1234 :: u16, 0xffff] [300] ''NODE'' 5) = Ok pkt \<and>
    as_le_values example_env (get_data_type example_env 70000) pkt = Ok [0x1234 :: u16, 0xffff]"
proof -
  have meta: "mm_element (message_meta example_env 70000) = Static 2 UInt16 CData"
    by (simp add: example_env_def get_message_meta_def try_get_message_meta_def)
  have "fst (from_prim_le_slice_with_sender example_env 7 70000 [0x1234 :: u16, 0xffff] [300] ''NODE'' 5) =
      fst (packet_new example_env 7 70000 [300] ''NODE'' 5 (concat (map (le_bytes 2) [0x1234 :: u16, 0xffff])))"
    by (simp add: from_prim_le_slice_with_sender_def get_data_type_def meta)
  also have "is_ok \<dots>"
    by (simp add: packet_new_def new_with_nonce_def new_with_owned_wire_contract_def split_beta meta
        validate_payload_against_element_def)
  finally obtain pkt where
    "fst (from_prim_le_slice_with_sender example_env 7 70000 [0x1234 :: u16, 0xffff] [300] ''NODE'' 5) = Ok pkt"
    by (auto simp: is_ok_def split: sum.splits)
  with typed_payload_roundtrip [OF this] show ?thesis by auto
qed

definition example_packet :: Packet where
  "example_packet = \<lparr>pkt_ty = 70000, pkt_data_size = 1, pkt_sender = ''NODE'', pkt_endpoints = [300],
    pkt_timestamp = 5, pkt_nonce = 1, pkt_payload = Heap [7], pkt_wire_shape = None,
    pkt_wire_target_senders = None\<rparr>"

theorem packet_id_endpoint_set_witness:
  "packet_id (example_packet\<lparr>pkt_endpoints := [3, 1, 3]\<rparr>) = packet_id (example_packet\<lparr>pkt_endpoints := [1, 3]\<rparr>)"
  by (rule packet_id_endpoint_set) auto

end
