(* ===== verification/Memory_Admission.thy ===== *)
theory Memory_Admission
  imports Packet
begin

text \<open>
  Allocator-headroom admission (\<^verbatim>\<open>src/src/memory_admission.rs\<close>): the two process-wide
  probe slots, the counter of rejected operations and the checks built on them.  The
  probes are supplied by the application and are functions of the state.  The checks
  of whole received frames, which parse the frame first, are in the theory of the
  wire format.
\<close>

section \<open>State\<close>

record Admission =
  probe_v2 :: "(nat \<Rightarrow> nat \<Rightarrow> u32 \<Rightarrow> bool) option"
  probe :: "(nat \<Rightarrow> nat \<Rightarrow> bool) option"
  rejected :: u64

abbreviation WORK_GENERAL :: u32 where "WORK_GENERAL \<equiv> 0"
abbreviation WORK_CACHED_TRANSIT :: u32 where "WORK_CACHED_TRANSIT \<equiv> 1"
abbreviation WORK_SMALL_PROTECTED :: u32 where "WORK_SMALL_PROTECTED \<equiv> 2"

abbreviation memory_pressure :: "'a result" where
  "memory_pressure \<equiv> Err (Io ''memory pressure'')"

definition set_probe :: "(nat \<Rightarrow> nat \<Rightarrow> bool) option \<Rightarrow> Admission \<Rightarrow> Admission" where
  "set_probe p adm = adm\<lparr>probe_v2 := None, probe := p\<rparr>"

definition set_probe_v2 :: "(nat \<Rightarrow> nat \<Rightarrow> u32 \<Rightarrow> bool) option \<Rightarrow> Admission \<Rightarrow> Admission" where
  "set_probe_v2 p adm = adm\<lparr>probe := None, probe_v2 := p\<rparr>"

definition supports_work_kinds :: "Admission \<Rightarrow> bool" where
  "supports_work_kinds adm = (probe_v2 adm \<noteq> None)"

definition has_probe :: "Admission \<Rightarrow> bool" where
  "has_probe adm = (supports_work_kinds adm \<or> probe adm \<noteq> None)"

definition reject :: "Admission \<Rightarrow> unit result \<times> Admission" where
  "reject adm = (memory_pressure, adm\<lparr>rejected := rejected adm + 1\<rparr>)"

section \<open>Checks\<close>

definition check_work :: "nat \<Rightarrow> nat \<Rightarrow> u32 \<Rightarrow> Admission \<Rightarrow> unit result \<times> Admission" where
  "check_work additional_bytes largest_allocation work adm =
    (case probe_v2 adm of
      Some p \<Rightarrow> if p additional_bytes largest_allocation work then (Ok (), adm) else reject adm
    | None \<Rightarrow>
        (case probe adm of
          None \<Rightarrow> (Ok (), adm)
        | Some p \<Rightarrow> if p additional_bytes largest_allocation then (Ok (), adm) else reject adm))"

definition check :: "nat \<Rightarrow> nat \<Rightarrow> Admission \<Rightarrow> unit result \<times> Admission" where
  "check additional_bytes largest_allocation adm =
    check_work additional_bytes largest_allocation WORK_GENERAL adm"

definition check_frame_kind :: "nat \<Rightarrow> bool \<Rightarrow> u32 \<Rightarrow> Admission \<Rightarrow> unit result \<times> Admission" where
  "check_frame_kind len ack work adm =
    (if ack \<and> len \<le> 128 then check 512 (saturating_add len 32) adm
     else check_work (saturating_add (saturating_mul len 3) 2048) (saturating_add len 32) work adm)"

definition check_frame :: "nat \<Rightarrow> bool \<Rightarrow> Admission \<Rightarrow> unit result \<times> Admission" where
  "check_frame len ack adm = check_frame_kind len ack WORK_GENERAL adm"

definition check_cached_transit :: "nat \<Rightarrow> Admission \<Rightarrow> unit result \<times> Admission" where
  "check_cached_transit len adm =
    (case probe_v2 adm of
      None \<Rightarrow> check_frame len False adm
    | Some p \<Rightarrow>
        if p (saturating_add 1024 (saturating_mul len 2)) 256 WORK_CACHED_TRANSIT then (Ok (), adm)
        else reject adm)"

definition check_small_protected_decode :: "nat \<Rightarrow> Admission \<Rightarrow> unit result \<times> Admission" where
  "check_small_protected_decode len adm = check_frame_kind len False WORK_SMALL_PROTECTED adm"

definition check_compact_reconstruction :: "nat \<Rightarrow> bool \<Rightarrow> Admission \<Rightarrow> unit result \<times> Admission" where
  "check_compact_reconstruction len ack adm =
    (if supports_work_kinds adm \<and> \<not> ack \<and> len \<le> 192 then
       check (saturating_add 512 (saturating_mul len 2)) (saturating_add len 32) adm
     else check_frame len ack adm)"

text \<open>\<^verbatim>\<open>allow_drain\<close>: refused background work counts as done.\<close>

definition allow_drain :: "'a \<Rightarrow> 'a result \<Rightarrow> 'a result" where
  "allow_drain dflt r =
    (case r of
      Inl e \<Rightarrow> if e = Io ''memory pressure'' then Ok dflt else Err e
    | Inr x \<Rightarrow> Ok x)"

section \<open>Protected shapes\<close>

definition protected_discovery_request_shape ::
  "PacketEnv \<Rightarrow> DataType \<Rightarrow> bool \<Rightarrow> bool \<Rightarrow> nat \<Rightarrow> MessageElement option \<Rightarrow> bool" where
  "protected_discovery_request_shape env ty no_payload discovery_only owners shape =
    (no_payload \<and> discovery_only \<and> owners = 0 \<and>
     ty \<in> set [DT_DiscoveryTopologyRequest, DT_DiscoverySchemaRequest] \<and>
     (case shape of None \<Rightarrow> True | Some s \<Rightarrow> s = mm_element (message_meta env ty)))"

definition protected_control_shape ::
  "PacketEnv \<Rightarrow> DataType \<Rightarrow> nat \<Rightarrow> nat \<Rightarrow> MessageElement option \<Rightarrow> bool \<Rightarrow> bool \<Rightarrow> bool" where
  "protected_control_shape env ty eps owners shape reliable managed =
    (if eps > 3 \<or> owners > 3 \<or> (\<not> reliable \<and> owners = 0) then False
     else case try_get_message_meta (env_registry env) ty of
       None \<Rightarrow> False
     | Some meta \<Rightarrow>
         (mm_priority meta \<ge> 200 \<or> managed \<or> owners \<noteq> 0) \<and>
         small_control_shape (mm_element meta) \<and>
         (case shape of None \<Rightarrow> True | Some s \<Rightarrow> small_control_shape s))"

section \<open>Outcomes\<close>

text \<open>The only outcomes of a check: admitted with the state unchanged, or refused by an
  installed probe and counted once.\<close>

definition admission_outcome :: "Admission \<Rightarrow> unit result \<times> Admission \<Rightarrow> bool" where
  "admission_outcome adm r \<longleftrightarrow>
    r = (Ok (), adm) \<or> (has_probe adm \<and> r = (memory_pressure, adm\<lparr>rejected := rejected adm + 1\<rparr>))"

lemma reject_outcome: "has_probe adm \<Longrightarrow> admission_outcome adm (reject adm)"
  by (simp add: admission_outcome_def reject_def)

lemma check_work_outcome: "admission_outcome adm (check_work a l w adm)"
  by (auto simp: check_work_def reject_outcome has_probe_def supports_work_kinds_def split: option.splits)
    (simp_all add: admission_outcome_def)

lemma check_outcomes:
  "admission_outcome adm (check a l adm)"
  "admission_outcome adm (check_frame_kind n ack w adm)"
  "admission_outcome adm (check_frame n ack adm)"
  "admission_outcome adm (check_small_protected_decode n adm)"
  "admission_outcome adm (check_compact_reconstruction n ack adm)"
  by (simp_all add: check_def check_frame_kind_def check_frame_def check_small_protected_decode_def
      check_compact_reconstruction_def check_work_outcome)

lemma check_cached_transit_outcome: "admission_outcome adm (check_cached_transit n adm)"
proof (cases "probe_v2 adm")
  case None
  then show ?thesis by (simp add: check_cached_transit_def check_outcomes)
next
  case (Some p)
  then have "admission_outcome adm (reject adm)"
    by (intro reject_outcome) (simp add: has_probe_def supports_work_kinds_def)
  then show ?thesis by (simp add: check_cached_transit_def Some) (simp add: admission_outcome_def)
qed

lemma outcome_without_probe: "admission_outcome adm r \<Longrightarrow> \<not> has_probe adm \<Longrightarrow> r = (Ok (), adm)"
  by (auto simp: admission_outcome_def)

end
