(* ===== verification/Wire_Codec.thy ===== *)
theory Wire_Codec
  imports Varint Packet
begin

text \<open>
  The building blocks of the wire format (\<^verbatim>\<open>src/src/wire_format.rs\<close>): the byte cursor,
  the inline payload shape, the frozen wire contract, the CRC trailer and the two
  forms of the reliable header.  A reader is a function of the cursor that returns a
  value and the advanced cursor, or an error.  The checksum is the crate
  \<^verbatim>\<open>crc32fast\<close> and enters as a function argument.  Proved: each reader reads back what
  the matching writer appended, in any context, and the size functions are exact.
\<close>

section \<open>Byte cursor\<close>

record ByteReader =
  rd_buf :: bytes
  rd_off :: nat

type_synonym 'a reader = "ByteReader \<Rightarrow> ('a \<times> ByteReader) result"

definition reader_new :: "bytes \<Rightarrow> ByteReader" where
  "reader_new buf = \<lparr>rd_buf = buf, rd_off = 0\<rparr>"

definition remaining :: "ByteReader \<Rightarrow> nat" where
  "remaining r = saturating_sub (length (rd_buf r)) (rd_off r)"

definition read_bytes :: "nat \<Rightarrow> bytes reader" where
  "read_bytes n r =
    (if remaining r < n then short_read
     else Ok (take n (drop (rd_off r) (rd_buf r)), r\<lparr>rd_off := rd_off r + n\<rparr>))"

text \<open>Sequencing of readers with the \<^verbatim>\<open>?\<close> operator, and the reader that consumes nothing.\<close>

definition seq_rd :: "'a reader \<Rightarrow> ('a \<Rightarrow> 'b reader) \<Rightarrow> 'b reader" where
  "seq_rd m f r = bind_r (m r) (\<lambda>(x, r'). f x r')"

definition give :: "'a \<Rightarrow> 'a reader" where
  "give x r = Ok (x, r)"

definition fail_rd :: "TelemetryError \<Rightarrow> 'a reader" where
  "fail_rd e r = Err e"

text \<open>\<^verbatim>\<open>r.read_bytes(1)?[0]\<close>\<close>

definition read_byte :: "u8 reader" where
  "read_byte = seq_rd (read_bytes 1) (\<lambda>bs. give (hd bs))"

definition read_uleb128 :: "u64 reader" where
  "read_uleb128 r =
    (case read_u64 (rd_buf r) (rd_off r) of (res, off) \<Rightarrow> bind_r res (\<lambda>v. Ok (v, r\<lparr>rd_off := off\<rparr>)))"

text \<open>\<^verbatim>\<open>uN::try_from(read_uleb128(r)?)\<close> with the error text of the call.\<close>

definition read_uleb_narrow :: "string \<Rightarrow> 'a::len word reader" where
  "read_uleb_narrow msg =
    seq_rd read_uleb128 (\<lambda>v. if unat v < 2 ^ LENGTH('a) then give (ucast v) else fail_rd (Unpack msg))"

definition write_u32_le :: "u32 \<Rightarrow> bytes \<Rightarrow> bytes" where
  "write_u32_le v out = out @ le_bytes 4 v"

definition read_u32_le :: "u32 reader" where
  "read_u32_le = seq_rd (read_bytes 4) (\<lambda>b. give (from_le_bytes b))"

section \<open>Wire shape\<close>

definition write_wire_shape :: "MessageElement \<Rightarrow> bytes \<Rightarrow> bytes" where
  "write_wire_shape shape out =
    (let dt = message_data_type_code (data_type shape);
         cls = message_class_code (message_type shape);
         packed = dt OR push_bit 4 cls in
     case shape of
       Static n _ _ \<Rightarrow> write_uleb128 (of_nat n) (out @ [packed OR 0x40])
     | Dynamic _ _ \<Rightarrow> out @ [packed])"

definition decode_wire_shape :: "MessageElement reader" where
  "decode_wire_shape =
    seq_rd read_byte (\<lambda>packed.
      case message_data_type_from_code (packed AND 0x0F) of
        None \<Rightarrow> fail_rd (Unpack ''wire shape type'')
      | Some dt \<Rightarrow>
          (case message_class_from_code (drop_bit 4 packed AND 0x03) of
            None \<Rightarrow> fail_rd (Unpack ''wire shape class'')
          | Some cls \<Rightarrow>
              if packed AND 0x40 \<noteq> 0
              then seq_rd read_uleb128 (\<lambda>n. give (Static (unat n) dt cls))
              else give (Dynamic dt cls)))"

section \<open>Wire contract\<close>

record WireContract =
  wc_shape :: "MessageElement option"
  wc_target_senders :: "u64 list option"
  wc_has_reliable_header :: bool

abbreviation (input) CONTRACT_FLAG_TARGETS :: u8 where "CONTRACT_FLAG_TARGETS \<equiv> 0x01"
abbreviation (input) CONTRACT_FLAG_SHAPE :: u8 where "CONTRACT_FLAG_SHAPE \<equiv> 0x02"
abbreviation (input) CONTRACT_FLAG_RELIABLE_HEADER :: u8 where "CONTRACT_FLAG_RELIABLE_HEADER \<equiv> 0x04"

definition contract_flags :: "bool \<Rightarrow> bool \<Rightarrow> bool \<Rightarrow> u8" where
  "contract_flags targets shape reliable =
    (if targets then CONTRACT_FLAG_TARGETS else 0) OR (if shape then CONTRACT_FLAG_SHAPE else 0) OR
    (if reliable then CONTRACT_FLAG_RELIABLE_HEADER else 0)"

definition write_wire_contract :: "MessageElement option \<Rightarrow> u64 list \<Rightarrow> bool \<Rightarrow> bytes \<Rightarrow> bytes" where
  "write_wire_contract shape target_senders has_reliable_header out =
    (let out = out @ [contract_flags (target_senders \<noteq> []) (shape \<noteq> None) has_reliable_header];
         out = (case shape of Some s \<Rightarrow> write_wire_shape s out | None \<Rightarrow> out) in
     if target_senders = [] then out
     else write_uleb128 (of_nat (length target_senders)) out @ concat (map (le_bytes 8) target_senders))"

definition wire_contract_size :: "MessageElement option \<Rightarrow> u64 list \<Rightarrow> nat" where
  "wire_contract_size shape target_senders =
    1 + (case shape of
          None \<Rightarrow> 0
        | Some s \<Rightarrow> (case s of Static n _ _ \<Rightarrow> 1 + uleb128_size (of_nat n) | Dynamic _ _ \<Rightarrow> 1)) +
    (if target_senders = [] then 0
     else uleb128_size (of_nat (length target_senders)) + length target_senders * 8)"

primrec read_targets :: "nat \<Rightarrow> u64 list reader" where
  "read_targets 0 = give []"
| "read_targets (Suc n) =
    seq_rd (read_bytes 8) (\<lambda>b. seq_rd (read_targets n) (\<lambda>ts. give (from_le_bytes b # ts)))"

definition decode_targets :: "u64 list option reader" where
  "decode_targets =
    seq_rd read_uleb128 (\<lambda>n cr.
      if unat n > remaining cr div 8 then Err (Unpack ''wire contract target count'')
      else if n = 0 then Ok (None, cr)
      else seq_rd (read_targets (unat n)) (\<lambda>ts. give (Some ts)) cr)"

text \<open>The contract is parsed through a reader bounded to its own bytes.\<close>

definition decode_contract_body :: "WireContract reader" where
  "decode_contract_body =
    seq_rd read_byte (\<lambda>flags.
    seq_rd (if flags AND CONTRACT_FLAG_SHAPE \<noteq> 0 then seq_rd decode_wire_shape (\<lambda>s. give (Some s)) else give None) (\<lambda>shape.
    seq_rd (if flags AND CONTRACT_FLAG_TARGETS \<noteq> 0 then decode_targets else give None) (\<lambda>targets cr.
      if remaining cr \<noteq> 0 then Err (Unpack ''wire contract trailing bytes'')
      else Ok (\<lparr>wc_shape = shape, wc_target_senders = targets,
               wc_has_reliable_header = (flags AND CONTRACT_FLAG_RELIABLE_HEADER \<noteq> 0)\<rparr>, cr))))"

definition decode_wire_contract :: "bool \<Rightarrow> WireContract reader" where
  "decode_wire_contract has_contract =
    (if \<not> has_contract
     then give \<lparr>wc_shape = None, wc_target_senders = None, wc_has_reliable_header = False\<rparr>
     else
       seq_rd read_uleb128 (\<lambda>contract_len.
       seq_rd (read_bytes (unat contract_len)) (\<lambda>contract_bytes r.
         bind_r (decode_contract_body (reader_new contract_bytes)) (\<lambda>(c, _). Ok (c, r)))))"

section \<open>CRC trailer\<close>

definition append_crc32 :: "(bytes \<Rightarrow> u32) \<Rightarrow> bytes \<Rightarrow> bytes" where
  "append_crc32 crc out = out @ le_bytes 4 (crc out)"

text \<open>\<^verbatim>\<open>join_frame_with_crc\<close> hashes header and payload in two updates, which is the checksum
  of their concatenation.\<close>

definition join_frame_with_crc :: "(bytes \<Rightarrow> u32) \<Rightarrow> bytes \<Rightarrow> bytes \<Rightarrow> bytes" where
  "join_frame_with_crc crc header pl = header @ pl @ le_bytes 4 (crc (header @ pl))"

definition split_crc32 :: "bytes \<Rightarrow> (bytes \<times> u32) result" where
  "split_crc32 buf =
    (if length buf < 4 then Err (Unpack ''short buffer'')
     else let data_len = length buf - 4 in Ok (take data_len buf, from_le_bytes (drop data_len buf)))"

definition verify_crc32 :: "(bytes \<Rightarrow> u32) \<Rightarrow> bytes \<Rightarrow> bytes result" where
  "verify_crc32 crc buf =
    bind_r (split_crc32 buf) (\<lambda>(data, expected).
      if crc data \<noteq> expected then Err (Unpack ''crc32 mismatch'') else Ok data)"

section \<open>Reliable header\<close>

record ReliableHeader =
  rh_flags :: u8
  rh_seq :: u32
  rh_ack :: u32

abbreviation (input) RELIABLE_FLAG_ACK_ONLY :: u8 where "RELIABLE_FLAG_ACK_ONLY \<equiv> 0x01"
abbreviation (input) RELIABLE_FLAG_UNORDERED :: u8 where "RELIABLE_FLAG_UNORDERED \<equiv> 0x02"
abbreviation (input) RELIABLE_FLAG_UNSEQUENCED :: u8 where "RELIABLE_FLAG_UNSEQUENCED \<equiv> 0x80"
abbreviation (input) RELIABLE_WIRE_FLAG_SEQ_PRESENT :: u8 where "RELIABLE_WIRE_FLAG_SEQ_PRESENT \<equiv> 0x04"
abbreviation (input) RELIABLE_WIRE_FLAG_ACK_PRESENT :: u8 where "RELIABLE_WIRE_FLAG_ACK_PRESENT \<equiv> 0x08"

definition RELIABLE_PUBLIC_FLAGS_MASK :: u8 where
  "RELIABLE_PUBLIC_FLAGS_MASK = RELIABLE_FLAG_ACK_ONLY OR RELIABLE_FLAG_UNORDERED OR RELIABLE_FLAG_UNSEQUENCED"

definition RELIABLE_HEADER_BYTES :: nat where
  "RELIABLE_HEADER_BYTES = 1 + 4 + 4"

definition write_reliable_header :: "ReliableHeader \<Rightarrow> bytes \<Rightarrow> bytes" where
  "write_reliable_header h out = write_u32_le (rh_ack h) (write_u32_le (rh_seq h) (out @ [rh_flags h]))"

definition seq_present :: "ReliableHeader \<Rightarrow> bool" where
  "seq_present h \<longleftrightarrow> rh_flags h AND RELIABLE_FLAG_ACK_ONLY = 0 \<or> rh_seq h \<noteq> 0"

definition ack_present :: "ReliableHeader \<Rightarrow> bool" where
  "ack_present h \<longleftrightarrow> rh_ack h \<noteq> 0 \<or> rh_flags h AND RELIABLE_FLAG_ACK_ONLY \<noteq> 0"

definition reliable_compact_size :: "ReliableHeader \<Rightarrow> nat" where
  "reliable_compact_size h =
    1 + (if seq_present h then uleb128_size (ucast (rh_seq h)) else 0) +
    (if ack_present h then uleb128_size (ucast (rh_ack h)) else 0)"

definition should_compact_reliable_header :: "ReliableHeader \<Rightarrow> bool" where
  "should_compact_reliable_header h = (reliable_compact_size h < RELIABLE_HEADER_BYTES)"

definition reliable_wire_size :: "ReliableHeader \<Rightarrow> bool \<Rightarrow> nat" where
  "reliable_wire_size h compact = (if compact then reliable_compact_size h else RELIABLE_HEADER_BYTES)"

definition compact_wire_flags :: "ReliableHeader \<Rightarrow> u8" where
  "compact_wire_flags h =
    (rh_flags h AND RELIABLE_PUBLIC_FLAGS_MASK) OR
    (if seq_present h then RELIABLE_WIRE_FLAG_SEQ_PRESENT else 0) OR
    (if ack_present h then RELIABLE_WIRE_FLAG_ACK_PRESENT else 0)"

definition write_reliable_header_encoded :: "ReliableHeader \<Rightarrow> bool \<Rightarrow> bytes \<Rightarrow> bytes" where
  "write_reliable_header_encoded h compact out =
    (if \<not> compact then write_reliable_header h out
     else
       let out = out @ [compact_wire_flags h];
           out = (if seq_present h then write_uleb128 (ucast (rh_seq h)) out else out) in
       if ack_present h then write_uleb128 (ucast (rh_ack h)) out else out)"

definition read_reliable_header :: "ReliableHeader reader" where
  "read_reliable_header =
    seq_rd read_byte (\<lambda>flags. seq_rd read_u32_le (\<lambda>sq. seq_rd read_u32_le (\<lambda>ack.
      give \<lparr>rh_flags = flags, rh_seq = sq, rh_ack = ack\<rparr>)))"

definition read_reliable_header_compact :: "ReliableHeader reader" where
  "read_reliable_header_compact =
    seq_rd read_byte (\<lambda>wire_flags.
    seq_rd (if wire_flags AND RELIABLE_WIRE_FLAG_SEQ_PRESENT \<noteq> 0
            then read_uleb_narrow ''reliable seq too large'' else give 0) (\<lambda>sq.
    seq_rd (if wire_flags AND RELIABLE_WIRE_FLAG_ACK_PRESENT \<noteq> 0
            then read_uleb_narrow ''reliable ack too large'' else give 0) (\<lambda>ack.
      give \<lparr>rh_flags = wire_flags AND RELIABLE_PUBLIC_FLAGS_MASK, rh_seq = sq, rh_ack = ack\<rparr>)))"

definition read_reliable_header_encoded :: "bool \<Rightarrow> ReliableHeader reader" where
  "read_reliable_header_encoded compact =
    (if compact then read_reliable_header_compact else read_reliable_header)"

section \<open>Reading back in any context\<close>

text \<open>The reader finds the encoding at any offset, returns the value and stops right behind
  it, whatever precedes and follows.\<close>

definition decodes :: "'a reader \<Rightarrow> bytes \<Rightarrow> 'a \<Rightarrow> bool" where
  "decodes rd xs v \<longleftrightarrow>
    (\<forall>pre post. rd \<lparr>rd_buf = pre @ xs @ post, rd_off = length pre\<rparr> =
      Ok (v, \<lparr>rd_buf = pre @ xs @ post, rd_off = length pre + length xs\<rparr>))"

named_theorems decode_intros \<open>readers that read back their writer\<close>

lemma decodesD:
  "decodes rd xs v \<Longrightarrow> rd \<lparr>rd_buf = pre @ xs @ post, rd_off = length pre\<rparr> =
    Ok (v, \<lparr>rd_buf = pre @ xs @ post, rd_off = length pre + length xs\<rparr>)"
  by (simp add: decodes_def)

lemma decodes_at:
  assumes "decodes rd xs v" "buf = pre @ xs @ post" "off = length pre"
  shows "rd \<lparr>rd_buf = buf, rd_off = off\<rparr> = Ok (v, \<lparr>rd_buf = buf, rd_off = off + length xs\<rparr>)"
  using decodesD [OF assms(1), of pre post] by (simp add: assms(2, 3))

lemma decodes_start:
  "decodes rd xs v \<Longrightarrow> rd (reader_new (xs @ post)) = Ok (v, \<lparr>rd_buf = xs @ post, rd_off = length xs\<rparr>)"
  using decodesD [of rd xs v "[]" post] by (simp add: reader_new_def)

lemma seq_rd_step: "m r = Ok (x, r') \<Longrightarrow> seq_rd m f r = f x r'"
  by (simp add: seq_rd_def)

lemma decodes_give [decode_intros]: "decodes (give v) [] v"
  by (simp add: decodes_def give_def)

lemma decodes_seq:
  assumes "decodes m xs v" "decodes (f v) ys w"
  shows "decodes (seq_rd m f) (xs @ ys) w"
  unfolding decodes_def
proof (intro allI)
  fix pre post
  have "m \<lparr>rd_buf = pre @ xs @ (ys @ post), rd_off = length pre\<rparr> =
      Ok (v, \<lparr>rd_buf = pre @ xs @ (ys @ post), rd_off = length pre + length xs\<rparr>)"
    by (rule decodesD [OF assms(1)])
  moreover have "f v \<lparr>rd_buf = (pre @ xs) @ ys @ post, rd_off = length (pre @ xs)\<rparr> =
      Ok (w, \<lparr>rd_buf = (pre @ xs) @ ys @ post, rd_off = length (pre @ xs) + length ys\<rparr>)"
    by (rule decodesD [OF assms(2)])
  ultimately show "seq_rd m f \<lparr>rd_buf = pre @ (xs @ ys) @ post, rd_off = length pre\<rparr> =
      Ok (w, \<lparr>rd_buf = pre @ (xs @ ys) @ post, rd_off = length pre + length (xs @ ys)\<rparr>)"
    by (simp add: seq_rd_def add.assoc)
qed

lemma decodes_seq_give: "decodes m xs v \<Longrightarrow> decodes (seq_rd m (\<lambda>x. give (g x))) xs (g v)"
  using decodes_seq [of m xs v "\<lambda>x. give (g x)" "[]" "g v"] decodes_give [of "g v"] by simp

lemma decodes_seq_last: "decodes m xs v \<Longrightarrow> decodes (f v) [] w \<Longrightarrow> decodes (seq_rd m f) xs w"
  using decodes_seq [of m xs v f "[]" w] by simp

lemma decodes_read_bytes [decode_intros]: "n = length xs \<Longrightarrow> decodes (read_bytes n) xs xs"
  by (simp add: decodes_def read_bytes_def remaining_def)

lemma decodes_read_byte [decode_intros]: "decodes read_byte [b] b"
  using decodes_seq_give [OF decodes_read_bytes [of 1 "[b]"], of hd] by (simp add: read_byte_def)

lemma decodes_uleb [decode_intros]: "decodes read_uleb128 (uleb v) v"
  unfolding decodes_def
proof (intro allI)
  fix pre post
  have "read_u64 (pre @ uleb v @ post) (length pre) = (Ok v, length pre + length (uleb v))"
    using read_u64_loop_uleb [of v 0 "pre @ uleb v @ post" pre post 0] unsigned_less [of v]
    by (simp add: read_u64_def)
  then show "read_uleb128 \<lparr>rd_buf = pre @ uleb v @ post, rd_off = length pre\<rparr> =
      Ok (v, \<lparr>rd_buf = pre @ uleb v @ post, rd_off = length pre + length (uleb v)\<rparr>)"
    by (simp add: read_uleb128_def)
qed

lemma unat_ucast_u64: "LENGTH('a) \<le> 64 \<Longrightarrow> unat (ucast w :: u64) = unat w" for w :: "'a::len word"
proof -
  assume "LENGTH('a) \<le> 64"
  then have "unat w < 2 ^ 64"
    by (intro order.strict_trans2 [OF unsigned_less [of w, where ?'a = nat]] power_increasing) simp_all
  then show ?thesis by (simp add: unsigned_ucast_eq take_bit_nat_eq_self)
qed

lemma ucast_ucast_u64: "LENGTH('a) \<le> 64 \<Longrightarrow> (ucast (ucast w :: u64) :: 'a word) = w" for w :: "'a::len word"
  by (rule bit_word_eqI) (auto simp: bit_ucast_iff)

lemma decodes_narrow [decode_intros]:
  fixes w :: "'a::len word"
  assumes "LENGTH('a) \<le> 64"
  shows "decodes (read_uleb_narrow msg) (uleb (ucast w)) w"
proof -
  have "unat (ucast w :: u64) < 2 ^ LENGTH('a)"
    using unsigned_less [of w, where ?'a = nat] by (simp add: unat_ucast_u64 [OF assms])
  then have "decodes (if unat (ucast w :: u64) < 2 ^ LENGTH('a) then give (ucast (ucast w :: u64) :: 'a word)
      else fail_rd (Unpack msg)) [] w"
    using decodes_give [of w] by (simp add: ucast_ucast_u64 [OF assms])
  then show ?thesis
    unfolding read_uleb_narrow_def by (rule decodes_seq_last [OF decodes_uleb])
qed

lemma decodes_u32_le [decode_intros]: "decodes read_u32_le (le_bytes 4 w) w"
  using decodes_seq_give [OF decodes_read_bytes [of 4 "le_bytes 4 w"], of "from_le_bytes :: bytes \<Rightarrow> u32"]
  by (simp add: read_u32_le_def from_le_bytes_le_bytes)

section \<open>Round trips of the parts\<close>

definition shape_bytes :: "MessageElement \<Rightarrow> bytes" where
  "shape_bytes s = write_wire_shape s []"

definition shape_fits :: "MessageElement \<Rightarrow> bool" where
  "shape_fits s = (case s of Static n _ _ \<Rightarrow> n < 2 ^ 64 | Dynamic _ _ \<Rightarrow> True)"

lemma write_wire_shape_append: "write_wire_shape s out = out @ shape_bytes s"
  by (cases s) (simp_all add: shape_bytes_def write_wire_shape_def write_uleb128_append Let_def)

lemma packed_shape_fields:
  "(message_data_type_code dt OR push_bit 4 (message_class_code c)) AND 0x0F = message_data_type_code dt"
  "drop_bit 4 (message_data_type_code dt OR push_bit 4 (message_class_code c)) AND 0x03 = message_class_code c"
  "(message_data_type_code dt OR push_bit 4 (message_class_code c)) AND 0x40 = 0"
  "((message_data_type_code dt OR push_bit 4 (message_class_code c)) OR 0x40) AND 0x0F = message_data_type_code dt"
  "drop_bit 4 ((message_data_type_code dt OR push_bit 4 (message_class_code c)) OR 0x40) AND 0x03 = message_class_code c"
  "((message_data_type_code dt OR push_bit 4 (message_class_code c)) OR 0x40) AND 0x40 \<noteq> 0"
  by (cases dt; cases c; simp)+

lemma decodes_shape [decode_intros]:
  assumes "shape_fits s"
  shows "decodes decode_wire_shape (shape_bytes s) s"
proof (cases s)
  case (Static n dt c)
  define packed where "packed = (message_data_type_code dt OR push_bit 4 (message_class_code c)) OR 0x40"
  have n: "unat (of_nat n :: u64) = n"
    using assms by (simp add: Static shape_fits_def unsigned_of_nat take_bit_nat_eq_self)
  have b: "shape_bytes s = [packed] @ uleb (of_nat n)"
    by (simp add: Static shape_bytes_def write_wire_shape_def write_uleb128_append packed_def Let_def)
  have "decodes (seq_rd read_uleb128 (\<lambda>k. give (Static (unat k) dt c))) (uleb (of_nat n)) s"
    using decodes_seq_give [OF decodes_uleb [of "of_nat n"], of "\<lambda>k. Static (unat k) dt c"] by (simp add: n Static)
  then show ?thesis
    unfolding b decode_wire_shape_def
    by (intro decodes_seq [OF decodes_read_byte])
      (simp add: packed_shape_fields(4-6) [of dt c, folded packed_def])
next
  case (Dynamic dt c)
  define packed where "packed = message_data_type_code dt OR push_bit 4 (message_class_code c)"
  have b: "shape_bytes s = [packed] @ []"
    by (simp add: Dynamic shape_bytes_def write_wire_shape_def packed_def Let_def)
  show ?thesis
    unfolding b decode_wire_shape_def
    by (intro decodes_seq [OF decodes_read_byte])
      (simp add: packed_shape_fields(1-3) [of dt c, folded packed_def] Dynamic decodes_give)
qed

lemma length_shape_bytes:
  "length (shape_bytes s) = (case s of Static n _ _ \<Rightarrow> 1 + uleb128_size (of_nat n) | Dynamic _ _ \<Rightarrow> 1)"
  by (cases s) (simp_all add: shape_bytes_def write_wire_shape_def write_uleb128_append uleb128_size_eq_length Let_def)

subsection \<open>Contract\<close>

lemma decodes_targets_loop: "decodes (read_targets (length ts)) (concat (map (le_bytes 8) ts)) ts"
proof (induction ts)
  case Nil
  then show ?case by (simp add: decodes_give)
next
  case (Cons a ts)
  have "decodes (seq_rd (read_targets (length ts)) (\<lambda>us. give (from_le_bytes (le_bytes 8 a) # us)))
      (concat (map (le_bytes 8) ts)) (a # ts)"
    using decodes_seq_give [OF Cons.IH, of "\<lambda>us. a # us"] by (simp add: from_le_bytes_le_bytes)
  then show ?case
    using decodes_seq [OF decodes_read_bytes [of 8 "le_bytes 8 a"]] by simp
qed

lemma length_concat_le8 [simp]: "length (concat (map (le_bytes 8) ts)) = 8 * length ts" for ts :: "u64 list"
  by (induction ts) simp_all

definition target_bytes :: "u64 list \<Rightarrow> bytes" where
  "target_bytes ts = (if ts = [] then [] else uleb (of_nat (length ts)) @ concat (map (le_bytes 8) ts))"

lemma decodes_targets:
  assumes "ts \<noteq> []" "length ts < 2 ^ 64"
  shows "decodes decode_targets (target_bytes ts) (Some ts)"
proof -
  have n: "unat (of_nat (length ts) :: u64) = length ts"
    using assms(2) by (simp add: unsigned_of_nat take_bit_nat_eq_self)
  then have "of_nat (length ts) \<noteq> (0 :: u64)"
    using assms(1) by (metis length_0_conv unsigned_0)
  then have "decodes (\<lambda>cr. if unat (of_nat (length ts) :: u64) > remaining cr div 8
        then Err (Unpack ''wire contract target count'')
      else if of_nat (length ts) = (0 :: u64) then Ok (None, cr)
      else seq_rd (read_targets (unat (of_nat (length ts) :: u64))) (\<lambda>ts. give (Some ts)) cr)
    (concat (map (le_bytes 8) ts)) (Some ts)"
    using decodes_seq_give [OF decodes_targets_loop [of ts], of Some]
    by (simp add: decodes_def n remaining_def)
  then have "decodes decode_targets (uleb (of_nat (length ts)) @ concat (map (le_bytes 8) ts)) (Some ts)"
    unfolding decode_targets_def by (rule decodes_seq [OF decodes_uleb])
  then show ?thesis
    using assms(1) by (simp add: target_bytes_def)
qed

definition contract_bytes :: "MessageElement option \<Rightarrow> u64 list \<Rightarrow> bool \<Rightarrow> bytes" where
  "contract_bytes shape ts rel = write_wire_contract shape ts rel []"

lemma contract_bytes_eq:
  "contract_bytes shape ts rel =
    [contract_flags (ts \<noteq> []) (shape \<noteq> None) rel] @ (case shape of Some s \<Rightarrow> shape_bytes s | None \<Rightarrow> []) @ target_bytes ts"
  by (simp add: contract_bytes_def write_wire_contract_def target_bytes_def write_wire_shape_append
      write_uleb128_append Let_def split: option.splits)

lemma write_wire_contract_append:
  "write_wire_contract shape ts rel out = out @ contract_bytes shape ts rel"
  by (simp add: contract_bytes_eq write_wire_contract_def target_bytes_def write_wire_shape_append
      write_uleb128_append Let_def split: option.splits)

lemma wire_contract_size_eq: "wire_contract_size shape ts = length (contract_bytes shape ts rel)"
  by (simp add: contract_bytes_eq wire_contract_size_def target_bytes_def length_shape_bytes uleb128_size_eq_length
      split: option.splits)

lemma contract_flags_read:
  "contract_flags t s r AND CONTRACT_FLAG_TARGETS \<noteq> 0 \<longleftrightarrow> t"
  "contract_flags t s r AND CONTRACT_FLAG_SHAPE \<noteq> 0 \<longleftrightarrow> s"
  "contract_flags t s r AND CONTRACT_FLAG_RELIABLE_HEADER \<noteq> 0 \<longleftrightarrow> r"
  by (simp_all add: contract_flags_def)

definition contract_fits :: "MessageElement option \<Rightarrow> u64 list \<Rightarrow> bool" where
  "contract_fits shape ts \<longleftrightarrow>
    (case shape of Some s \<Rightarrow> shape_fits s | None \<Rightarrow> True) \<and> wire_contract_size shape ts < 2 ^ 64"

definition contract_value :: "MessageElement option \<Rightarrow> u64 list \<Rightarrow> bool \<Rightarrow> WireContract" where
  "contract_value shape ts rel =
    \<lparr>wc_shape = shape, wc_target_senders = (if ts = [] then None else Some ts), wc_has_reliable_header = rel\<rparr>"

lemma decodes_contract_body:
  assumes "contract_fits shape ts"
  shows "decode_contract_body (reader_new (contract_bytes shape ts rel)) =
    Ok (contract_value shape ts rel,
      \<lparr>rd_buf = contract_bytes shape ts rel, rd_off = length (contract_bytes shape ts rel)\<rparr>)"
proof -
  define flags where "flags = contract_flags (ts \<noteq> []) (shape \<noteq> None) rel"
  note fl = contract_flags_read [of "ts \<noteq> []" "shape \<noteq> None" rel, folded flags_def]
  define sb where "sb = (case shape of Some s \<Rightarrow> shape_bytes s | None \<Rightarrow> [])"
  define buf where "buf = contract_bytes shape ts rel"
  have buf: "buf = [flags] @ sb @ target_bytes ts"
    by (simp add: buf_def contract_bytes_eq flags_def sb_def)
  have len: "length ts < 2 ^ 64"
    using assms by (cases "ts = []") (auto simp: contract_fits_def wire_contract_size_def split: option.splits)
  have 1: "read_byte \<lparr>rd_buf = buf, rd_off = 0\<rparr> = Ok (flags, \<lparr>rd_buf = buf, rd_off = 1\<rparr>)"
    using decodes_at [OF decodes_read_byte [of flags], of buf "[]" "sb @ target_bytes ts" 0] by (simp add: buf)
  have "decodes (if shape \<noteq> None then seq_rd decode_wire_shape (\<lambda>s. give (Some s)) else give None) sb shape"
    using assms by (auto simp: sb_def contract_fits_def decodes_give split: option.splits
        intro!: decodes_seq_give decodes_shape)
  from decodes_at [OF this, of buf "[flags]" "target_bytes ts" 1]
  have 2: "(if shape \<noteq> None then seq_rd decode_wire_shape (\<lambda>s. give (Some s)) else give None)
      \<lparr>rd_buf = buf, rd_off = 1\<rparr> = Ok (shape, \<lparr>rd_buf = buf, rd_off = 1 + length sb\<rparr>)"
    by (simp add: buf)
  have "decodes (if ts \<noteq> [] then decode_targets else give None) (target_bytes ts) (if ts = [] then None else Some ts)"
    using decodes_targets [OF _ len] by (simp add: decodes_give target_bytes_def)
  from decodes_at [OF this, of buf "[flags] @ sb" "[]" "1 + length sb"]
  have 3: "(if ts \<noteq> [] then decode_targets else give None) \<lparr>rd_buf = buf, rd_off = 1 + length sb\<rparr> =
      Ok (if ts = [] then None else Some ts, \<lparr>rd_buf = buf, rd_off = length buf\<rparr>)"
    by (simp add: buf)
  show ?thesis
    unfolding buf_def [symmetric] decode_contract_body_def reader_new_def
    by (simp only: seq_rd_step 1 2 3 fl)
      (simp add: remaining_def contract_value_def)
qed

definition contract_frame :: "MessageElement option \<Rightarrow> u64 list \<Rightarrow> bool \<Rightarrow> bytes" where
  "contract_frame shape ts rel =
    uleb (of_nat (wire_contract_size shape ts)) @ contract_bytes shape ts rel"

lemma decodes_contract [decode_intros]:
  assumes "contract_fits shape ts"
  shows "decodes (decode_wire_contract True) (contract_frame shape ts rel) (contract_value shape ts rel)"
proof -
  have n: "unat (of_nat (wire_contract_size shape ts) :: u64) = length (contract_bytes shape ts rel)"
    using assms wire_contract_size_eq [of shape ts rel]
    by (simp add: contract_fits_def unsigned_of_nat take_bit_nat_eq_self)
  have "decodes (\<lambda>r. bind_r (decode_contract_body (reader_new (contract_bytes shape ts rel))) (\<lambda>(c, _). Ok (c, r)))
      [] (contract_value shape ts rel)"
    by (simp add: decodes_contract_body [OF assms] decodes_def)
  then show ?thesis
    unfolding contract_frame_def decode_wire_contract_def
    by (simp del: append_assoc)
      (intro decodes_seq [OF decodes_uleb] decodes_seq_last [OF decodes_read_bytes], simp_all add: n)
qed

lemma decodes_no_contract [decode_intros]:
  "decodes (decode_wire_contract False) [] (contract_value None [] False)"
  by (simp add: decode_wire_contract_def contract_value_def decodes_give)

subsection \<open>CRC trailer\<close>

lemma split_crc32_append: "split_crc32 (d @ le_bytes 4 w) = Ok (d, w)"
  by (simp add: split_crc32_def from_le_bytes_le_bytes)

lemma verify_crc32_append [simp]:
  "verify_crc32 crc (d @ le_bytes 4 w) = (if crc d = w then Ok d else Err (Unpack ''crc32 mismatch''))"
  by (simp add: verify_crc32_def split_crc32_append)

lemma verify_crc32_frame [simp]:
  "verify_crc32 crc (append_crc32 crc d) = Ok d"
  "verify_crc32 crc (join_frame_with_crc crc h p) = Ok (h @ p)"
  using verify_crc32_append [of crc "h @ p" "crc (h @ p)"]
  by (simp_all add: append_crc32_def join_frame_with_crc_def)

lemma verify_crc32_ok: "verify_crc32 crc buf = Ok d \<Longrightarrow> d = take (length buf - 4) buf \<and> 4 \<le> length buf"
  by (auto simp: verify_crc32_def split_crc32_def bind_r_ok_iff Let_def split: if_splits)

subsection \<open>Reliable header\<close>

definition reliable_bytes :: "bool \<Rightarrow> ReliableHeader \<Rightarrow> bytes" where
  "reliable_bytes compact h = write_reliable_header_encoded h compact []"

lemma write_reliable_header_encoded_append:
  "write_reliable_header_encoded h compact out = out @ reliable_bytes compact h"
  by (simp add: reliable_bytes_def write_reliable_header_encoded_def write_reliable_header_def write_u32_le_def
      write_uleb128_append Let_def)

lemma length_reliable_bytes: "length (reliable_bytes compact h) = reliable_wire_size h compact"
  by (simp add: reliable_bytes_def write_reliable_header_encoded_def write_reliable_header_def write_u32_le_def
      write_uleb128_append reliable_wire_size_def reliable_compact_size_def RELIABLE_HEADER_BYTES_def
      uleb128_size_eq_length Let_def)

lemma and_or_distrib: "(a OR b) AND c = (a AND c) OR (b AND c)" for a b c :: "'a::len word"
  by (rule bit_word_eqI) (auto simp: bit_simps)

lemma compact_wire_flags_read:
  "compact_wire_flags h AND RELIABLE_WIRE_FLAG_SEQ_PRESENT \<noteq> 0 \<longleftrightarrow> seq_present h"
  "compact_wire_flags h AND RELIABLE_WIRE_FLAG_ACK_PRESENT \<noteq> 0 \<longleftrightarrow> ack_present h"
  "compact_wire_flags h AND RELIABLE_PUBLIC_FLAGS_MASK = rh_flags h AND RELIABLE_PUBLIC_FLAGS_MASK"
  by (simp_all add: compact_wire_flags_def RELIABLE_PUBLIC_FLAGS_MASK_def and_or_distrib and.assoc)

text \<open>The header as the compact form carries it: the flags outside the public mask are lost.\<close>

definition public_header :: "ReliableHeader \<Rightarrow> ReliableHeader" where
  "public_header h = h\<lparr>rh_flags := rh_flags h AND RELIABLE_PUBLIC_FLAGS_MASK\<rparr>"

lemma decodes_reliable_full: "decodes read_reliable_header (reliable_bytes False h) h"
proof -
  have b: "reliable_bytes False h = [rh_flags h] @ le_bytes 4 (rh_seq h) @ le_bytes 4 (rh_ack h)"
    by (simp add: reliable_bytes_def write_reliable_header_encoded_def write_reliable_header_def write_u32_le_def)
  show ?thesis
    unfolding b read_reliable_header_def
    by (intro decodes_seq [OF decodes_read_byte] decodes_seq [OF decodes_u32_le] decodes_seq_last [OF decodes_u32_le])
      (cases h, simp add: decodes_give)
qed

lemma decodes_reliable_compact: "decodes read_reliable_header_compact (reliable_bytes True h) (public_header h)"
proof -
  define wf where "wf = compact_wire_flags h"
  note wf = compact_wire_flags_read [of h, folded wf_def]
  define sb where "sb = (if seq_present h then uleb (ucast (rh_seq h)) else [])"
  define ab where "ab = (if ack_present h then uleb (ucast (rh_ack h)) else [])"
  have b: "reliable_bytes True h = [wf] @ sb @ ab"
    by (simp add: reliable_bytes_def write_reliable_header_encoded_def write_uleb128_append wf_def sb_def ab_def Let_def)
  have s: "decodes (if wf AND RELIABLE_WIRE_FLAG_SEQ_PRESENT \<noteq> 0
      then read_uleb_narrow ''reliable seq too large'' else give 0) sb (rh_seq h)"
  proof (cases "seq_present h")
    case True
    then show ?thesis unfolding wf(1) sb_def by (simp add: decodes_narrow)
  next
    case False
    then have "rh_seq h = 0" by (simp add: seq_present_def)
    with False show ?thesis unfolding wf(1) sb_def by (simp add: decodes_give)
  qed
  have a: "decodes (if wf AND RELIABLE_WIRE_FLAG_ACK_PRESENT \<noteq> 0
      then read_uleb_narrow ''reliable ack too large'' else give 0) ab (rh_ack h)"
  proof (cases "ack_present h")
    case True
    then show ?thesis unfolding wf(2) ab_def by (simp add: decodes_narrow)
  next
    case False
    then have "rh_ack h = 0" by (simp add: ack_present_def)
    with False show ?thesis unfolding wf(2) ab_def by (simp add: decodes_give)
  qed
  have "\<lparr>rh_flags = wf AND RELIABLE_PUBLIC_FLAGS_MASK, rh_seq = rh_seq h, rh_ack = rh_ack h\<rparr> = public_header h"
    by (rule ReliableHeader.equality) (simp_all add: public_header_def wf(3))
  then have "decodes (give \<lparr>rh_flags = wf AND RELIABLE_PUBLIC_FLAGS_MASK, rh_seq = rh_seq h, rh_ack = rh_ack h\<rparr>) []
      (public_header h)"
    by (simp only: decodes_give)
  then show ?thesis
    unfolding b read_reliable_header_compact_def
    by - (rule decodes_seq [OF decodes_read_byte], rule decodes_seq [OF s], rule decodes_seq_last [OF a])
qed

definition read_back :: "bool \<Rightarrow> ReliableHeader \<Rightarrow> ReliableHeader" where
  "read_back compact h = (if compact then public_header h else h)"

lemma decodes_reliable [decode_intros]:
  "decodes (read_reliable_header_encoded compact) (reliable_bytes compact h) (read_back compact h)"
  by (simp add: read_reliable_header_encoded_def read_back_def decodes_reliable_full decodes_reliable_compact)

section \<open>Prefix-free codecs\<close>

text \<open>What a part of the frame promises to the parser of the whole frame: on the values it
  accepts, the reader undoes the writer in any context.  Then no encoding is a proper
  prefix of another, and what follows a value is never mistaken for a part of it.\<close>

locale wire_codec =
  fixes accepts :: "'a \<Rightarrow> bool" and enc :: "'a \<Rightarrow> bytes" and rd :: "'a reader"
  assumes reads_back: "accepts x \<Longrightarrow> decodes rd (enc x) x"
begin

lemma prefix_free:
  assumes "accepts x" "accepts y" "enc x @ s = enc y @ t"
  shows "x = y" "s = t"
proof -
  have "Ok (x, \<lparr>rd_buf = enc x @ s, rd_off = length (enc x)\<rparr>) =
      Ok (y, \<lparr>rd_buf = enc y @ t, rd_off = length (enc y)\<rparr>)"
    using decodes_start [OF reads_back [OF assms(1)], of s] decodes_start [OF reads_back [OF assms(2)], of t]
    by (simp add: assms(3))
  then show "x = y" by simp
  with assms(3) show "s = t" by simp
qed

lemma list_unique:
  assumes "length xs = length ys" "list_all accepts xs" "list_all accepts ys"
    "concat (map enc xs) = concat (map enc ys)"
  shows "xs = ys"
  using assms
proof (induction xs ys rule: list_induct2)
  case (Cons x xs y ys)
  then have "accepts x" "accepts y" "enc x @ concat (map enc xs) = enc y @ concat (map enc ys)" by simp_all
  note split = prefix_free [OF this]
  with Cons show ?case by simp
qed simp

end

interpretation uleb_codec: wire_codec "\<lambda>_. True" uleb read_uleb128
  by unfold_locales (rule decodes_uleb)

interpretation shape_codec: wire_codec shape_fits shape_bytes decode_wire_shape
  by unfold_locales (rule decodes_shape)

interpretation reliable_codec: wire_codec "\<lambda>h. compact \<longrightarrow> public_header h = h" "reliable_bytes compact"
    "read_reliable_header_encoded compact" for compact
proof unfold_locales
  fix h
  assume "compact \<longrightarrow> public_header h = h"
  then show "decodes (read_reliable_header_encoded compact) (reliable_bytes compact h) h"
    using decodes_reliable [of compact h] by (cases compact) (simp_all add: read_back_def)
qed

section \<open>Properties\<close>

text \<open>C34: both forms of the reliable header read back in any context, stopping right behind the
  header.  The nine-byte form is exact; the compact form keeps sequence number,
  acknowledgement and public flags.  The predicted size is the encoded length, and the
  packer's choice never takes more than the nine bytes.\<close>

theorem reliable_header_roundtrip:
  "read_reliable_header_encoded compact
      \<lparr>rd_buf = write_reliable_header_encoded h compact pre @ post, rd_off = length pre\<rparr> =
    Ok (if compact then h\<lparr>rh_flags := rh_flags h AND RELIABLE_PUBLIC_FLAGS_MASK\<rparr> else h,
      \<lparr>rd_buf = write_reliable_header_encoded h compact pre @ post,
       rd_off = length pre + reliable_wire_size h compact\<rparr>) \<and>
   length (write_reliable_header_encoded h compact pre) = length pre + reliable_wire_size h compact \<and>
   reliable_wire_size h (should_compact_reliable_header h) \<le> RELIABLE_HEADER_BYTES"
  using decodesD [OF decodes_reliable [of compact h], of pre post]
  by (simp add: write_reliable_header_encoded_append length_reliable_bytes read_back_def public_header_def
      reliable_wire_size_def should_compact_reliable_header_def)

text \<open>C35: the frozen contract of a packet (payload shape, target senders and the reliable bit)
  is read back in any context from its length-prefixed encoding, and its size function
  gives the length the packer announces.\<close>

theorem wire_contract_roundtrip:
  assumes "case shape of Some (Static n _ _) \<Rightarrow> n < 2 ^ 64 | _ \<Rightarrow> True"
    and "wire_contract_size shape ts < 2 ^ 64"
    and "frame = pre @ write_wire_contract shape ts rel (write_uleb128 (of_nat (wire_contract_size shape ts)) []) @ post"
  shows "decode_wire_contract True \<lparr>rd_buf = frame, rd_off = length pre\<rparr> =
      Ok (\<lparr>wc_shape = shape, wc_target_senders = (if ts = [] then None else Some ts), wc_has_reliable_header = rel\<rparr>,
        \<lparr>rd_buf = frame, rd_off = length frame - length post\<rparr>) \<and>
    length (write_wire_contract shape ts rel []) = wire_contract_size shape ts"
proof -
  have "contract_fits shape ts"
    using assms(1, 2)
    by (cases shape; cases "the shape") (simp_all add: contract_fits_def shape_fits_def)
  note d = decodes_contract [OF this, of rel]
  have "frame = pre @ contract_frame shape ts rel @ post"
    by (simp only: assms(3) contract_frame_def write_wire_contract_append write_uleb128_append append_Nil append_assoc)
  with decodes_at [OF d this refl] show ?thesis
    by (simp only: contract_value_def wire_contract_size_eq [of shape ts rel] contract_bytes_def) simp
qed

theorem wire_contract_roundtrip_witness:
  "let sz = wire_contract_size (Some (Static 3 UInt16 CData)) [5, 6];
       frame = [7] @ write_wire_contract (Some (Static 3 UInt16 CData)) [5, 6] True
         (write_uleb128 (of_nat sz) []) @ [9] in
   decode_wire_contract True \<lparr>rd_buf = frame, rd_off = 1\<rparr> =
     Ok (\<lparr>wc_shape = Some (Static 3 UInt16 CData), wc_target_senders = Some [5, 6], wc_has_reliable_header = True\<rparr>,
       \<lparr>rd_buf = frame, rd_off = length frame - 1\<rparr>)"
proof -
  have "uleb128_size 3 = 1" "uleb128_size 2 = 1"
    by (simp_all add: uleb128_size_def uleb128_size_loop.simps)
  then have sz: "wire_contract_size (Some (Static 3 UInt16 CData)) [5, 6] < 2 ^ 64"
    by (simp add: wire_contract_size_def)
  have st: "case Some (Static 3 UInt16 CData) of Some (Static n _ _) \<Rightarrow> n < 2 ^ 64 | _ \<Rightarrow> True" by simp
  from conjunct1 [OF wire_contract_roundtrip [OF st sz refl, where pre = "[7]" and post = "[9]" and rel = True]]
  show ?thesis unfolding Let_def by simp
qed

end
