(* ===== verification/Wire_Endpoints.thy ===== *)
theory Wire_Endpoints
  imports Wire_Codec
begin

text \<open>
  Identities on the wire (\<^verbatim>\<open>src/src/wire_format.rs\<close>): the address book that turns compact
  source addresses back into sender names, and the three encodings of an endpoint set,
  a fixed bitmap of 256 bits, a sorted list of ULEB128 ids, and the endpoints of the
  type's schema.  Proved: addresses survive the translation to a name and back, and
  every endpoint encoding reads back as the ascending list of the endpoint set.
\<close>

section \<open>Address book\<close>

type_synonym AddressBook = "u32 \<rightharpoonup> string"

definition remember_source_address :: "u32 \<Rightarrow> string \<Rightarrow> AddressBook \<Rightarrow> AddressBook" where
  "remember_source_address addr sender book =
    (case book addr of Some _ \<Rightarrow> book | None \<Rightarrow> book(addr \<mapsto> sender))"

definition source_address_for_sender :: "string \<Rightarrow> AddressBook \<Rightarrow> u32 \<times> AddressBook" where
  "source_address_for_sender sender book =
    (let addr = sender_address_u32 sender in (addr, remember_source_address addr sender book))"

definition format_sender_address :: "u32 \<Rightarrow> string" where
  "format_sender_address addr = ''@addr:'' @ decimal_loop (unat addr) []"

definition sender_name_for_address :: "AddressBook \<Rightarrow> u32 \<Rightarrow> string" where
  "sender_name_for_address book addr =
    (case book addr of Some name \<Rightarrow> name | None \<Rightarrow> format_sender_address addr)"

section \<open>Endpoint bitmap\<close>

definition EP_BITMAP_BITS :: nat where "EP_BITMAP_BITS = 256"
definition EP_BITMAP_BYTES :: nat where "EP_BITMAP_BYTES = 32"

definition bitmap_popcount :: "bytes \<Rightarrow> nat" where
  "bitmap_popcount bm = sum_list (map (\<lambda>b. length (filter (bit b) [0..<8])) bm)"

definition set_endpoint_bit :: "DataEndpoint \<Rightarrow> bytes \<Rightarrow> bytes" where
  "set_endpoint_bit ep bm =
    (let idx = unat ep in
     if idx < EP_BITMAP_BITS then bm[idx div 8 := (bm ! (idx div 8)) OR push_bit (idx mod 8) 1] else bm)"

definition build_endpoint_bitmap :: "DataEndpoint list \<Rightarrow> bytes" where
  "build_endpoint_bitmap eps = fold set_endpoint_bit eps (replicate EP_BITMAP_BYTES 0)"

text \<open>\<^verbatim>\<open>trailing_zeros\<close>, and the loop that clears the lowest set bit until none is left.\<close>

definition trailing_zeros :: "'a::len word \<Rightarrow> nat" where
  "trailing_zeros w = length (takeWhile (\<lambda>i. \<not> bit w i) [0..<LENGTH('a)])"

function set_bits_loop :: "'a::len word \<Rightarrow> nat list" where
  "set_bits_loop bits =
    (if bits = 0 then [] else trailing_zeros bits # set_bits_loop (bits AND (bits - 1)))"
  by pat_completeness auto
termination
proof (relation "measure unat", goal_cases)
  case (2 bits)
  have "bits AND (bits - 1) \<le> bits - 1" by (rule word_and_le1)
  also have "bits - 1 < bits" using 2 by (simp add: word_less_nat_alt unat_minus_one unat_gt_0)
  finally show ?case by (simp add: word_less_nat_alt)
qed simp

declare set_bits_loop.simps [simp del]

text \<open>The first unregistered bit ends the expansion with an error.\<close>

definition expand_endpoint_bitmap :: "PacketEnv \<Rightarrow> bytes \<Rightarrow> DataEndpoint list result" where
  "expand_endpoint_bitmap env bm =
    (if length bm \<noteq> EP_BITMAP_BYTES then Err (Unpack ''bad endpoint bitmap size'')
     else
       let eps = concat (map (\<lambda>(byte_index, byte).
             map (\<lambda>k. of_nat (byte_index * 8 + k)) (set_bits_loop byte)) (enumerate 0 bm)) in
       if list_all (endpoint_exists (env_registry env)) eps then Ok eps
       else Err (Unpack ''bad endpoint bit set''))"

section \<open>Endpoint list\<close>

definition endpoint_arc_from_iter :: "nat \<Rightarrow> DataEndpoint list \<Rightarrow> DataEndpoint list result" where
  "endpoint_arc_from_iter n eps =
    (if length eps = n then Ok eps else Err (Unpack ''endpoint count mismatch''))"

definition endpoint_list_size :: "DataEndpoint list \<Rightarrow> nat" where
  "endpoint_list_size eps = sum_list (map (\<lambda>ep. uleb128_size (ucast ep)) (unique_sorted_endpoints eps))"

definition explicit_endpoint_list :: "DataEndpoint list \<Rightarrow> bool" where
  "explicit_endpoint_list eps \<longleftrightarrow>
    list_ex (\<lambda>ep. unat ep \<ge> EP_BITMAP_BITS) eps \<or> endpoint_list_size eps < EP_BITMAP_BYTES"

definition endpoints_match_schema :: "PacketEnv \<Rightarrow> DataType \<Rightarrow> DataEndpoint list \<Rightarrow> bool" where
  "endpoints_match_schema env ty eps \<longleftrightarrow>
    unique_sorted_endpoints eps = unique_sorted_endpoints (mm_endpoints (message_meta env ty))"

primrec read_list_loop :: "nat \<Rightarrow> u32 option \<Rightarrow> unit reader" where
  "read_list_loop 0 previous = give ()"
| "read_list_loop (Suc n) previous =
    seq_rd (read_uleb_narrow ''endpoint too large'') (\<lambda>ep.
      if (case previous of Some p \<Rightarrow> ep \<le> p | None \<Rightarrow> False)
      then fail_rd (Unpack ''endpoint list is not unique and sorted'')
      else read_list_loop n (Some ep))"

text \<open>The value is the slice of the buffer that holds the list.\<close>

definition read_endpoint_list :: "nat \<Rightarrow> bytes reader" where
  "read_endpoint_list n r =
    bind_r (read_list_loop n None r) (\<lambda>(_, r').
      Ok (take (rd_off r' - rd_off r) (drop (rd_off r) (rd_buf r')), r'))"

lemma read_u64_loop_progress:
  assumes "read_u64_loop (Suc k) buf off acc s = (Ok v, off')"
  shows "off < off' \<and> off < length buf"
  using assms read_u64_loop_offset [of "off + 1" k buf "acc OR push_bit s (ucast ((buf ! off) AND 0x7f))" "s + 7"]
  by (auto simp: buf_get_def Let_def split: if_splits)

lemma read_u64_progress: "read_u64 buf off = (Ok v, off') \<Longrightarrow> off < off' \<and> off < length buf"
  using read_u64_loop_progress [of 9 buf off 0 0 v off'] by (simp add: read_u64_def)

text \<open>The iterator over an encoded list ends at the end of the bytes or at a malformed id.\<close>

function endpoint_list_from :: "bytes \<Rightarrow> nat \<Rightarrow> DataEndpoint list" where
  "endpoint_list_from bs off =
    (if remaining \<lparr>rd_buf = bs, rd_off = off\<rparr> = 0 then []
     else case read_u64 bs off of
       (Inl e, _) \<Rightarrow> []
     | (Inr v, off') \<Rightarrow> if unat v < 2 ^ 32 then ucast v # endpoint_list_from bs off' else [])"
  by pat_completeness auto
termination
  by (relation "measure (\<lambda>(bs, off). length bs - off)") (auto dest!: read_u64_progress [OF sym])

declare endpoint_list_from.simps [simp del]

definition endpoint_list_iter :: "bytes \<Rightarrow> DataEndpoint list" where
  "endpoint_list_iter bs = endpoint_list_from bs 0"

section \<open>Endpoint section\<close>

definition schema_endpoints_from_type :: "PacketEnv \<Rightarrow> DataType \<Rightarrow> nat \<Rightarrow> DataEndpoint list result" where
  "schema_endpoints_from_type env ty nep =
    (let schema = mm_endpoints (message_meta env ty) in
     if length schema = nep \<and> ascending schema \<and> list_all (endpoint_exists (env_registry env)) schema
     then Ok schema
     else endpoint_arc_from_iter nep (unique_sorted_endpoints schema))"

definition endpoints_from_wire_or_schema ::
  "PacketEnv \<Rightarrow> bool \<Rightarrow> bool \<Rightarrow> DataType option \<Rightarrow> nat \<Rightarrow> DataEndpoint list reader" where
  "endpoints_from_wire_or_schema env bitmap_present list_present ty nep =
    (if list_present then
       if bitmap_present then fail_rd (Unpack ''ambiguous endpoint encoding'')
       else
         seq_rd (read_endpoint_list nep) (\<lambda>bs r.
           case Option.bind ty (try_get_message_meta (env_registry env)) of
             Some meta \<Rightarrow>
               if endpoint_list_iter bs = mm_endpoints meta then Ok (mm_endpoints meta, r)
               else bind_r (endpoint_arc_from_iter nep (endpoint_list_iter bs)) (\<lambda>eps. Ok (eps, r))
           | None \<Rightarrow> bind_r (endpoint_arc_from_iter nep (endpoint_list_iter bs)) (\<lambda>eps. Ok (eps, r)))
     else if bitmap_present then
       seq_rd (read_bytes EP_BITMAP_BYTES) (\<lambda>bm r.
         bind_r (expand_endpoint_bitmap env bm) (\<lambda>eps.
           if length eps \<noteq> nep then Err (Unpack ''endpoint count mismatch'') else Ok (eps, r)))
     else (\<lambda>r.
       case ty of
         None \<Rightarrow> Err InvalidType
       | Some ty \<Rightarrow> bind_r (schema_endpoints_from_type env ty nep) (\<lambda>eps. Ok (eps, r))))"

text \<open>The endpoint section as \<^verbatim>\<open>with_packet_frame_parts\<close> writes it.\<close>

definition write_endpoint_section :: "bool \<Rightarrow> bool \<Rightarrow> DataEndpoint list \<Rightarrow> bytes \<Rightarrow> bytes" where
  "write_endpoint_section bitmap_present list_present eps out =
    (if list_present then fold (\<lambda>ep out. write_uleb128 (ucast ep) out) (unique_sorted_endpoints eps) out
     else if bitmap_present then out @ build_endpoint_bitmap eps
     else out)"

section \<open>Addresses\<close>

text \<open>Every name in the book has the address it is stored under.\<close>

definition book_ok :: "AddressBook \<Rightarrow> bool" where
  "book_ok book \<longleftrightarrow> (\<forall>addr name. book addr = Some name \<longrightarrow> sender_address_u32 name = addr)"

lemma sender_address_format [simp]: "sender_address_u32 (format_sender_address addr) = addr"
proof -
  have "parse_u32 (decimal_loop (unat addr) []) = Some addr"
    using parse_u32_decimal [of addr] by (simp add: decimal_def)
  then show ?thesis by (simp add: sender_address_u32_def format_sender_address_def)
qed

lemma source_address_for_sender_ok:
  assumes "book_ok book" "source_address_for_sender sender book = (addr, book')"
  shows "book_ok book'" "addr = sender_address_u32 sender"
  using assms by (auto simp: source_address_for_sender_def remember_source_address_def book_ok_def Let_def
      split: option.splits if_splits)

lemma sender_address_name: "book_ok book \<Longrightarrow> sender_address_u32 (sender_name_for_address book addr) = addr"
  by (auto simp: sender_name_for_address_def book_ok_def split: option.splits)

section \<open>Set bits\<close>

lemma trailing_zeros_props:
  fixes w :: "'a::len word"
  assumes "w \<noteq> 0"
  shows "bit w (trailing_zeros w)" "i < trailing_zeros w \<Longrightarrow> \<not> bit w i" "trailing_zeros w < LENGTH('a)"
proof -
  obtain n where n: "bit w n" "n < LENGTH('a)"
    using assms by (metis bit_eqI bit_imp_le_length bit_0_eq bot_apply bot_bool_def)
  let ?xs = "[0..<LENGTH('a)]"
  have "takeWhile (\<lambda>i. \<not> bit w i) ?xs \<noteq> ?xs"
    using n set_takeWhileD [of n "\<lambda>i. \<not> bit w i" ?xs] by (auto dest: arg_cong [where f = set])
  then have "length (takeWhile (\<lambda>i. \<not> bit w i) ?xs) < length ?xs"
    by (metis length_takeWhile_le nat_less_le takeWhile_eq_take take_all_iff)
  then show lt: "trailing_zeros w < LENGTH('a)" by (simp add: trailing_zeros_def)
  show "bit w (trailing_zeros w)"
    using nth_length_takeWhile [of "\<lambda>i. \<not> bit w i" ?xs] lt by (simp add: trailing_zeros_def)
  show "\<not> bit w i" if "i < trailing_zeros w"
    using takeWhile_nth [of i "\<lambda>i. \<not> bit w i" ?xs] that lt set_takeWhileD [of i "\<lambda>i. \<not> bit w i" ?xs]
    by (simp add: trailing_zeros_def) (metis add_0 nth_mem nth_upt order_less_trans set_takeWhileD)
qed

text \<open>Clearing the lowest set bit.\<close>

lemma bit_clear_lowest:
  fixes w :: "'a::len word"
  assumes "w \<noteq> 0"
  shows "bit (w AND (w - 1)) n \<longleftrightarrow> bit w n \<and> n \<noteq> trailing_zeros w"
proof -
  define z where "z = trailing_zeros w"
  note z = trailing_zeros_props [OF assms, folded z_def]
  define c where "c = unset_bit z w"
  have c: "bit c n \<longleftrightarrow> bit w n \<and> n \<noteq> z" for n
    by (auto simp: c_def bit_unset_bit_iff)
  have "c + 2 ^ z = c OR 2 ^ z"
    by (rule disjunctive_add) (auto simp: c bit_exp_iff)
  also have "\<dots> = w"
    using z by (intro bit_word_eqI) (auto simp: c bit_or_iff bit_exp_iff)
  finally have "w - 1 = c + mask z"
    by (simp add: mask_eq_decr_exp)
  also have "\<dots> = c OR mask z"
    using z(2) by (intro disjunctive_add) (auto simp: c bit_mask_iff)
  finally have w1: "w - 1 = c OR mask z" .
  have "bit (w AND (w - 1)) n \<longleftrightarrow> bit w n \<and> (bit c n \<or> n < z \<and> n < LENGTH('a))"
    by (auto simp: w1 bit_and_iff bit_or_iff bit_mask_iff)
  then show ?thesis using z(2) by (auto simp: c z_def [symmetric])
qed

lemma set_bits_loop_eq: "set_bits_loop w = filter (bit w) [0..<LENGTH('a)]" for w :: "'a::len word"
proof (induction w rule: set_bits_loop.induct)
  case (1 w)
  show ?case
  proof (cases "w = 0")
    case True
    then show ?thesis by (simp add: set_bits_loop.simps)
  next
    case False
    note tz = trailing_zeros_props [OF False]
    have "[0..<LENGTH('a)] = [0..<trailing_zeros w] @ trailing_zeros w # [Suc (trailing_zeros w)..<LENGTH('a)]"
      using tz(3) upt_add_eq_append [of 0 "trailing_zeros w" "LENGTH('a) - trailing_zeros w"]
      by (simp add: upt_conv_Cons)
    note sp = this
    have lo: "filter (bit w) [0..<trailing_zeros w] = []"
      using tz(2) by (simp add: filter_empty_conv)
    have lo': "filter (bit (w AND (w - 1))) [0..<trailing_zeros w] = []"
      using tz(2) by (simp add: filter_empty_conv bit_clear_lowest [OF False])
    have hi: "filter (bit (w AND (w - 1))) [Suc (trailing_zeros w)..<LENGTH('a)] =
        filter (bit w) [Suc (trailing_zeros w)..<LENGTH('a)]"
      by (rule filter_cong) (auto simp: bit_clear_lowest [OF False])
    have mid: "\<not> bit (w AND (w - 1)) (trailing_zeros w)"
      by (simp add: bit_clear_lowest [OF False])
    show ?thesis
      using 1 [OF False] False tz(1)
      by (subst set_bits_loop.simps) (simp add: sp lo lo' hi mid)
  qed
qed

section \<open>Bitmap round trip\<close>

lemma length_build [simp]: "length (build_endpoint_bitmap eps) = EP_BITMAP_BYTES"
proof -
  have "length (fold set_endpoint_bit eps bm) = length bm" for bm
    by (induction eps arbitrary: bm) (simp_all add: set_endpoint_bit_def Let_def)
  then show ?thesis by (simp add: build_endpoint_bitmap_def)
qed

lemma bit_set_endpoint_bit:
  assumes "length bm = EP_BITMAP_BYTES" "n < EP_BITMAP_BITS"
  shows "bit (set_endpoint_bit ep bm ! (n div 8)) (n mod 8) \<longleftrightarrow> bit (bm ! (n div 8)) (n mod 8) \<or> unat ep = n"
proof (cases "unat ep < EP_BITMAP_BITS")
  case True
  have b: "bit (push_bit (unat ep mod 8) 1 :: u8) (n mod 8) \<longleftrightarrow> unat ep mod 8 = n mod 8"
    by (auto simp: bit_exp_iff)
  have e: "unat ep = n \<longleftrightarrow> unat ep div 8 = n div 8 \<and> unat ep mod 8 = n mod 8"
    by (metis div_mult_mod_eq)
  have "unat ep div 8 < length bm" "n div 8 < length bm"
    using True assms by (simp_all add: EP_BITMAP_BITS_def EP_BITMAP_BYTES_def div_less_iff_less_mult)
  then show ?thesis
    unfolding e using True by (auto simp: set_endpoint_bit_def Let_def nth_list_update bit_or_iff b simp del: push_bit_of_1)
next
  case False
  then show ?thesis using assms(2) by (auto simp: set_endpoint_bit_def Let_def)
qed

lemma bit_build:
  assumes "n < EP_BITMAP_BITS"
  shows "bit (build_endpoint_bitmap eps ! (n div 8)) (n mod 8) \<longleftrightarrow> n \<in> unat ` set eps"
proof -
  have "bit (fold set_endpoint_bit eps bm ! (n div 8)) (n mod 8) \<longleftrightarrow>
      bit (bm ! (n div 8)) (n mod 8) \<or> n \<in> unat ` set eps" if "length bm = EP_BITMAP_BYTES" for bm
    using that
  proof (induction eps arbitrary: bm)
    case (Cons ep eps)
    have "length (set_endpoint_bit ep bm) = EP_BITMAP_BYTES"
      using Cons.prems by (simp add: set_endpoint_bit_def Let_def)
    from Cons.IH [OF this] show ?case
      by (auto simp: bit_set_endpoint_bit [OF Cons.prems assms])
  qed simp
  moreover have "n div 8 < EP_BITMAP_BYTES"
    using assms by (simp add: EP_BITMAP_BITS_def EP_BITMAP_BYTES_def)
  ultimately show ?thesis by (simp add: build_endpoint_bitmap_def)
qed

text \<open>The byte-wise expansion lists the set positions in ascending order.\<close>

definition bitmap_positions :: "nat \<Rightarrow> bytes \<Rightarrow> nat list" where
  "bitmap_positions s bm =
    concat (map (\<lambda>(i, b). map (\<lambda>k. i * 8 + k) (set_bits_loop b)) (enumerate s bm))"

lemma bitmap_positions_eq:
  "bitmap_positions s bm = filter (\<lambda>n. bit (bm ! (n div 8 - s)) (n mod 8)) [8 * s..<8 * s + 8 * length bm]"
proof (induction bm arbitrary: s)
  case Nil
  then show ?case by (simp add: bitmap_positions_def)
next
  case (Cons b bm)
  let ?P = "\<lambda>n. bit ((b # bm) ! (n div 8 - s)) (n mod 8)"
  have sp: "[8 * s..<8 * s + 8 * length (b # bm)] = [8 * s..<8 * s + 8] @ [8 * Suc s..<8 * Suc s + 8 * length bm]"
    using upt_add_eq_append [of "8 * s" "8 * s + 8" "8 * length bm"] by (simp add: ac_simps)
  have "[8 * s..<8 * s + 8] = map (\<lambda>k. s * 8 + k) [0..<8]"
    using map_add_upt [of "8 * s" 8] by (simp add: ac_simps)
  then have "filter ?P [8 * s..<8 * s + 8] = map (\<lambda>k. s * 8 + k) (filter (?P \<circ> (\<lambda>k. s * 8 + k)) [0..<8])"
    by (simp add: filter_map)
  also have "filter (?P \<circ> (\<lambda>k. s * 8 + k)) [0..<8] = filter (bit b) [0..<8]"
    by (rule filter_cong) auto
  finally have 1: "filter ?P [8 * s..<8 * s + 8] = map (\<lambda>k. s * 8 + k) (filter (bit b) [0..<8])" .
  have 2: "filter ?P [8 * Suc s..<8 * Suc s + 8 * length bm] =
      filter (\<lambda>n. bit (bm ! (n div 8 - Suc s)) (n mod 8)) [8 * Suc s..<8 * Suc s + 8 * length bm]"
  proof (rule filter_cong [OF refl])
    fix n
    assume "n \<in> set [8 * Suc s..<8 * Suc s + 8 * length bm]"
    then have "Suc s \<le> n div 8" by (simp add: less_eq_div_iff_mult_less_eq)
    then have "n div 8 - s = Suc (n div 8 - Suc s)" by simp
    then show "?P n = bit (bm ! (n div 8 - Suc s)) (n mod 8)" by simp
  qed
  have "bitmap_positions s (b # bm) = map (\<lambda>k. s * 8 + k) (filter (bit b) [0..<8]) @ bitmap_positions (Suc s) bm"
    by (simp add: bitmap_positions_def set_bits_loop_eq)
  also have "\<dots> = filter ?P ([8 * s..<8 * s + 8] @ [8 * Suc s..<8 * Suc s + 8 * length bm])"
    by (simp only: filter_append 1 2 Cons.IH)
  finally show ?case by (simp only: sp)
qed

lemma expand_endpoint_bitmap_eq:
  "length bm = EP_BITMAP_BYTES \<Longrightarrow>
    expand_endpoint_bitmap env bm =
      (let eps = map of_nat (bitmap_positions 0 bm) in
       if list_all (endpoint_exists (env_registry env)) eps then Ok eps else Err (Unpack ''bad endpoint bit set''))"
  by (simp add: expand_endpoint_bitmap_def bitmap_positions_def map_concat case_prod_unfold comp_def Let_def)

lemma bitmap_roundtrip:
  assumes "\<forall>ep \<in> set eps. unat ep < EP_BITMAP_BITS \<and> endpoint_exists (env_registry env) ep"
  shows "expand_endpoint_bitmap env (build_endpoint_bitmap eps) = Ok (unique_sorted_endpoints eps)"
proof -
  define ns where "ns = filter (\<lambda>n. n \<in> unat ` set eps) [0..<EP_BITMAP_BITS]"
  have "bitmap_positions 0 (build_endpoint_bitmap eps) =
      filter (\<lambda>n. bit (build_endpoint_bitmap eps ! (n div 8)) (n mod 8)) [0..<EP_BITMAP_BITS]"
    using bitmap_positions_eq [of 0 "build_endpoint_bitmap eps"] by (simp add: EP_BITMAP_BITS_def EP_BITMAP_BYTES_def)
  also have "\<dots> = ns"
    unfolding ns_def by (rule filter_cong [OF refl]) (auto simp: bit_build)
  finally have p: "bitmap_positions 0 (build_endpoint_bitmap eps) = ns" .
  have small: "take_bit 32 n = n" if "n \<in> set ns" for n
    using that by (intro take_bit_nat_eq_self) (auto simp: ns_def EP_BITMAP_BITS_def)
  have "sorted_wrt (<) ns" by (simp add: ns_def sorted_wrt_filter)
  then have srt: "sorted_wrt (<) (map of_nat ns :: DataEndpoint list)"
    unfolding sorted_wrt_map
    by (rule sorted_wrt_mono_rel [rotated])
      (simp add: word_less_nat_alt unsigned_of_nat small)
  have "set ns = unat ` set eps"
    using assms by (auto simp: ns_def)
  then have st: "set (map of_nat ns) = set eps"
    by (simp add: image_image)
  have "map of_nat ns = unique_sorted_endpoints eps"
    unfolding unique_sorted_endpoints_eq
    by (rule strict_sorted_equal) (simp_all add: srt st [simplified])
  then show ?thesis
    using assms by (simp add: expand_endpoint_bitmap_eq p unique_sorted_endpoints_eq list_all_iff Let_def)
qed

section \<open>List round trip\<close>

definition list_bytes :: "DataEndpoint list \<Rightarrow> bytes" where
  "list_bytes eps = concat (map (\<lambda>ep. uleb (ucast ep)) eps)"

lemma decodes_list_loop:
  assumes "sorted_wrt (<) ((case previous of Some p \<Rightarrow> [p] | None \<Rightarrow> []) @ eps)"
  shows "decodes (read_list_loop (length eps) previous) (list_bytes eps) ()"
  using assms
proof (induction eps arbitrary: previous)
  case Nil
  then show ?case by (simp add: list_bytes_def decodes_give)
next
  case (Cons ep eps)
  have ok: "\<not> (case previous of Some p \<Rightarrow> ep \<le> p | None \<Rightarrow> False)"
    using Cons.prems by (auto split: option.splits)
  have "decodes (read_list_loop (length eps) (Some ep)) (list_bytes eps) ()"
    using Cons.prems by (intro Cons.IH) (auto split: option.splits)
  then have tl: "decodes (if (case previous of Some p \<Rightarrow> ep \<le> p | None \<Rightarrow> False)
      then fail_rd (Unpack ''endpoint list is not unique and sorted'')
      else read_list_loop (length eps) (Some ep)) (list_bytes eps) ()"
    by (simp only: ok if_False)
  have hd: "decodes (read_uleb_narrow ''endpoint too large'') (uleb (ucast ep)) ep"
    by (rule decodes_narrow) simp
  have b: "list_bytes (ep # eps) = uleb (ucast ep) @ list_bytes eps"
    by (simp add: list_bytes_def)
  show ?case
    unfolding b list.size(4) Nat.add_0_right add_Suc_right read_list_loop.simps
    by (rule decodes_seq [OF hd], rule tl)
qed

lemma decodes_endpoint_list:
  assumes "sorted_wrt (<) eps" "n = length eps"
  shows "decodes (read_endpoint_list n) (list_bytes eps) (list_bytes eps)"
proof -
  have "decodes (read_list_loop n None) (list_bytes eps) ()"
    using decodes_list_loop [of None eps] assms by simp
  then show ?thesis
    unfolding decodes_def read_endpoint_list_def by simp
qed

lemma endpoint_list_from_bytes: "endpoint_list_from (pre @ list_bytes eps) (length pre) = eps"
proof (induction eps arbitrary: pre)
  case Nil
  then show ?case by (simp add: endpoint_list_from.simps list_bytes_def remaining_def)
next
  case (Cons ep eps)
  have b: "pre @ list_bytes (ep # eps) = pre @ uleb (ucast ep) @ list_bytes eps"
    by (simp add: list_bytes_def)
  have rd: "read_u64 (pre @ uleb (ucast ep) @ list_bytes eps) (length pre) =
      (Ok (ucast ep), length (pre @ uleb (ucast ep)))"
    using read_u64_loop_uleb [of "ucast ep" 0 "pre @ uleb (ucast ep) @ list_bytes eps" pre "list_bytes eps" 0]
      unsigned_less [of "ucast ep :: u64"]
    by (simp add: read_u64_def)
  have "unat (ucast ep :: u64) < 2 ^ 32"
    using unsigned_less [of ep, where ?'a = nat] by (simp add: unat_ucast_u64)
  moreover have "ucast (ucast ep :: u64) = ep" by (rule ucast_ucast_u64) simp
  moreover have "remaining \<lparr>rd_buf = pre @ uleb (ucast ep) @ list_bytes eps, rd_off = length pre\<rparr> \<noteq> 0"
    by (simp add: remaining_def)
  ultimately show ?case
    using Cons.IH [of "pre @ uleb (ucast ep)"]
    by (simp add: b endpoint_list_from.simps [of _ "length pre"] rd)
qed

lemma endpoint_list_iter_bytes [simp]: "endpoint_list_iter (list_bytes eps) = eps"
  using endpoint_list_from_bytes [of "[]" eps] by (simp add: endpoint_list_iter_def)

lemma length_list_bytes: "length (list_bytes (unique_sorted_endpoints eps)) = endpoint_list_size eps"
  by (simp add: list_bytes_def endpoint_list_size_def uleb128_size_eq_length length_concat comp_def)

section \<open>Section round trip\<close>

definition endpoint_section :: "bool \<Rightarrow> bool \<Rightarrow> DataEndpoint list \<Rightarrow> bytes" where
  "endpoint_section bitmap_present list_present eps =
    (if list_present then list_bytes (unique_sorted_endpoints eps)
     else if bitmap_present then build_endpoint_bitmap eps else [])"

lemma write_endpoint_section_append:
  "write_endpoint_section bitmap_present list_present eps out = out @ endpoint_section bitmap_present list_present eps"
proof -
  have "fold (\<lambda>ep out. write_uleb128 (ucast ep) out) xs out = out @ list_bytes xs" for xs :: "DataEndpoint list"
    by (induction xs arbitrary: out) (simp_all add: list_bytes_def write_uleb128_append)
  then show ?thesis by (simp add: write_endpoint_section_def endpoint_section_def)
qed

text \<open>When the receiver can resolve the section: an explicit list always; a bitmap when the
  receiver knows the endpoints; no section when its schema has the same endpoint set.\<close>

definition section_resolves ::
  "PacketEnv \<Rightarrow> bool \<Rightarrow> bool \<Rightarrow> DataType option \<Rightarrow> DataEndpoint list \<Rightarrow> bool" where
  "section_resolves env bitmap_present list_present ty eps \<longleftrightarrow>
    (if list_present then \<not> bitmap_present
     else if bitmap_present then
       list_all (\<lambda>ep. unat ep < EP_BITMAP_BITS \<and> endpoint_exists (env_registry env) ep) eps
     else (case ty of None \<Rightarrow> False | Some t \<Rightarrow> endpoints_match_schema env t eps))"

lemma schema_endpoints_eq:
  assumes "endpoints_match_schema env ty eps"
  shows "schema_endpoints_from_type env ty (length (unique_sorted_endpoints eps)) = Ok (unique_sorted_endpoints eps)"
proof -
  define schema where "schema = mm_endpoints (message_meta env ty)"
  have eq: "unique_sorted_endpoints eps = unique_sorted_endpoints schema"
    using assms by (simp add: endpoints_match_schema_def schema_def)
  show ?thesis
    by (simp add: ascending_unique_sorted schema_endpoints_from_type_def endpoint_arc_from_iter_def schema_def [symmetric] eq Let_def)
qed

lemma decodes_section [decode_intros]:
  assumes "section_resolves env bm lst ty eps"
  shows "decodes (endpoints_from_wire_or_schema env bm lst ty (length (unique_sorted_endpoints eps)))
    (endpoint_section bm lst eps) (unique_sorted_endpoints eps)"
proof (cases lst)
  case True
  let ?u = "unique_sorted_endpoints eps"
  have "decodes (\<lambda>r. case Option.bind ty (try_get_message_meta (env_registry env)) of
      Some meta \<Rightarrow>
        if endpoint_list_iter (list_bytes ?u) = mm_endpoints meta then Ok (mm_endpoints meta, r)
        else bind_r (endpoint_arc_from_iter (length ?u) (endpoint_list_iter (list_bytes ?u))) (\<lambda>eps. Ok (eps, r))
    | None \<Rightarrow> bind_r (endpoint_arc_from_iter (length ?u) (endpoint_list_iter (list_bytes ?u))) (\<lambda>eps. Ok (eps, r)))
    [] ?u"
    by (auto simp: decodes_def endpoint_arc_from_iter_def split: option.splits)
  then have "decodes (seq_rd (read_endpoint_list (length ?u)) (\<lambda>bs r.
      case Option.bind ty (try_get_message_meta (env_registry env)) of
        Some meta \<Rightarrow>
          if endpoint_list_iter bs = mm_endpoints meta then Ok (mm_endpoints meta, r)
          else bind_r (endpoint_arc_from_iter (length ?u) (endpoint_list_iter bs)) (\<lambda>eps. Ok (eps, r))
      | None \<Rightarrow> bind_r (endpoint_arc_from_iter (length ?u) (endpoint_list_iter bs)) (\<lambda>eps. Ok (eps, r))))
    (list_bytes ?u) ?u"
    by (rule decodes_seq_last [OF decodes_endpoint_list, rotated 2]) simp_all
  then show ?thesis
    using assms True by (simp add: section_resolves_def endpoints_from_wire_or_schema_def endpoint_section_def)
next
  case nolist: False
  show ?thesis
  proof (cases bm)
    case True
    let ?u = "unique_sorted_endpoints eps"
    have "expand_endpoint_bitmap env (build_endpoint_bitmap eps) = Ok ?u"
      using assms nolist True by (intro bitmap_roundtrip) (simp add: section_resolves_def list_all_iff)
    then have "decodes (\<lambda>r. bind_r (expand_endpoint_bitmap env (build_endpoint_bitmap eps)) (\<lambda>eps.
        if length eps \<noteq> length ?u then Err (Unpack ''endpoint count mismatch'') else Ok (eps, r))) [] ?u"
      by (simp add: decodes_def)
    then have "decodes (seq_rd (read_bytes EP_BITMAP_BYTES) (\<lambda>bm r. bind_r (expand_endpoint_bitmap env bm) (\<lambda>eps.
        if length eps \<noteq> length ?u then Err (Unpack ''endpoint count mismatch'') else Ok (eps, r))))
        (build_endpoint_bitmap eps) ?u"
      by (rule decodes_seq_last [OF decodes_read_bytes, rotated]) simp
    then show ?thesis
      using nolist True by (simp add: endpoints_from_wire_or_schema_def endpoint_section_def)
  next
    case False
    with nolist assms obtain t where t: "ty = Some t" "endpoints_match_schema env t eps"
      by (auto simp: section_resolves_def split: option.splits)
    then show ?thesis
      using nolist False
      by (simp add: endpoints_from_wire_or_schema_def endpoint_section_def decodes_def schema_endpoints_eq)
  qed
qed

section \<open>Properties\<close>

text \<open>C36: whatever encoding is used, the endpoint section of a frame reads back as the ascending
  list of the endpoint set, without duplicates, and ends right behind its bytes, when the
  receiver can resolve it: an explicit list needs no knowledge of the endpoints, a bitmap
  needs every endpoint registered and below 256, and an absent section needs a schema of
  the type with the same endpoint set.\<close>

theorem endpoint_section_roundtrip:
  assumes "if list_present then \<not> bitmap_present
      else if bitmap_present then
        (\<forall>ep \<in> set eps. unat ep < EP_BITMAP_BITS \<and> endpoint_exists (env_registry env) ep)
      else (\<exists>t. ty = Some t \<and>
        set (mm_endpoints (get_message_meta (env_registry env) t)) = set eps)"
    and "frame = write_endpoint_section bitmap_present list_present eps pre @ post"
  shows "endpoints_from_wire_or_schema env bitmap_present list_present ty (card (set eps))
      \<lparr>rd_buf = frame, rd_off = length pre\<rparr> =
    Ok (sorted_list_of_set (set eps), \<lparr>rd_buf = frame, rd_off = length frame - length post\<rparr>)"
proof -
  have "section_resolves env bitmap_present list_present ty eps"
    using assms(1)
    by (auto simp: section_resolves_def list_all_iff endpoints_match_schema_def unique_sorted_endpoints_eq
        split: if_splits)
  note d = decodes_section [OF this]
  have f: "frame = pre @ endpoint_section bitmap_present list_present eps @ post"
    by (simp add: assms(2) write_endpoint_section_append)
  from decodes_at [OF d f refl] show ?thesis
    unfolding unique_sorted_endpoints_eq by (simp add: f)
qed

text \<open>Compact addresses are stable: from an empty address book on, whatever senders are
  remembered, the name a receiver shows for an address has that address, so that
  repacking the packet keeps its source.\<close>

theorem sender_address_stable:
  "sender_address_u32 (sender_name_for_address
    (fold (\<lambda>s book. snd (source_address_for_sender s book)) senders Map.empty) addr) = addr"
proof -
  have "book_ok (fold (\<lambda>s book. snd (source_address_for_sender s book)) senders book)" if "book_ok book" for book
    using that
  proof (induction senders arbitrary: book)
    case (Cons s senders)
    have "book_ok (snd (source_address_for_sender s book))"
      by (rule source_address_for_sender_ok(1) [OF Cons.prems]) (rule prod.collapse [symmetric])
    from Cons.IH [OF this] show ?case by simp
  qed simp
  from this [of Map.empty] show ?thesis
    by (intro sender_address_name) (simp add: book_ok_def)
qed

theorem endpoint_section_roundtrip_witness:
  "let frame = write_endpoint_section False True [300, 2, 300] [1] @ [9] in
   endpoints_from_wire_or_schema example_env False True None (card (set [300, 2, 300 :: DataEndpoint]))
      \<lparr>rd_buf = frame, rd_off = length [1 :: u8]\<rparr> =
    Ok (sorted_list_of_set (set [300, 2, 300]), \<lparr>rd_buf = frame, rd_off = length frame - length [9 :: u8]\<rparr>)"
  unfolding Let_def by (rule endpoint_section_roundtrip [OF _ refl]) simp

end
