(* ===== verification/Crypto.thy ===== *)
theory Crypto
  imports Packet
begin

text \<open>
  Payload cryptography (\<^verbatim>\<open>src/src/crypto.rs\<close>): the incremental SHA-256, HMAC, the software
  stream cipher with its tag, the keyring, managed credentials, and the choice between
  the registered providers and the software fallback.  A C or Rust provider is
  application code and a function of the state; an output buffer of the source is an
  argument with its old contents and a result with the new ones.  Proved: hashing in
  pieces is hashing the concatenation as FIPS 180-4 pads it, opening undoes sealing
  and accepts only the tag of the ciphertext, and a credential verifies exactly when it
  is the issued one and in its window.
\<close>

section \<open>SHA-256\<close>

definition be_bytes :: "nat \<Rightarrow> 'a::len word \<Rightarrow> bytes" where
  "be_bytes n w = rev (le_bytes n w)"

definition from_be_bytes :: "bytes \<Rightarrow> 'a::len word" where
  "from_be_bytes bs = from_le_bytes (rev bs)"

record Sha256 =
  sh_state :: "u32 list"
  sh_buffer :: bytes
  sh_buffer_len :: nat
  sh_len_bits :: u64

definition sha_new :: Sha256 where
  "sha_new =
    \<lparr>sh_state = [0x6a09e667, 0xbb67ae85, 0x3c6ef372, 0xa54ff53a, 0x510e527f, 0x9b05688c, 0x1f83d9ab,
       0x5be0cd19],
     sh_buffer = replicate 64 0, sh_buffer_len = 0, sh_len_bits = 0\<rparr>"

text \<open>The constants, in the rows of the source.\<close>

definition sha_K :: "u32 list" where
  "sha_K = concat
    [[0x428a2f98, 0x71374491, 0xb5c0fbcf, 0xe9b5dba5, 0x3956c25b, 0x59f111f1, 0x923f82a4],
     [0xab1c5ed5, 0xd807aa98, 0x12835b01, 0x243185be, 0x550c7dc3, 0x72be5d74, 0x80deb1fe],
     [0x9bdc06a7, 0xc19bf174, 0xe49b69c1, 0xefbe4786, 0x0fc19dc6, 0x240ca1cc, 0x2de92c6f],
     [0x4a7484aa, 0x5cb0a9dc, 0x76f988da, 0x983e5152, 0xa831c66d, 0xb00327c8, 0xbf597fc7],
     [0xc6e00bf3, 0xd5a79147, 0x06ca6351, 0x14292967, 0x27b70a85, 0x2e1b2138, 0x4d2c6dfc],
     [0x53380d13, 0x650a7354, 0x766a0abb, 0x81c2c92e, 0x92722c85, 0xa2bfe8a1, 0xa81a664b],
     [0xc24b8b70, 0xc76c51a3, 0xd192e819, 0xd6990624, 0xf40e3585, 0x106aa070, 0x19a4c116],
     [0x1e376c08, 0x2748774c, 0x34b0bcb5, 0x391c0cb3, 0x4ed8aa4a, 0x5b9cca4f, 0x682e6ff3],
     [0x748f82ee, 0x78a5636f, 0x84c87814, 0x8cc70208, 0x90befffa, 0xa4506ceb, 0xbef9a3f7],
     [0xc67178f2]]"

definition schedule_step :: "nat \<Rightarrow> u32 list \<Rightarrow> u32 list" where
  "schedule_step idx w =
    (let x = w ! (idx - 15); y = w ! (idx - 2);
         s0 = word_rotr 7 x XOR word_rotr 18 x XOR drop_bit 3 x;
         s1 = word_rotr 17 y XOR word_rotr 19 y XOR drop_bit 10 y in
     w[idx := w ! (idx - 16) + s0 + w ! (idx - 7) + s1])"

definition message_schedule :: "bytes \<Rightarrow> u32 list" where
  "message_schedule block =
    fold schedule_step [16..<64]
      (map (\<lambda>idx. from_be_bytes [block ! (idx * 4), block ! (idx * 4 + 1), block ! (idx * 4 + 2), block ! (idx * 4 + 3)])
         [0..<16] @ replicate 48 0)"

type_synonym working = "u32 \<times> u32 \<times> u32 \<times> u32 \<times> u32 \<times> u32 \<times> u32 \<times> u32"

definition sha_round :: "u32 list \<Rightarrow> nat \<Rightarrow> working \<Rightarrow> working" where
  "sha_round w idx = (\<lambda>(a, b, c, d, e, f, g, h).
    let s1 = word_rotr 6 e XOR word_rotr 11 e XOR word_rotr 25 e;
        ch = (e AND f) XOR (NOT e AND g);
        temp1 = h + s1 + ch + sha_K ! idx + w ! idx;
        s0 = word_rotr 2 a XOR word_rotr 13 a XOR word_rotr 22 a;
        maj = (a AND b) XOR (a AND c) XOR (b AND c);
        temp2 = s0 + maj in
    (temp1 + temp2, a, b, c, d + temp1, e, f, g))"

definition compress_state :: "u32 list \<Rightarrow> bytes \<Rightarrow> u32 list" where
  "compress_state st block =
    (let w = message_schedule block in
     case fold (sha_round w) [0..<64] (st ! 0, st ! 1, st ! 2, st ! 3, st ! 4, st ! 5, st ! 6, st ! 7) of
       (a, b, c, d, e, f, g, h) \<Rightarrow>
         [st ! 0 + a, st ! 1 + b, st ! 2 + c, st ! 3 + d, st ! 4 + e, st ! 5 + f, st ! 6 + g, st ! 7 + h])"

definition sha_compress :: "bytes \<Rightarrow> Sha256 \<Rightarrow> Sha256" where
  "sha_compress block h = h\<lparr>sh_state := compress_state (sh_state h) block\<rparr>"

text \<open>\<^verbatim>\<open>buffer[o..o + xs.len()].copy_from_slice(xs)\<close>\<close>

definition copy_into :: "nat \<Rightarrow> bytes \<Rightarrow> bytes \<Rightarrow> bytes" where
  "copy_into off xs buf = take off buf @ xs @ drop (off + length xs) buf"

function sha_blocks :: "bytes \<Rightarrow> Sha256 \<Rightarrow> bytes \<times> Sha256" where
  "sha_blocks input h =
    (if length input \<ge> 64 then sha_blocks (drop 64 input) (sha_compress (take 64 input) h) else (input, h))"
  by pat_completeness auto
termination by (relation "measure (\<lambda>(input, _). length input)") auto

declare sha_blocks.simps [simp del]

definition sha_fill :: "bytes \<Rightarrow> Sha256 \<Rightarrow> bytes \<times> Sha256" where
  "sha_fill input h =
    (if sh_buffer_len h > 0 then
       let tk = min (64 - sh_buffer_len h) (length input);
           h = h\<lparr>sh_buffer := copy_into (sh_buffer_len h) (take tk input) (sh_buffer h),
                 sh_buffer_len := sh_buffer_len h + tk\<rparr>;
           input = drop tk input in
       if sh_buffer_len h = 64 then (input, (sha_compress (sh_buffer h) h)\<lparr>sh_buffer_len := 0\<rparr>)
       else (input, h)
     else (input, h))"

definition sha_update :: "bytes \<Rightarrow> Sha256 \<Rightarrow> Sha256" where
  "sha_update input h =
    (let h = h\<lparr>sh_len_bits := sh_len_bits h + of_nat (length input) * 8\<rparr>;
         (input, h) = sha_fill input h;
         (input, h) = sha_blocks input h in
     if input \<noteq> [] then h\<lparr>sh_buffer := copy_into 0 input (sh_buffer h), sh_buffer_len := length input\<rparr> else h)"

definition sha_finalize :: "Sha256 \<Rightarrow> bytes" where
  "sha_finalize h =
    (let h = h\<lparr>sh_buffer := (sh_buffer h)[sh_buffer_len h := 0x80], sh_buffer_len := sh_buffer_len h + 1\<rparr>;
         h = (if sh_buffer_len h > 56 then
                let h = h\<lparr>sh_buffer := copy_into (sh_buffer_len h) (replicate (64 - sh_buffer_len h) 0) (sh_buffer h)\<rparr> in
                (sha_compress (sh_buffer h) h)\<lparr>sh_buffer_len := 0\<rparr>
              else h);
         h = h\<lparr>sh_buffer := copy_into (sh_buffer_len h) (replicate (56 - sh_buffer_len h) 0) (sh_buffer h)\<rparr>;
         h = h\<lparr>sh_buffer := copy_into 56 (be_bytes 8 (sh_len_bits h)) (sh_buffer h)\<rparr>;
         h = sha_compress (sh_buffer h) h in
     concat (map (be_bytes 4) (sh_state h)))"

definition sha_digest :: "bytes \<Rightarrow> bytes" where
  "sha_digest input = sha_finalize (sha_update input sha_new)"

definition hmac_sha256 :: "bytes \<Rightarrow> bytes list \<Rightarrow> bytes" where
  "hmac_sha256 key chunks =
    (let ipad = map2 (XOR) key (replicate (length key) 0x36) @ replicate (64 - length key) 0x36;
         opad = map2 (XOR) key (replicate (length key) 0x5c) @ replicate (64 - length key) 0x5c;
         inner = fold sha_update chunks (sha_update ipad sha_new);
         inner_hash = sha_finalize inner in
     sha_finalize (sha_update inner_hash (sha_update opad sha_new)))"

definition constant_time_eq :: "bytes \<Rightarrow> bytes \<Rightarrow> bool" where
  "constant_time_eq a b =
    (if length a \<noteq> length b then False
     else fold (\<lambda>idx diff. diff OR (a ! idx XOR b ! idx)) [0..<length a] (0 :: u8) = 0)"

definition normalize_software_key :: "bytes \<Rightarrow> bytes" where
  "normalize_software_key raw_key = (if length raw_key = 32 then raw_key else sha_digest raw_key)"

section \<open>Software cipher\<close>

abbreviation (input) SOFTWARE_KEY_SLOTS :: nat where "SOFTWARE_KEY_SLOTS \<equiv> 8"
abbreviation (input) SOFTWARE_KEY_MIN_LEN :: nat where "SOFTWARE_KEY_MIN_LEN \<equiv> 16"
abbreviation (input) SOFTWARE_TAG_LEN :: nat where "SOFTWARE_TAG_LEN \<equiv> 16"

definition stream_block :: "bytes \<Rightarrow> u32 \<Rightarrow> bytes \<Rightarrow> bytes \<Rightarrow> u64 \<Rightarrow> bytes" where
  "stream_block key key_id nonce aad counter =
    hmac_sha256 key [as_bytes ''SEDS-HMAC-STREAM'', le_bytes 4 key_id, nonce, aad, le_bytes 8 counter]"

text \<open>The loop over the input: each block of the stream covers at most its length.  The
  argument \<^verbatim>\<open>fuel\<close> is the number of blocks that can still be needed; every block is 32
  bytes long, so the length of the input is enough.\<close>

primrec hmac_stream_loop ::
  "nat \<Rightarrow> (u64 \<Rightarrow> bytes) \<Rightarrow> u64 \<Rightarrow> nat \<Rightarrow> bytes \<Rightarrow> bytes \<Rightarrow> bytes" where
  "hmac_stream_loop 0 blk counter offset input output = output"
| "hmac_stream_loop (Suc fuel) blk counter offset input output =
    (if offset < length input then
       let block = blk counter;
           tk = min (length input - offset) (length block);
           output = fold (\<lambda>idx out. out[offset + idx := input ! (offset + idx) XOR block ! idx]) [0..<tk] output in
       hmac_stream_loop fuel blk (counter + 1) (offset + tk) input output
     else output)"

definition apply_hmac_stream :: "bytes \<Rightarrow> u32 \<Rightarrow> bytes \<Rightarrow> bytes \<Rightarrow> bytes \<Rightarrow> bytes \<Rightarrow> bytes" where
  "apply_hmac_stream key key_id nonce aad input output =
    hmac_stream_loop (length input) (stream_block key key_id nonce aad) 0 0 input output"

definition software_tag :: "bytes \<Rightarrow> u32 \<Rightarrow> bytes \<Rightarrow> bytes \<Rightarrow> bytes \<Rightarrow> bytes" where
  "software_tag key key_id nonce aad ciphertext =
    hmac_sha256 key [as_bytes ''SEDS-HMAC-TAG'', le_bytes 4 key_id, nonce, aad, ciphertext]"

record SoftwareKey =
  sk_key_id :: u32
  sk_key :: bytes

type_synonym SoftwareKeyring = "SoftwareKey option list"

definition keyring_new :: SoftwareKeyring where
  "keyring_new = replicate SOFTWARE_KEY_SLOTS None"

definition keyring_is_registered :: "SoftwareKeyring \<Rightarrow> bool" where
  "keyring_is_registered ring = list_ex (\<lambda>s. s \<noteq> None) ring"

definition keyring_get :: "SoftwareKeyring \<Rightarrow> u32 \<Rightarrow> bytes option" where
  "keyring_get ring key_id =
    map_option sk_key (find (\<lambda>k. sk_key_id k = key_id) (List.map_filter id ring))"

text \<open>\<^verbatim>\<open>iter_mut().find(p)\<close>: the index of the first slot with the property.\<close>

primrec find_slot :: "(SoftwareKey option \<Rightarrow> bool) \<Rightarrow> SoftwareKeyring \<Rightarrow> nat option" where
  "find_slot p [] = None"
| "find_slot p (s # ring) = (if p s then Some 0 else map_option Suc (find_slot p ring))"

definition keyring_register :: "u32 \<Rightarrow> bytes \<Rightarrow> SoftwareKeyring \<Rightarrow> unit result \<times> SoftwareKeyring" where
  "keyring_register key_id raw_key ring =
    (if length raw_key < SOFTWARE_KEY_MIN_LEN then (Err BadArg, ring)
     else
       let entry = Some \<lparr>sk_key_id = key_id, sk_key = normalize_software_key raw_key\<rparr> in
       case find_slot (\<lambda>s. map_option sk_key_id s = Some key_id) ring of
         Some i \<Rightarrow> (Ok (), ring[i := entry])
       | None \<Rightarrow>
           (case find_slot (\<lambda>s. s = None) ring of
             Some i \<Rightarrow> (Ok (), ring[i := entry])
           | None \<Rightarrow> (Err SizeMismatchError, ring)))"

definition software_key_for :: "SoftwareKeyring \<Rightarrow> u32 \<Rightarrow> bytes result" where
  "software_key_for ring key_id = (case keyring_get ring key_id of Some k \<Rightarrow> Ok k | None \<Rightarrow> Err BadArg)"

text \<open>The result of sealing: the two lengths and the new contents of the two output buffers.\<close>

type_synonym seal_result = "nat \<times> nat \<times> bytes \<times> bytes"

definition seal_with_software_key ::
  "SoftwareKeyring \<Rightarrow> u32 \<Rightarrow> bytes \<Rightarrow> bytes \<Rightarrow> bytes \<Rightarrow> bytes \<Rightarrow> bytes \<Rightarrow> seal_result result" where
  "seal_with_software_key ring key_id nonce aad plaintext ciphertext_out tag_out =
    (if length ciphertext_out < length plaintext \<or> length tag_out < SOFTWARE_TAG_LEN then Err SizeMismatchError
     else
       bind_r (software_key_for ring key_id) (\<lambda>key.
         let ciphertext_out = apply_hmac_stream key key_id nonce aad plaintext ciphertext_out;
             tag = software_tag key key_id nonce aad (take (length plaintext) ciphertext_out) in
         Ok (length plaintext, SOFTWARE_TAG_LEN, ciphertext_out, copy_into 0 (take SOFTWARE_TAG_LEN tag) tag_out)))"

definition open_with_software_key ::
  "SoftwareKeyring \<Rightarrow> u32 \<Rightarrow> bytes \<Rightarrow> bytes \<Rightarrow> bytes \<Rightarrow> bytes \<Rightarrow> bytes \<Rightarrow> (nat \<times> bytes) result" where
  "open_with_software_key ring key_id nonce aad ciphertext tag plaintext_out =
    (if length plaintext_out < length ciphertext \<or> length tag \<noteq> SOFTWARE_TAG_LEN then Err SizeMismatchError
     else
       bind_r (software_key_for ring key_id) (\<lambda>key.
         let expected = software_tag key key_id nonce aad ciphertext in
         if \<not> constant_time_eq tag (take SOFTWARE_TAG_LEN expected) then Err (HandlerError ''crypto open'')
         else Ok (length ciphertext, apply_hmac_stream key key_id nonce aad ciphertext plaintext_out)))"

section \<open>Providers\<close>

text \<open>A C callback returns its status, the lengths it stored and the buffers it filled.  The
  user pointer is part of the function.\<close>

type_synonym c_seal = "u32 \<Rightarrow> bytes \<Rightarrow> bytes \<Rightarrow> bytes \<Rightarrow> bytes \<Rightarrow> bytes \<Rightarrow> int \<times> seal_result"
type_synonym c_open = "u32 \<Rightarrow> bytes \<Rightarrow> bytes \<Rightarrow> bytes \<Rightarrow> bytes \<Rightarrow> bytes \<Rightarrow> int \<times> nat \<times> bytes"

record CCryptographyProvider =
  cp_seal :: "c_seal option"
  cp_open :: "c_open option"

record RustProvider =
  rp_seal :: "u32 \<Rightarrow> bytes \<Rightarrow> bytes \<Rightarrow> bytes \<Rightarrow> bytes \<Rightarrow> bytes \<Rightarrow> seal_result result"
  rp_open :: "u32 \<Rightarrow> bytes \<Rightarrow> bytes \<Rightarrow> bytes \<Rightarrow> bytes \<Rightarrow> bytes \<Rightarrow> (nat \<times> bytes) result"

record CryptoState =
  C_SHIM :: CCryptographyProvider
  RUST_SHIM :: "RustProvider option"
  SOFTWARE_KEYS :: SoftwareKeyring

definition register_c_cryptography_provider :: "CCryptographyProvider \<Rightarrow> CryptoState \<Rightarrow> CryptoState" where
  "register_c_cryptography_provider p cs = cs\<lparr>C_SHIM := p\<rparr>"

definition clear_c_cryptography_provider :: "CryptoState \<Rightarrow> CryptoState" where
  "clear_c_cryptography_provider cs = register_c_cryptography_provider \<lparr>cp_seal = None, cp_open = None\<rparr> cs"

definition c_cryptography_provider_registered :: "CryptoState \<Rightarrow> bool" where
  "c_cryptography_provider_registered cs \<longleftrightarrow> cp_seal (C_SHIM cs) \<noteq> None \<and> cp_open (C_SHIM cs) \<noteq> None"

definition register_rust_cryptography_provider :: "RustProvider \<Rightarrow> CryptoState \<Rightarrow> CryptoState" where
  "register_rust_cryptography_provider p cs = cs\<lparr>RUST_SHIM := Some p\<rparr>"

definition clear_rust_cryptography_provider :: "CryptoState \<Rightarrow> CryptoState" where
  "clear_rust_cryptography_provider cs = cs\<lparr>RUST_SHIM := None\<rparr>"

definition rust_cryptography_provider_registered :: "CryptoState \<Rightarrow> bool" where
  "rust_cryptography_provider_registered cs = (RUST_SHIM cs \<noteq> None)"

definition register_software_key :: "u32 \<Rightarrow> bytes \<Rightarrow> CryptoState \<Rightarrow> unit result \<times> CryptoState" where
  "register_software_key key_id key cs =
    (case keyring_register key_id key (SOFTWARE_KEYS cs) of
      (Inl e, _) \<Rightarrow> (Err e, cs)
    | (Inr u, ring) \<Rightarrow> (Ok (), cs\<lparr>SOFTWARE_KEYS := ring\<rparr>))"

definition clear_software_keys :: "CryptoState \<Rightarrow> CryptoState" where
  "clear_software_keys cs = cs\<lparr>SOFTWARE_KEYS := keyring_new\<rparr>"

definition software_crypto_available :: "CryptoState \<Rightarrow> bool" where
  "software_crypto_available cs = keyring_is_registered (SOFTWARE_KEYS cs)"

definition registered_crypto_available :: "CryptoState \<Rightarrow> bool" where
  "registered_crypto_available cs \<longleftrightarrow>
    c_cryptography_provider_registered cs \<or> rust_cryptography_provider_registered cs \<or> software_crypto_available cs"

definition seal_with_registered_c_provider ::
  "CryptoState \<Rightarrow> u32 \<Rightarrow> bytes \<Rightarrow> bytes \<Rightarrow> bytes \<Rightarrow> bytes \<Rightarrow> bytes \<Rightarrow> seal_result result" where
  "seal_with_registered_c_provider cs key_id nonce aad plaintext ciphertext_out tag_out =
    (case cp_seal (C_SHIM cs) of
      None \<Rightarrow> Err BadArg
    | Some seal \<Rightarrow>
        (case seal key_id nonce aad plaintext ciphertext_out tag_out of
          (status, ciphertext_len, tag_len, ct, tg) \<Rightarrow>
            if status \<noteq> 0 then Err (HandlerError ''crypto seal'')
            else if ciphertext_len > length ciphertext_out \<or> tag_len > length tag_out then Err SizeMismatchError
            else Ok (ciphertext_len, tag_len, ct, tg)))"

definition open_with_registered_c_provider ::
  "CryptoState \<Rightarrow> u32 \<Rightarrow> bytes \<Rightarrow> bytes \<Rightarrow> bytes \<Rightarrow> bytes \<Rightarrow> bytes \<Rightarrow> (nat \<times> bytes) result" where
  "open_with_registered_c_provider cs key_id nonce aad ciphertext tag plaintext_out =
    (case cp_open (C_SHIM cs) of
      None \<Rightarrow> Err BadArg
    | Some opn \<Rightarrow>
        (case opn key_id nonce aad ciphertext tag plaintext_out of
          (status, plaintext_len, pt) \<Rightarrow>
            if status \<noteq> 0 then Err (HandlerError ''crypto open'')
            else if plaintext_len > length plaintext_out then Err SizeMismatchError
            else Ok (plaintext_len, pt)))"

definition seal_with_registered_crypto ::
  "CryptoState \<Rightarrow> u32 \<Rightarrow> bytes \<Rightarrow> bytes \<Rightarrow> bytes \<Rightarrow> bytes \<Rightarrow> bytes \<Rightarrow> seal_result result" where
  "seal_with_registered_crypto cs key_id nonce aad plaintext ciphertext_out tag_out =
    (if c_cryptography_provider_registered cs
     then seal_with_registered_c_provider cs key_id nonce aad plaintext ciphertext_out tag_out
     else case RUST_SHIM cs of
       Some p \<Rightarrow> rp_seal p key_id nonce aad plaintext ciphertext_out tag_out
     | None \<Rightarrow> seal_with_software_key (SOFTWARE_KEYS cs) key_id nonce aad plaintext ciphertext_out tag_out)"

definition open_with_registered_crypto ::
  "CryptoState \<Rightarrow> u32 \<Rightarrow> bytes \<Rightarrow> bytes \<Rightarrow> bytes \<Rightarrow> bytes \<Rightarrow> bytes \<Rightarrow> (nat \<times> bytes) result" where
  "open_with_registered_crypto cs key_id nonce aad ciphertext tag plaintext_out =
    (if c_cryptography_provider_registered cs
     then open_with_registered_c_provider cs key_id nonce aad ciphertext tag plaintext_out
     else case RUST_SHIM cs of
       Some p \<Rightarrow> rp_open p key_id nonce aad ciphertext tag plaintext_out
     | None \<Rightarrow> open_with_software_key (SOFTWARE_KEYS cs) key_id nonce aad ciphertext tag plaintext_out)"

section \<open>Managed credentials\<close>

abbreviation (input) MANAGED_CREDENTIAL_LEN :: nat where "MANAGED_CREDENTIAL_LEN \<equiv> 80"
abbreviation (input) MANAGED_CREDENTIAL_BODY_LEN :: nat where "MANAGED_CREDENTIAL_BODY_LEN \<equiv> 48"

definition MANAGED_CREDENTIAL_MAGIC :: bytes where
  "MANAGED_CREDENTIAL_MAGIC = as_bytes ''SEDSCR1'' @ [0]"

record ManagedCredential =
  mc_subject_id :: u64
  mc_key_id :: u32
  mc_epoch :: u64
  mc_not_before_ms :: u64
  mc_not_after_ms :: u64
  mc_permissions :: u32

definition write_managed_credential_body :: "ManagedCredential \<Rightarrow> bytes \<Rightarrow> bytes" where
  "write_managed_credential_body c out =
    copy_into 44 (le_bytes 4 (mc_permissions c))
     (copy_into 36 (le_bytes 8 (mc_not_after_ms c))
       (copy_into 28 (le_bytes 8 (mc_not_before_ms c))
         (copy_into 20 (le_bytes 8 (mc_epoch c))
           (copy_into 16 (le_bytes 4 (mc_key_id c))
             (copy_into 8 (le_bytes 8 (mc_subject_id c))
               (copy_into 0 MANAGED_CREDENTIAL_MAGIC out))))))"

definition byte_range :: "nat \<Rightarrow> nat \<Rightarrow> bytes \<Rightarrow> bytes" where
  "byte_range a b bs = take (b - a) (drop a bs)"

definition read_managed_credential_body :: "bytes \<Rightarrow> ManagedCredential result" where
  "read_managed_credential_body bs =
    (if length bs \<noteq> MANAGED_CREDENTIAL_BODY_LEN \<or> take 8 bs \<noteq> MANAGED_CREDENTIAL_MAGIC then Err BadArg
     else Ok \<lparr>mc_subject_id = from_le_bytes (byte_range 8 16 bs), mc_key_id = from_le_bytes (byte_range 16 20 bs),
       mc_epoch = from_le_bytes (byte_range 20 28 bs), mc_not_before_ms = from_le_bytes (byte_range 28 36 bs),
       mc_not_after_ms = from_le_bytes (byte_range 36 44 bs), mc_permissions = from_le_bytes (byte_range 44 48 bs)\<rparr>)"

definition credential_tag :: "bytes \<Rightarrow> bytes \<Rightarrow> bytes" where
  "credential_tag root_key body =
    hmac_sha256 (normalize_software_key root_key) [as_bytes ''SEDS-MASTER-CREDENTIAL'', body]"

definition issue_managed_credential :: "bytes \<Rightarrow> ManagedCredential \<Rightarrow> bytes \<Rightarrow> (nat \<times> bytes) result" where
  "issue_managed_credential root_key c out =
    (if length root_key < SOFTWARE_KEY_MIN_LEN \<or> length out < MANAGED_CREDENTIAL_LEN then Err BadArg
     else
       let out = write_managed_credential_body c (take MANAGED_CREDENTIAL_BODY_LEN out) @ drop MANAGED_CREDENTIAL_BODY_LEN out;
           tag = credential_tag root_key (take MANAGED_CREDENTIAL_BODY_LEN out) in
       Ok (MANAGED_CREDENTIAL_LEN, copy_into MANAGED_CREDENTIAL_BODY_LEN tag out))"

definition verify_managed_credential :: "bytes \<Rightarrow> bytes \<Rightarrow> u64 \<Rightarrow> ManagedCredential result" where
  "verify_managed_credential root_key bs now_ms =
    (if length root_key < SOFTWARE_KEY_MIN_LEN \<or> length bs \<noteq> MANAGED_CREDENTIAL_LEN then Err BadArg
     else
       bind_r (read_managed_credential_body (take MANAGED_CREDENTIAL_BODY_LEN bs)) (\<lambda>c.
         if now_ms < mc_not_before_ms c \<or> now_ms > mc_not_after_ms c then Err (HandlerError ''credential expired'')
         else
           let expected = credential_tag root_key (take MANAGED_CREDENTIAL_BODY_LEN bs) in
           if \<not> constant_time_eq (byte_range MANAGED_CREDENTIAL_BODY_LEN MANAGED_CREDENTIAL_LEN bs) expected
           then Err (HandlerError ''credential signature'') else Ok c))"

section \<open>Reference hash\<close>

text \<open>The hash of FIPS 180-4: pad with a one bit, zeros and the length, and fold the
  compression over the blocks.\<close>

definition hash_blocks :: "bytes \<Rightarrow> u32 list \<Rightarrow> u32 list" where
  "hash_blocks m st = fold (\<lambda>b st. compress_state st b) (chunks_exact 64 m) st"

definition sha_pad :: "bytes \<Rightarrow> bytes" where
  "sha_pad m = m @ [0x80] @ replicate ((119 - length m mod 64) mod 64) 0 @ be_bytes 8 (of_nat (8 * length m) :: u64)"

definition sha256_reference :: "bytes \<Rightarrow> bytes" where
  "sha256_reference m = concat (map (be_bytes 4) (hash_blocks (sha_pad m) (sh_state sha_new)))"

lemma hash_blocks_short: "length m < 64 \<Longrightarrow> hash_blocks m st = st"
  by (simp add: hash_blocks_def chunks_exact.simps)

lemma hash_blocks_cons: "length b = 64 \<Longrightarrow> hash_blocks (b @ m) st = hash_blocks m (compress_state st b)"
  by (simp add: hash_blocks_def chunks_exact.simps [of 64 "b @ m"])

lemma hash_blocks_one: "length b = 64 \<Longrightarrow> hash_blocks b st = compress_state st b"
  using hash_blocks_cons [of b "[]" st] by (simp add: hash_blocks_short)

lemma hash_blocks_append:
  assumes "64 dvd length a"
  shows "hash_blocks (a @ b) st = hash_blocks b (hash_blocks a st)"
proof -
  have "length a = 64 * k \<Longrightarrow> hash_blocks (a @ b) st = hash_blocks b (hash_blocks a st)" for k
  proof (induction k arbitrary: a st)
    case (Suc k)
    define x y where "x = take 64 a" and "y = drop 64 a"
    have a: "a = x @ y" "length x = 64" "length y = 64 * k"
      using Suc.prems by (simp_all add: x_def y_def)
    show ?case
      using Suc.IH [OF a(3)] by (simp add: a(1) hash_blocks_cons [OF a(2)])
  qed (simp add: hash_blocks_short)
  with assms show ?thesis by (auto elim: dvdE)
qed

text \<open>What a hasher has absorbed: the full blocks are in the state, the rest in the buffer.\<close>

definition absorbed :: "bytes \<Rightarrow> Sha256 \<Rightarrow> bool" where
  "absorbed m h \<longleftrightarrow>
    (\<exists>full r. m = full @ r \<and> 64 dvd length full \<and> length r < 64 \<and> length (sh_buffer h) = 64 \<and>
      sh_buffer_len h = length r \<and> take (length r) (sh_buffer h) = r \<and>
      sh_state h = hash_blocks full (sh_state sha_new) \<and> sh_len_bits h = of_nat (8 * length m))"

lemma absorbedI:
  assumes "m = full @ r" "64 dvd length full" "length r < 64" "length (sh_buffer h) = 64"
    "sh_buffer_len h = length r" "take (length r) (sh_buffer h) = r"
    "sh_state h = hash_blocks full (sh_state sha_new)" "sh_len_bits h = of_nat (8 * length m)"
  shows "absorbed m h"
  unfolding absorbed_def using assms by blast

lemma absorbed_new: "absorbed [] sha_new"
  by (simp add: absorbed_def sha_new_def hash_blocks_short)

lemma length_copy_into [simp]: "off + length xs \<le> length buf \<Longrightarrow> length (copy_into off xs buf) = length buf"
  by (simp add: copy_into_def)

lemma take_copy_into: "off \<le> length buf \<Longrightarrow> take (off + length xs) (copy_into off xs buf) = take off buf @ xs"
  by (simp add: copy_into_def)

lemma sha_blocks_eq:
  obtains q rest where "input = q @ rest" "64 dvd length q" "length rest < 64"
    "sha_blocks input h = (rest, h\<lparr>sh_state := hash_blocks q (sh_state h)\<rparr>)"
proof (induction input h arbitrary: thesis rule: sha_blocks.induct)
  case (1 input h)
  show ?case
  proof (cases "length input \<ge> 64")
    case True
    obtain q rest where *: "drop 64 input = q @ rest" "64 dvd length q" "length rest < 64"
      "sha_blocks (drop 64 input) (sha_compress (take 64 input) h) =
        (rest, (sha_compress (take 64 input) h)\<lparr>sh_state := hash_blocks q (sh_state (sha_compress (take 64 input) h))\<rparr>)"
      using 1(1) [OF True] by blast
    have i: "input = (take 64 input @ q) @ rest"
      using *(1) by (metis append_assoc append_take_drop_id)
    show ?thesis
      by (rule 1(2) [OF i])
        (use True *(2-4) in \<open>simp_all add: sha_blocks.simps [of input] sha_compress_def hash_blocks_cons\<close>)
  next
    case False
    then show ?thesis
      by (intro 1(2) [of "[]" input]) (simp_all add: sha_blocks.simps [of input] hash_blocks_short)
  qed
qed

text \<open>Absorbing the blocks of the rest of the input, when the buffer is empty.\<close>

lemma absorbed_rest:
  assumes "64 dvd length full" "length (sh_buffer h) = 64" "sh_buffer_len h = 0"
    "sh_state h = hash_blocks full (sh_state sha_new)" "sh_len_bits h = of_nat (8 * length (full @ input))"
  shows "absorbed (full @ input)
    (case sha_blocks input h of (input, h) \<Rightarrow>
      if input \<noteq> [] then h\<lparr>sh_buffer := copy_into 0 input (sh_buffer h), sh_buffer_len := length input\<rparr> else h)"
proof -
  obtain q rest where q: "input = q @ rest" "64 dvd length q" "length rest < 64"
    "sha_blocks input h = (rest, h\<lparr>sh_state := hash_blocks q (sh_state h)\<rparr>)"
    by (rule sha_blocks_eq)
  have st: "hash_blocks q (sh_state h) = hash_blocks (full @ q) (sh_state sha_new)"
    by (simp add: assms(4) hash_blocks_append [OF assms(1)])
  have tk: "take (length rest) (copy_into 0 rest (sh_buffer h)) = rest"
    using take_copy_into [of 0 "sh_buffer h" rest] by simp
  have d: "64 dvd length (full @ q)" using assms(1) q(2) by simp
  have m: "full @ input = (full @ q) @ rest" by (simp add: q(1))
  show ?thesis
  proof (cases "rest = []")
    case True
    show ?thesis
      unfolding q(4) by (rule absorbedI [OF m d q(3)]) (use assms st True in simp_all)
  next
    case False
    show ?thesis
      unfolding q(4) by (rule absorbedI [OF m d q(3)]) (use assms st tk q(3) False in simp_all)
  qed
qed

lemma absorbed_update:
  assumes "absorbed m h"
  shows "absorbed (m @ x) (sha_update x h)"
proof -
  obtain full r where h: "m = full @ r" "64 dvd length full" "length r < 64" "length (sh_buffer h) = 64"
    "sh_buffer_len h = length r" "take (length r) (sh_buffer h) = r"
    "sh_state h = hash_blocks full (sh_state sha_new)" "sh_len_bits h = of_nat (8 * length m)"
    using assms unfolding absorbed_def by blast
  define h1 where "h1 = h\<lparr>sh_len_bits := sh_len_bits h + of_nat (length x) * 8\<rparr>"
  have bits: "sh_len_bits h1 = of_nat (8 * length (m @ x))"
    by (simp add: h1_def h(8) algebra_simps)
  have upd: "sha_update x h = (case sha_fill x h1 of (y, h2) \<Rightarrow> case sha_blocks y h2 of (z, h3) \<Rightarrow>
      if z \<noteq> [] then h3\<lparr>sh_buffer := copy_into 0 z (sh_buffer h3), sh_buffer_len := length z\<rparr> else h3)"
    by (simp add: sha_update_def h1_def Let_def)
  show ?thesis
  proof (cases "r = []")
    case True
    then have f: "sha_fill x h1 = (x, h1)" by (simp add: sha_fill_def h1_def h(5))
    have "absorbed (full @ x) (case sha_blocks x h1 of (z, h3) \<Rightarrow>
      if z \<noteq> [] then h3\<lparr>sh_buffer := copy_into 0 z (sh_buffer h3), sh_buffer_len := length z\<rparr> else h3)"
      by (rule absorbed_rest [OF h(2)]) (use h(4, 5, 7) True bits in \<open>simp_all add: h1_def h(1)\<close>)
    then show ?thesis by (simp add: upd f h(1) True)
  next
    case False
    define tk where "tk = min (64 - length r) (length x)"
    define buf where "buf = copy_into (length r) (take tk x) (sh_buffer h)"
    have lb: "length buf = 64"
      unfolding buf_def using h(3, 4) by (subst length_copy_into) (simp_all add: tk_def)
    have tb: "take (length r + tk) buf = r @ take tk x"
      using take_copy_into [of "length r" "sh_buffer h" "take tk x"] h(3, 4, 6) by (simp add: buf_def tk_def)
    show ?thesis
    proof (cases "64 - length r \<le> length x")
      case True
      then have tk: "length r + tk = 64" using h(3) by (simp add: tk_def)
      with tb lb have buf: "buf = r @ take tk x" by simp
      define h2 where "h2 = h1\<lparr>sh_buffer := buf, sh_state := compress_state (sh_state h) buf, sh_buffer_len := 0\<rparr>"
      have f: "sha_fill x h1 = (drop tk x, h2)"
        using False tk by (simp add: sha_fill_def h1_def h2_def h(5) tk_def [symmetric] buf_def [symmetric]
            sha_compress_def Let_def)
      define full2 where "full2 = full @ buf"
      have st: "sh_state h2 = hash_blocks full2 (sh_state sha_new)"
        by (simp add: h2_def full2_def h(7) hash_blocks_append [OF h(2)] hash_blocks_one [OF lb])
      have m: "m @ x = full2 @ drop tk x"
        by (simp add: h(1) full2_def buf)
      have "absorbed (full2 @ drop tk x) (case sha_blocks (drop tk x) h2 of (z, h3) \<Rightarrow>
        if z \<noteq> [] then h3\<lparr>sh_buffer := copy_into 0 z (sh_buffer h3), sh_buffer_len := length z\<rparr> else h3)"
        by (rule absorbed_rest) (use h(2) lb st bits m in \<open>simp_all add: full2_def h2_def h1_def\<close>)
      then show ?thesis by (simp add: upd f m)
    next
      case short: False
      then have tk: "tk = length x" by (simp add: tk_def)
      define h2 where "h2 = h1\<lparr>sh_buffer := buf, sh_buffer_len := length r + length x\<rparr>"
      have f: "sha_fill x h1 = ([], h2)"
        using False short by (simp add: sha_fill_def h1_def h2_def h(5) tk buf_def Let_def min_def)
      have b: "sha_blocks [] h2 = ([], h2)" by (simp add: sha_blocks.simps)
      have "absorbed (m @ x) h2"
        by (rule absorbedI [of _ full "r @ x"])
          (use h short lb tb tk bits in \<open>simp_all add: h2_def h1_def\<close>)
      then show ?thesis by (simp add: upd f b)
    qed
  qed
qed

lemma take_list_update_here: "n < length xs \<Longrightarrow> take (Suc n) (xs[n := v]) = take n xs @ [v]"
  by (simp add: take_Suc_conv_app_nth)

lemma copy_into_tail:
  assumes "off + length xs = length buf"
  shows "copy_into off xs buf = take off buf @ xs"
  using assms by (simp add: copy_into_def)

lemma absorbed_finalize:
  assumes "absorbed m h"
  shows "sha_finalize h = sha256_reference m"
proof -
  obtain full r where h: "m = full @ r" "64 dvd length full" "length r < 64" "length (sh_buffer h) = 64"
    "sh_buffer_len h = length r" "take (length r) (sh_buffer h) = r"
    "sh_state h = hash_blocks full (sh_state sha_new)" "sh_len_bits h = of_nat (8 * length m)"
    using assms unfolding absorbed_def by blast
  define lenb where "lenb = be_bytes 8 (of_nat (8 * length m) :: u64)"
  have ll [simp]: "length lenb = 8" by (simp add: lenb_def be_bytes_def)
  have lenb: "be_bytes 8 (sh_len_bits h) = lenb" by (simp only: lenb_def h(8))
  define buf where "buf = (sh_buffer h)[length r := 0x80]"
  have lb: "length buf = 64" by (simp add: buf_def h(4))
  have tb: "take (Suc (length r)) buf = r @ [0x80]"
    using h(3, 4, 6) by (simp add: buf_def take_list_update_here)
  have mm: "length m mod 64 = length r"
    using h(1, 2, 3) by (auto elim!: dvdE)
  show ?thesis
  proof (cases "Suc (length r) > 56")
    case True
    define b1 where "b1 = r @ [0x80] @ replicate (63 - length r) 0"
    define b2 where "b2 = replicate 56 0 @ lenb"
    have l: "length b1 = 64" "length b2 = 64" using h(3) by (simp_all add: b1_def b2_def)
    have c1: "copy_into (Suc (length r)) (replicate (64 - Suc (length r)) 0) buf = b1"
      using h(3) lb tb by (subst copy_into_tail) (simp_all add: b1_def)
    have c2: "copy_into 56 lenb (copy_into 0 (replicate 56 0) b1) = b2"
      using l(1) by (simp add: copy_into_def b2_def)
    have "(119 - length m mod 64) mod 64 = (63 - length r) + 56"
      using True h(3) by (simp add: mm)
    then have pad: "sha_pad m = full @ b1 @ b2"
      by (simp add: sha_pad_def h(1) b1_def b2_def lenb_def replicate_add)
    have "sha_finalize h = concat (map (be_bytes 4) (compress_state (compress_state (sh_state h) b1) b2))"
      using True h(5) c1 c2
      by (simp add: sha_finalize_def sha_compress_def buf_def [symmetric] lenb Let_def)
    then show ?thesis
      by (simp add: sha256_reference_def pad hash_blocks_append [OF h(2)] hash_blocks_cons [OF l(1)]
          hash_blocks_one [OF l(2)] h(7))
  next
    case False
    define b2 where "b2 = r @ [0x80] @ replicate (55 - length r) 0 @ lenb"
    have l: "length b2 = 64" using False by (simp add: b2_def)
    define b1 where "b1 = r @ [0x80] @ replicate (55 - length r) 0"
    have l1: "length b1 = 56" using False by (simp add: b1_def)
    have "copy_into (Suc (length r)) (replicate (56 - Suc (length r)) 0) buf = b1 @ drop 56 buf"
      using False lb tb by (simp add: copy_into_def b1_def)
    moreover have "copy_into 56 lenb (b1 @ drop 56 buf) = b1 @ lenb"
      using lb by (simp add: copy_into_def l1)
    ultimately have c2: "copy_into 56 lenb (copy_into (Suc (length r)) (replicate (56 - Suc (length r)) 0) buf) = b2"
      by (simp add: b1_def b2_def)
    have "(119 - length m mod 64) mod 64 = 55 - length r"
    proof -
      have "119 - length r = (55 - length r) + 64" using False by simp
      then show ?thesis unfolding mm by (simp only: mod_add_self2) simp
    qed
    then have pad: "sha_pad m = full @ b2"
      by (simp add: sha_pad_def h(1) b2_def lenb_def)
    have "sha_finalize h = concat (map (be_bytes 4) (compress_state (sh_state h) b2))"
      using False h(5) c2
      by (simp add: sha_finalize_def sha_compress_def buf_def [symmetric] lenb Let_def)
    then show ?thesis
      by (simp add: sha256_reference_def pad hash_blocks_append [OF h(2)] hash_blocks_one [OF l] h(7))
  qed
qed

lemma absorbed_fold: "absorbed m h \<Longrightarrow> absorbed (m @ concat chunks) (fold sha_update chunks h)"
proof (induction chunks arbitrary: m h)
  case (Cons c chunks)
  from Cons.IH [OF absorbed_update [OF Cons.prems, of c]] show ?case by simp
qed simp

lemma sha_stream: "sha_finalize (fold sha_update chunks sha_new) = sha256_reference (concat chunks)"
  using absorbed_finalize [OF absorbed_fold [OF absorbed_new, of chunks]] by simp

lemma length_reference [simp]: "length (sha256_reference m) = 32"
proof -
  have "length (compress_state st b) = 8" for st b
    by (simp add: compress_state_def Let_def split: prod.splits)
  moreover have "chunks_exact 64 (sha_pad m) \<noteq> []"
  proof -
    have "length (sha_pad m) \<ge> 64"
    proof (cases "length m \<ge> 64")
      case False
      then show ?thesis by (auto simp: sha_pad_def be_bytes_def mod_if)
    qed (simp add: sha_pad_def)
    then show ?thesis by (simp add: chunks_exact.simps)
  qed
  ultimately have "length (hash_blocks (sha_pad m) st) = 8" for st
    unfolding hash_blocks_def
    by (cases "chunks_exact 64 (sha_pad m)" rule: rev_cases) simp_all
  then show ?thesis
    by (simp add: sha256_reference_def length_concat comp_def be_bytes_def sum_list_triv)
qed

text \<open>HMAC of RFC 2104 for a 32-byte key, over the reference hash.\<close>

definition hmac_reference :: "bytes \<Rightarrow> bytes \<Rightarrow> bytes" where
  "hmac_reference key m =
    (let pad = (\<lambda>p. map2 (XOR) key (replicate (length key) p) @ replicate (64 - length key) p) in
     sha256_reference (pad 0x5c @ sha256_reference (pad 0x36 @ m)))"

lemma hmac_eq: "hmac_sha256 key chunks = hmac_reference key (concat chunks)"
proof -
  have "sha_finalize (fold sha_update (ip # chunks) sha_new) = sha256_reference (ip @ concat chunks)" for ip
    using sha_stream [of "ip # chunks"] by simp
  moreover have "sha_finalize (fold sha_update [op, ih] sha_new) = sha256_reference (op @ ih)" for op ih
    using sha_stream [of "[op, ih]"] by simp
  ultimately show ?thesis by (simp add: hmac_sha256_def hmac_reference_def Let_def)
qed

lemma length_hmac [simp]: "length (hmac_sha256 key chunks) = 32"
  by (simp add: hmac_eq hmac_reference_def Let_def)

section \<open>Comparison, stream and tag\<close>

lemma xor_eq_0_word: "a XOR b = 0 \<longleftrightarrow> a = b" for a b :: "'a::len word"
proof
  assume "a XOR b = 0"
  then have "(a XOR b) XOR b = b" by simp
  then show "a = b" by (simp add: xor.assoc)
qed simp

lemma or_eq_0_word: "a OR b = 0 \<longleftrightarrow> a = 0 \<and> b = 0" for a b :: "'a::len word"
proof
  assume "a OR b = 0"
  then have "\<not> bit a n \<and> \<not> bit b n" for n by (metis bit_or_iff bit_0_eq bot_apply bot_bool_def)
  then show "a = 0 \<and> b = 0" by (auto intro: bit_word_eqI)
qed simp

lemma diff_fold_eq_0:
  fixes d :: u8
  shows "fold (\<lambda>idx diff. diff OR (a ! idx XOR b ! idx)) ns d = 0 \<longleftrightarrow> d = 0 \<and> list_all (\<lambda>i. a ! i = b ! i) ns"
proof (induction ns arbitrary: d)
  case (Cons n ns)
  show ?case
    by (simp only: fold_simps list.pred_inject(2) Cons or_eq_0_word xor_eq_0_word conj_assoc)
qed simp

lemma constant_time_eq_iff: "constant_time_eq a b \<longleftrightarrow> a = b"
proof (cases "length a = length b")
  case True
  then show ?thesis
    by (simp only: constant_time_eq_def diff_fold_eq_0) (auto simp: list_all_iff intro: nth_equalityI)
next
  case False
  then show ?thesis by (auto simp: constant_time_eq_def)
qed

lemma xor_fold:
  fixes dst :: bytes
  shows "length (fold (\<lambda>idx out. out[off + idx := input ! (off + idx) XOR block ! idx]) [0..<n] dst) = length dst \<and>
    (\<forall>i < length dst. fold (\<lambda>idx out. out[off + idx := input ! (off + idx) XOR block ! idx]) [0..<n] dst ! i =
      (if off \<le> i \<and> i < off + n then input ! i XOR block ! (i - off) else dst ! i))"
proof (induction n)
  case (Suc n)
  define out where "out = fold (\<lambda>idx out. out[off + idx := input ! (off + idx) XOR block ! idx]) [0..<n] dst"
  note IH = Suc.IH [folded out_def]
  have step: "fold (\<lambda>idx out. out[off + idx := input ! (off + idx) XOR block ! idx]) [0..<Suc n] dst =
      out[off + n := input ! (off + n) XOR block ! n]"
    by (simp add: out_def)
  show ?case
    unfolding step
  proof (intro conjI allI impI)
    fix i
    assume "i < length dst"
    with IH show "out[off + n := input ! (off + n) XOR block ! n] ! i =
        (if off \<le> i \<and> i < off + Suc n then input ! i XOR block ! (i - off) else dst ! i)"
      by (cases "i = off + n") auto
  qed (use IH in simp)
next
  case 0
  then show ?case by auto
qed

definition keystream :: "(u64 \<Rightarrow> bytes) \<Rightarrow> nat \<Rightarrow> u8" where
  "keystream blk i = blk (of_nat (i div 32)) ! (i mod 32)"

lemma hmac_stream_loop_nth:
  assumes "\<And>c. length (blk c) = 32" "length input - off \<le> fuel" "off = 32 * k \<or> length input \<le> off"
  shows "length (hmac_stream_loop fuel blk (of_nat k) off input dst) = length dst \<and>
    (\<forall>i < length dst. hmac_stream_loop fuel blk (of_nat k) off input dst ! i =
      (if off \<le> i \<and> i < length input then input ! i XOR keystream blk i else dst ! i))"
  using assms(2, 3)
proof (induction fuel arbitrary: k off dst)
  case 0
  then show ?case by auto
next
  case (Suc fuel)
  show ?case
  proof (cases "off < length input")
    case False
    then show ?thesis by auto
  next
    case True
    then have k: "off = 32 * k" using Suc.prems(2) by simp
    define n where "n = min (length input - off) 32"
    define out where "out = fold (\<lambda>idx out. out[off + idx := input ! (off + idx) XOR blk (of_nat k) ! idx]) [0..<n] dst"
    note o = xor_fold [of off input "blk (of_nat k)" n dst, folded out_def]
    have step: "hmac_stream_loop (Suc fuel) blk (of_nat k) off input dst =
        hmac_stream_loop fuel blk (of_nat (Suc k)) (off + n) input out"
      using True by (simp add: assms(1) n_def out_def Let_def add.commute)
    have pos: "1 \<le> n" using True by (simp add: n_def)
    have "length input - (off + n) \<le> fuel" using Suc.prems(1) pos True by simp
    moreover have "off + n = 32 * Suc k \<or> length input \<le> off + n" by (auto simp: n_def k)
    ultimately have IH: "length (hmac_stream_loop fuel blk (of_nat (Suc k)) (off + n) input out) = length out \<and>
      (\<forall>i < length out. hmac_stream_loop fuel blk (of_nat (Suc k)) (off + n) input out ! i =
        (if off + n \<le> i \<and> i < length input then input ! i XOR keystream blk i else out ! i))"
      by (rule Suc.IH)
    have here: "keystream blk i = blk (of_nat k) ! (i - off)" if "off \<le> i" "i < off + n" for i
    proof -
      have "i < 32 * k + 32" "32 * k \<le> i" using that by (simp_all add: n_def k)
      then have "i div 32 = k" "i mod 32 = i - off"
        by (simp_all add: k div_nat_eqI modulo_nat_def)
      then show ?thesis by (simp add: keystream_def)
    qed
    have lim: "i < off + n \<Longrightarrow> i < length input" for i using True by (simp add: n_def)
    show ?thesis
      unfolding step using IH o here lim by auto
  qed
qed

definition stream_xor :: "(nat \<Rightarrow> u8) \<Rightarrow> bytes \<Rightarrow> bytes" where
  "stream_xor ks input = map (\<lambda>i. input ! i XOR ks i) [0..<length input]"

lemma stream_xor_involutive [simp]: "stream_xor ks (stream_xor ks input) = input"
  by (rule nth_equalityI) (simp_all add: stream_xor_def xor.assoc)

lemma length_stream_xor [simp]: "length (stream_xor ks input) = length input"
  by (simp add: stream_xor_def)

lemma apply_hmac_stream_eq:
  assumes "length input \<le> length dst"
  shows "apply_hmac_stream key key_id nonce aad input dst =
    stream_xor (keystream (stream_block key key_id nonce aad)) input @ drop (length input) dst"
proof (rule nth_equalityI)
  have blk: "length (stream_block key key_id nonce aad c) = 32" for c by (simp add: stream_block_def)
  note s = hmac_stream_loop_nth [of "stream_block key key_id nonce aad" input 0 "length input" 0 dst, OF blk, simplified]
  show "length (apply_hmac_stream key key_id nonce aad input dst) =
      length (stream_xor (keystream (stream_block key key_id nonce aad)) input @ drop (length input) dst)"
    using s assms by (simp add: apply_hmac_stream_def)
  show "apply_hmac_stream key key_id nonce aad input dst ! i =
      (stream_xor (keystream (stream_block key key_id nonce aad)) input @ drop (length input) dst) ! i"
    if "i < length (apply_hmac_stream key key_id nonce aad input dst)" for i
    using s that assms by (auto simp: apply_hmac_stream_def nth_append stream_xor_def)
qed

section \<open>Credentials and keys\<close>

lemma length_magic [simp]: "length MANAGED_CREDENTIAL_MAGIC = 8"
  by (simp add: MANAGED_CREDENTIAL_MAGIC_def as_bytes_def)

definition credential_body :: "ManagedCredential \<Rightarrow> bytes" where
  "credential_body c = MANAGED_CREDENTIAL_MAGIC @ le_bytes 8 (mc_subject_id c) @ le_bytes 4 (mc_key_id c) @
    le_bytes 8 (mc_epoch c) @ le_bytes 8 (mc_not_before_ms c) @ le_bytes 8 (mc_not_after_ms c) @
    le_bytes 4 (mc_permissions c)"

lemma length_credential_body [simp]: "length (credential_body c) = 48"
  by (simp add: credential_body_def)

lemma copy_into_step:
  "off = length a \<Longrightarrow> copy_into off xs (a @ rest) = (a @ xs) @ drop (length xs) rest"
  by (simp add: copy_into_def)

lemma write_credential_body: "length out = 48 \<Longrightarrow> write_managed_credential_body c out = credential_body c"
proof -
  assume "length out = 48"
  moreover have "copy_into 0 MANAGED_CREDENTIAL_MAGIC out = MANAGED_CREDENTIAL_MAGIC @ drop 8 out"
    by (simp add: copy_into_def)
  ultimately show ?thesis
    by (simp add: write_managed_credential_body_def credential_body_def copy_into_step del: append_assoc)
qed

lemma read_credential_body: "read_managed_credential_body bs = Ok c \<longleftrightarrow> bs = credential_body c"
proof
  assume r: "read_managed_credential_body bs = Ok c"
  then have l: "length bs = 48" and m: "take 8 bs = MANAGED_CREDENTIAL_MAGIC"
    by (auto simp: read_managed_credential_body_def split: if_splits)
  have cat: "bs = take 8 bs @ byte_range 8 16 bs @ byte_range 16 20 bs @ byte_range 20 28 bs @ byte_range 28 36 bs @
      byte_range 36 44 bs @ byte_range 44 48 bs"
    using l by (intro nth_equalityI) (auto simp: byte_range_def nth_append)
  have len: "length (byte_range a b bs) = b - a" if "b \<le> 48" "a \<le> b" for a b
    using l that by (simp add: byte_range_def)
  from r show "bs = credential_body c"
    using l m cat by (auto simp: read_managed_credential_body_def credential_body_def le_bytes_from_le_bytes len)
next
  assume "bs = credential_body c"
  then show "read_managed_credential_body bs = Ok c"
    by (simp add: read_managed_credential_body_def credential_body_def byte_range_def from_le_bytes_le_bytes)
qed

lemma find_slot_Some: "find_slot p ring = Some i \<Longrightarrow> i < length ring \<and> p (ring ! i) \<and> (\<forall>j < i. \<not> p (ring ! j))"
proof (induction ring arbitrary: i)
  case (Cons s ring)
  then show ?case by (auto split: if_splits simp: less_Suc_eq_0_disj)
qed simp

lemma find_slot_None: "find_slot p ring = None \<longleftrightarrow> (\<forall>s \<in> set ring. \<not> p s)"
  by (induction ring) auto

lemma keyring_get_Nil [simp]: "keyring_get [] key_id = None"
  by (simp add: keyring_get_def map_filter_def)

lemma keyring_get_Cons [simp]:
  "keyring_get (s # ring) key_id =
    (case s of Some k \<Rightarrow> if sk_key_id k = key_id then Some (sk_key k) else keyring_get ring key_id
     | None \<Rightarrow> keyring_get ring key_id)"
  by (cases s) (auto simp: keyring_get_def map_filter_def)

text \<open>Writing an entry into the first slot of its id, or into a slot of a ring without it.\<close>

lemma keyring_get_update:
  assumes "i < length ring" "\<forall>j < i. map_option sk_key_id (ring ! j) \<noteq> Some key_id"
    "map_option sk_key_id (ring ! i) = Some key_id \<or> ring ! i = None"
  shows "keyring_get (ring[i := Some \<lparr>sk_key_id = key_id, sk_key = key\<rparr>]) =
    (keyring_get ring)(key_id := Some key)"
  using assms
proof (induction ring arbitrary: i)
  case (Cons s ring)
  show ?case
  proof (cases i)
    case 0
    with Cons.prems(3) show ?thesis by (auto split: option.splits)
  next
    case (Suc j)
    have "map_option sk_key_id s \<noteq> Some key_id"
      using Cons.prems(2) Suc by (metis nth_Cons_0 zero_less_Suc)
    moreover have "keyring_get (ring[j := Some \<lparr>sk_key_id = key_id, sk_key = key\<rparr>]) = (keyring_get ring)(key_id := Some key)"
      using Cons.prems Suc by (intro Cons.IH) auto
    ultimately show ?thesis by (auto simp: Suc split: option.splits)
  qed
qed simp

lemma keyring_register_get:
  assumes "keyring_register key_id raw ring = (Ok (), ring')"
  shows "keyring_get ring' = (keyring_get ring)(key_id := Some (normalize_software_key raw))"
    "length ring' = length ring" "SOFTWARE_KEY_MIN_LEN \<le> length raw"
proof -
  let ?e = "Some \<lparr>sk_key_id = key_id, sk_key = normalize_software_key raw\<rparr>"
  from assms show "SOFTWARE_KEY_MIN_LEN \<le> length raw"
    by (auto simp: keyring_register_def split: if_splits)
  have "\<exists>i. ring' = ring[i := ?e] \<and> i < length ring \<and> (\<forall>j < i. map_option sk_key_id (ring ! j) \<noteq> Some key_id) \<and>
      (map_option sk_key_id (ring ! i) = Some key_id \<or> ring ! i = None)"
  proof (cases "find_slot (\<lambda>s. map_option sk_key_id s = Some key_id) ring")
    case (Some i)
    with assms find_slot_Some [OF Some] show ?thesis
      by (auto simp: keyring_register_def Let_def split: if_splits)
  next
    case None
    then obtain i where i: "find_slot (\<lambda>s. s = None) ring = Some i" "ring' = ring[i := ?e]"
      using assms by (auto simp: keyring_register_def Let_def split: if_splits option.splits)
    moreover have "\<forall>j < length ring. map_option sk_key_id (ring ! j) \<noteq> Some key_id"
      using None unfolding find_slot_None by (metis nth_mem)
    ultimately show ?thesis
      using find_slot_Some [OF i(1)] by (auto intro: order.strict_trans)
  qed
  then show "keyring_get ring' = (keyring_get ring)(key_id := Some (normalize_software_key raw))"
    "length ring' = length ring"
    using keyring_get_update by auto
qed

section \<open>Sealing and opening\<close>

lemma software_open_sealed:
  assumes "seal_with_software_key ring key_id nonce aad plaintext ciphertext_out tag_out =
      Ok (ciphertext_len, tag_len, ct, tg)"
    and "length plaintext \<le> length plaintext_out" and "length tag = 16"
  shows "ciphertext_len = length plaintext \<and> tag_len = 16 \<and>
    length (take ciphertext_len ct) = ciphertext_len \<and> length (take tag_len tg) = tag_len \<and>
    open_with_software_key ring key_id nonce aad (take ciphertext_len ct) tag plaintext_out =
      (if tag = take tag_len tg then Ok (length plaintext, plaintext @ drop (length plaintext) plaintext_out)
       else Err (HandlerError ''crypto open''))"
proof -
  from assms(1) obtain key where key: "software_key_for ring key_id = Ok key"
    and len: "length plaintext \<le> length ciphertext_out" "16 \<le> length tag_out"
    and ct: "ciphertext_len = length plaintext" "tag_len = 16"
      "ct = apply_hmac_stream key key_id nonce aad plaintext ciphertext_out"
      "tg = copy_into 0 (take 16 (software_tag key key_id nonce aad (take (length plaintext) ct))) tag_out"
    by (auto simp: seal_with_software_key_def bind_r_ok_iff Let_def split: if_splits)
  define ks where "ks = keystream (stream_block key key_id nonce aad)"
  have c: "take (length plaintext) ct = stream_xor ks plaintext"
    using len(1) by (simp add: ct(3) apply_hmac_stream_eq ks_def)
  have t: "take 16 tg = take 16 (software_tag key key_id nonce aad (stream_xor ks plaintext))"
    by (simp add: ct(4) c copy_into_def software_tag_def)
  have p: "apply_hmac_stream key key_id nonce aad (stream_xor ks plaintext) plaintext_out =
      plaintext @ drop (length plaintext) plaintext_out"
    using assms(2) by (simp add: apply_hmac_stream_eq ks_def [symmetric])
  have l: "length (take 16 tg) = 16"
    by (simp add: t software_tag_def)
  show ?thesis
    using assms(2, 3) l by (simp add: open_with_software_key_def ct(1, 2) c t key p constant_time_eq_iff Let_def)
qed

lemma software_seal_open:
  assumes "seal_with_software_key ring key_id nonce aad p (replicate (length p) 0) (replicate 32 0) = Ok (cl, tn, ct, tg)"
  shows "cl = length p \<and> length (take cl ct) = cl \<and> 0 < tn \<and> tn \<le> 32 \<and> length (take tn tg) = tn \<and>
    open_with_software_key ring key_id nonce aad (take cl ct) (take tn tg) (replicate (length p) 0) = Ok (length p, p)"
proof -
  have "tn = 16" using software_open_sealed [OF assms order_refl, of "replicate 16 0"] by simp
  moreover have "length (take tn tg) = tn" using software_open_sealed [OF assms order_refl, of "replicate 16 0"] by auto
  ultimately show ?thesis using software_open_sealed [OF assms, of "replicate (length p) 0" "take tn tg"] by auto
qed

section \<open>Properties\<close>

text \<open>C10: the incremental hasher is SHA-256: feeding a message in any pieces, through the block
  buffer, and finishing gives the digest of the padded concatenation as the standard
  defines it, and HMAC likewise depends on its pieces only through their concatenation.\<close>

theorem sha256_incremental:
  "sha_finalize (fold sha_update chunks sha_new) = sha256_reference (concat chunks) \<and>
   sha_digest (concat chunks) = sha256_reference (concat chunks) \<and>
   hmac_sha256 key chunks = hmac_reference key (concat chunks)"
  using sha_stream [of chunks] sha_stream [of "[concat chunks]"] by (simp add: sha_digest_def hmac_eq)

text \<open>C9: sealing with a software key and opening the result gives the plaintext back in the
  front of the output buffer, and opening with any other tag of the right length is refused.\<close>

theorem seal_open_roundtrip:
  assumes "seal_with_software_key ring key_id nonce aad plaintext ciphertext_out tag_out =
      Ok (ciphertext_len, tag_len, ct, tg)"
    and "length plaintext \<le> length plaintext_out" and "length tag = 16"
  shows "ciphertext_len = length plaintext \<and> tag_len = 16 \<and>
    open_with_software_key ring key_id nonce aad (take ciphertext_len ct) tag plaintext_out =
      (if tag = take tag_len tg then Ok (length plaintext, plaintext @ drop (length plaintext) plaintext_out)
       else Err (HandlerError ''crypto open''))"
  using software_open_sealed [OF assms] by auto

text \<open>C8: a credential verifies to a value exactly when its bytes are the ones issued for that
  value under the same root key and the time is inside the validity window.\<close>

theorem credential_verify_iff_issued:
  "verify_managed_credential root_key bs now = Ok c \<longleftrightarrow>
    issue_managed_credential root_key c (replicate 80 0) = Ok (80, bs) \<and>
    mc_not_before_ms c \<le> now \<and> now \<le> mc_not_after_ms c"
proof -
  define tag where "tag = credential_tag root_key (credential_body c)"
  have lt: "length tag = 32" by (simp add: tag_def credential_tag_def)
  have w: "write_managed_credential_body c (replicate 48 0) = credential_body c"
    by (rule write_credential_body) simp
  have iss: "issue_managed_credential root_key c (replicate 80 0) =
      (if length root_key < 16 then Err BadArg else Ok (80, credential_body c @ tag))"
    by (simp add: issue_managed_credential_def w copy_into_def tag_def [symmetric] lt Let_def)
  have split: "bs = credential_body c @ tag \<longleftrightarrow>
      length bs = 80 \<and> take 48 bs = credential_body c \<and> drop 48 bs = tag"
    by (auto simp: lt) (metis append_take_drop_id)
  have rng: "byte_range 48 80 bs = drop 48 bs" if "length bs = 80"
    using that by (simp add: byte_range_def)
  have iss_iff: "issue_managed_credential root_key c (replicate 80 0) = Ok (80, bs) \<longleftrightarrow>
      \<not> length root_key < 16 \<and> length bs = 80 \<and> take 48 bs = credential_body c \<and> drop 48 bs = tag"
    unfolding split [symmetric] iss by auto
  show ?thesis
  proof (cases "length root_key < 16 \<or> length bs \<noteq> 80")
    case True
    then show ?thesis unfolding iss_iff by (auto simp: verify_managed_credential_def)
  next
    case False
    then have "byte_range 48 80 bs = drop 48 bs" by (intro rng) simp
    with False have "verify_managed_credential root_key bs now = Ok c \<longleftrightarrow>
        (\<exists>d. read_managed_credential_body (take 48 bs) = Ok d \<and>
          (if now < mc_not_before_ms d \<or> now > mc_not_after_ms d then Err (HandlerError ''credential expired'')
           else if drop 48 bs \<noteq> credential_tag root_key (take 48 bs) then Err (HandlerError ''credential signature'')
           else Ok d) = Ok c)"
      by (simp only: verify_managed_credential_def bind_r_ok_iff Let_def constant_time_eq_iff simp_thms if_False)
    also have "\<dots> \<longleftrightarrow> take 48 bs = credential_body c \<and> \<not> (now < mc_not_before_ms c \<or> now > mc_not_after_ms c) \<and>
        drop 48 bs = credential_tag root_key (take 48 bs)"
      unfolding read_credential_body by (auto split: if_splits)
    finally show ?thesis
      using False unfolding iss_iff tag_def by (auto simp: not_less)
  qed
qed

theorem seal_open_roundtrip_witness:
  "\<exists>ct tg. seal_with_software_key [Some \<lparr>sk_key_id = 3, sk_key = replicate 32 7\<rparr>] 3 [1, 2] [9] [5, 6]
      (replicate 2 0) (replicate 32 0) = Ok (2, 16, ct, tg) \<and>
    open_with_software_key [Some \<lparr>sk_key_id = 3, sk_key = replicate 32 7\<rparr>] 3 [1, 2] [9] (take 2 ct) (take 16 tg)
      (replicate 2 0) = Ok (2, [5, 6])"
proof -
  let ?ring = "[Some \<lparr>sk_key_id = 3, sk_key = replicate 32 7\<rparr>]"
  obtain ct tg where s: "seal_with_software_key ?ring 3 [1, 2] [9] [5, 6] (replicate 2 0) (replicate 32 0) =
      Ok (2, 16, ct, tg)" and l: "length (take 16 tg) = 16"
    by (simp add: seal_with_software_key_def software_key_for_def software_tag_def copy_into_def Let_def)
  from seal_open_roundtrip [OF s _ l, of "replicate 2 0"] s show ?thesis by auto
qed

end
