(* ===== verification/Wire_Format.thy ===== *)
theory Wire_Format
  imports Wire_Endpoints Memory_Admission Crypto
begin

text \<open>
  Whole frames of the wire format (\<^verbatim>\<open>src/src/wire_format.rs\<close>): packing, unpacking and
  sizing.  The checksum (\<^verbatim>\<open>crc32fast\<close>), the compressor and the decompressor
  (\<^verbatim>\<open>zstd_safe\<close>) are fields of the environment.  An outcome None is a failed assertion
  of the source.  Proved: unpacking a packed frame returns the packet with its endpoint
  set in ascending order, under the receiver's own schema and address book, and the size
  function gives the length of the frame.
\<close>

section \<open>Environment\<close>

text \<open>\<^verbatim>\<open>we_compress input max\<close> is the output of the compressor in a buffer of \<^verbatim>\<open>max\<close> bytes,
  \<^verbatim>\<open>we_decompress input cap\<close> that of the decompressor; None is an error.\<close>

record WireEnv =
  we_packet :: PacketEnv
  we_crc :: "bytes \<Rightarrow> u32"
  we_compress :: "bytes \<Rightarrow> nat \<Rightarrow> bytes option"
  we_decompress :: "bytes \<Rightarrow> nat \<Rightarrow> bytes option"
  we_threshold :: nat
  we_crypto :: CryptoState

abbreviation (input) FLAG_COMPRESSED_PAYLOAD :: u8 where "FLAG_COMPRESSED_PAYLOAD \<equiv> 0x01"
abbreviation (input) FLAG_RELIABLE_HEADER_PRESENT :: u8 where "FLAG_RELIABLE_HEADER_PRESENT \<equiv> 0x02"
abbreviation (input) FLAG_WIRE_CONTRACT :: u8 where "FLAG_WIRE_CONTRACT \<equiv> 0x04"
abbreviation (input) FLAG_PACKET_NONCE :: u8 where "FLAG_PACKET_NONCE \<equiv> 0x08"
abbreviation (input) FLAG_E2E_ENCRYPTED_PAYLOAD :: u8 where "FLAG_E2E_ENCRYPTED_PAYLOAD \<equiv> 0x10"
abbreviation (input) FLAG_ENDPOINT_BITMAP_PRESENT :: u8 where "FLAG_ENDPOINT_BITMAP_PRESENT \<equiv> 0x20"
abbreviation (input) FLAG_COMPACT_RELIABLE_HEADER :: u8 where "FLAG_COMPACT_RELIABLE_HEADER \<equiv> 0x40"
abbreviation (input) FLAG_ENDPOINT_LIST_PRESENT :: u8 where "FLAG_ENDPOINT_LIST_PRESENT \<equiv> 0x80"

definition is_discovery_type :: "DataType \<Rightarrow> bool" where
  "is_discovery_type ty \<longleftrightarrow>
    ty \<in> set [DT_DiscoveryAnnounce, DT_DiscoveryTimeSyncSources, DT_DiscoveryTopology, DT_DiscoverySchema,
      DT_DiscoveryTopologyRequest, DT_DiscoverySchemaRequest, DT_ManagedVariableRequest, DT_ManagedVariableValue,
      DT_DiscoveryLeave, DT_DiscoveryLinkCapabilities, DT_DiscoveryAddress]"

section \<open>Payload compression\<close>

definition compress_to_vec_bounded :: "WireEnv \<Rightarrow> bytes \<Rightarrow> nat \<Rightarrow> bytes option" where
  "compress_to_vec_bounded env input max_output =
    (if input = [] \<or> max_output = 0 then None else we_compress env input max_output)"

definition compress_if_beneficial :: "WireEnv \<Rightarrow> bytes \<Rightarrow> bool \<times> bytes" where
  "compress_if_beneficial env pl =
    (if length pl < we_threshold env then (False, pl)
     else case compress_to_vec_bounded env pl (saturating_sub (length pl) 2) of
       None \<Rightarrow> (False, pl)
     | Some compressed \<Rightarrow> if length compressed + 1 \<ge> length pl then (False, pl) else (True, compressed))"

definition decompress :: "WireEnv \<Rightarrow> bytes \<Rightarrow> nat \<Rightarrow> bytes result" where
  "decompress env compressed expected_len =
    (case we_decompress env compressed expected_len of
      None \<Rightarrow> Err (Unpack ''decompression failed'')
    | Some out \<Rightarrow>
        if length out \<noteq> expected_len then Err (Unpack ''decompressed size mismatch'') else Ok out)"

definition payload_for_encoding :: "WireEnv \<Rightarrow> Packet \<Rightarrow> bool \<Rightarrow> bool \<times> bytes" where
  "payload_for_encoding env pkt compression_allowed =
    (if \<not> compression_allowed then (False, payload pkt)
     else if is_discovery_type (pkt_ty pkt) then (False, payload pkt)
     else compress_if_beneficial env (payload pkt))"

definition payload_for_wire :: "WireEnv \<Rightarrow> Packet \<Rightarrow> bool \<times> bytes" where
  "payload_for_wire env pkt = payload_for_encoding env pkt True"

section \<open>Encrypted payload\<close>

definition e2e_nonce_for_packet :: "Packet \<Rightarrow> bytes" where
  "e2e_nonce_for_packet pkt =
    le_bytes 4 (pkt_ty pkt) @ take 6 (le_bytes 8 (pkt_timestamp pkt AND 0x0000FFFFFFFFFFFF)) @ le_bytes 2 (pkt_nonce pkt)"

definition write_encrypted_payload :: "WireEnv \<Rightarrow> Packet \<Rightarrow> u32 \<Rightarrow> bytes \<Rightarrow> bytes \<Rightarrow> bytes result" where
  "write_encrypted_payload env pkt key_id plaintext out =
    (let nonce = e2e_nonce_for_packet pkt in
     bind_r (seal_with_registered_crypto (we_crypto env) key_id nonce out plaintext
       (replicate (length plaintext) 0) (replicate 32 0)) (\<lambda>(ciphertext_len, tag_len, ciphertext, tag).
       if ciphertext_len > length plaintext \<or> tag_len > 32 then Err SizeMismatchError
       else
         let out = write_uleb128 (ucast key_id) out;
             out = write_uleb128 (of_nat (length plaintext)) out;
             out = write_uleb128 (of_nat (length nonce)) out @ nonce;
             out = write_uleb128 (of_nat tag_len) out @ take tag_len tag in
         Ok (out @ take ciphertext_len ciphertext)))"

definition read_encrypted_payload :: "WireEnv \<Rightarrow> bytes \<Rightarrow> nat \<Rightarrow> bytes reader" where
  "read_encrypted_payload env aad plaintext_len =
    seq_rd (read_uleb_narrow ''e2e key id too large'') (\<lambda>key_id :: u32.
    seq_rd read_uleb128 (\<lambda>wire_payload_len.
      if unat wire_payload_len > plaintext_len then fail_rd (Unpack ''bad e2e payload length'')
      else
    seq_rd read_uleb128 (\<lambda>nonce_len.
      if nonce_len = 0 \<or> unat nonce_len > 64 then fail_rd (Unpack ''bad e2e nonce length'')
      else
    seq_rd (read_bytes (unat nonce_len)) (\<lambda>nonce.
    seq_rd read_uleb128 (\<lambda>tag_len.
      if tag_len = 0 \<or> unat tag_len > 32 then fail_rd (Unpack ''bad e2e tag length'')
      else
    seq_rd (read_bytes (unat tag_len)) (\<lambda>tag r.
    seq_rd (read_bytes (remaining r)) (\<lambda>ciphertext r.
      bind_r (open_with_registered_crypto (we_crypto env) key_id nonce aad ciphertext tag
        (replicate (unat wire_payload_len) 0)) (\<lambda>(opened_len, plaintext).
        if opened_len \<noteq> unat wire_payload_len then Err SizeMismatchError else Ok (plaintext, r))) r))))))"

section \<open>Packing\<close>

abbreviation (input) reliable_control_types :: "DataType list" where
  "reliable_control_types \<equiv> [DT_ReliableAck, DT_ReliablePartialAck, DT_ReliablePacketRequest]"

definition packet_endpoint_bitmap_present :: "WireEnv \<Rightarrow> Packet \<Rightarrow> MessageElement option \<Rightarrow> u64 list \<Rightarrow> bool" where
  "packet_endpoint_bitmap_present env pkt shape target_senders =
    (let carries_wire_contract = (shape \<noteq> None \<or> target_senders \<noteq> []);
         endpoints_are_schema_default = endpoints_match_schema (we_packet env) (pkt_ty pkt) (pkt_endpoints pkt);
         fixed_control_endpoints = (pkt_ty pkt \<in> set reliable_control_types) in
     pkt_ty pkt > DT_P2pMessage \<or> \<not> endpoints_are_schema_default \<or>
     (carries_wire_contract \<and> \<not> fixed_control_endpoints))"

definition frame_flags :: "bool \<Rightarrow> bool \<Rightarrow> bool \<Rightarrow> bool \<Rightarrow> bool \<Rightarrow> bool \<Rightarrow> bool \<Rightarrow> bool \<Rightarrow> u8" where
  "frame_flags compressed contract nonce lst bitmap reliable compact e2e =
    (if compressed then FLAG_COMPRESSED_PAYLOAD else 0) OR
    (if contract then FLAG_WIRE_CONTRACT else 0) OR
    (if nonce then FLAG_PACKET_NONCE else 0) OR
    (if lst then FLAG_ENDPOINT_LIST_PRESENT else if bitmap then FLAG_ENDPOINT_BITMAP_PRESENT else 0) OR
    (if reliable then FLAG_RELIABLE_HEADER_PRESENT else 0) OR
    (if compact then FLAG_COMPACT_RELIABLE_HEADER else 0) OR
    (if e2e then FLAG_E2E_ENCRYPTED_PAYLOAD else 0)"

text \<open>The bytes before the payload.\<close>

definition write_frame_header ::
  "WireEnv \<Rightarrow> Packet \<Rightarrow> ReliableHeader option \<Rightarrow> MessageElement option \<Rightarrow> u64 list \<Rightarrow> bool \<Rightarrow> bool \<Rightarrow> u32 \<Rightarrow> bytes" where
  "write_frame_header env pkt reliable shape target_senders compressed e2e source_address =
    (let carries_wire_contract = (shape \<noteq> None \<or> target_senders \<noteq> []);
         bitmap = packet_endpoint_bitmap_present env pkt shape target_senders;
         lst = (bitmap \<and> explicit_endpoint_list (pkt_endpoints pkt));
         nep = length (unique_sorted_endpoints (pkt_endpoints pkt));
         compact = (case reliable of Some h \<Rightarrow> should_compact_reliable_header h | None \<Rightarrow> False);
         out = [frame_flags compressed carries_wire_contract (pkt_nonce pkt \<noteq> 0) lst bitmap
                  (reliable \<noteq> None) compact e2e, of_nat nep];
         out = write_uleb128 (ucast (pkt_ty pkt)) out;
         out = write_uleb128 (of_nat (pkt_data_size pkt)) out;
         out = write_uleb128 (pkt_timestamp pkt) out;
         out = (if pkt_nonce pkt \<noteq> 0 then write_uleb128 (ucast (pkt_nonce pkt)) out else out);
         out = write_uleb128 (ucast source_address) out;
         out = write_endpoint_section bitmap lst (pkt_endpoints pkt) out;
         out = (if carries_wire_contract
                then write_wire_contract shape target_senders (reliable \<noteq> None)
                       (write_uleb128 (of_nat (wire_contract_size shape target_senders)) out)
                else out) in
     case reliable of Some h \<Rightarrow> write_reliable_header_encoded h compact out | None \<Rightarrow> out)"

definition with_packet_frame_parts ::
  "WireEnv \<Rightarrow> Packet \<Rightarrow> ReliableHeader option \<Rightarrow> MessageElement option \<Rightarrow> u64 list \<Rightarrow> u32 option \<Rightarrow> bool \<Rightarrow>
    AddressBook \<Rightarrow> (bytes \<times> bytes) result option \<times> AddressBook" where
  "with_packet_frame_parts env pkt reliable shape target_senders e2e compression_allowed book =
    (case source_address_for_sender (pkt_sender pkt) book of (source_address, book) \<Rightarrow>
      let (compressed, payload_wire) = payload_for_encoding env pkt compression_allowed;
          out = write_frame_header env pkt reliable shape target_senders compressed (e2e \<noteq> None) source_address in
      if length (unique_sorted_endpoints (pkt_endpoints pkt)) > 255 then (None, book)
      else case e2e of
        Some key_id \<Rightarrow>
          (Some (bind_r (write_encrypted_payload env pkt key_id payload_wire out) (\<lambda>out. Ok (out, []))), book)
      | None \<Rightarrow> (Some (Ok (out, payload_wire)), book))"

definition pack_frame ::
  "WireEnv \<Rightarrow> Packet \<Rightarrow> ReliableHeader option \<Rightarrow> MessageElement option \<Rightarrow> u64 list \<Rightarrow> u32 option \<Rightarrow> bool \<Rightarrow>
    AddressBook \<Rightarrow> bytes result option \<times> AddressBook" where
  "pack_frame env pkt reliable shape target_senders e2e compression_allowed book =
    apfst (map_option (\<lambda>r. bind_r r (\<lambda>(header, pl). Ok (join_frame_with_crc (we_crc env) header pl))))
      (with_packet_frame_parts env pkt reliable shape target_senders e2e compression_allowed book)"

definition pack_packet_inner_with_contract ::
  "WireEnv \<Rightarrow> Packet \<Rightarrow> ReliableHeader option \<Rightarrow> MessageElement option \<Rightarrow> u64 list \<Rightarrow> u32 option \<Rightarrow>
    AddressBook \<Rightarrow> bytes result option \<times> AddressBook" where
  "pack_packet_inner_with_contract env pkt reliable shape target_senders e2e book =
    pack_frame env pkt reliable shape target_senders e2e True book"

definition pack_routed_packet ::
  "WireEnv \<Rightarrow> Packet \<Rightarrow> ReliableHeader option \<Rightarrow> MessageElement option \<Rightarrow> u64 list \<Rightarrow> u32 option \<Rightarrow>
    AddressBook \<Rightarrow> bytes result option \<times> AddressBook" where
  "pack_routed_packet env pkt reliable shape target_senders e2e book =
    pack_frame env pkt reliable shape target_senders e2e False book"

text \<open>\<^verbatim>\<open>expect\<close>: an error is a panic.\<close>

definition pack_packet_inner ::
  "WireEnv \<Rightarrow> Packet \<Rightarrow> ReliableHeader option \<Rightarrow> AddressBook \<Rightarrow> bytes option \<times> AddressBook" where
  "pack_packet_inner env pkt reliable book =
    apfst (\<lambda>r. case r of Some (Inr frame) \<Rightarrow> Some frame | _ \<Rightarrow> None)
      (pack_packet_inner_with_contract env pkt reliable (pkt_wire_shape pkt) (wire_target_senders pkt) None book)"

definition unsequenced_header :: ReliableHeader where
  "unsequenced_header = \<lparr>rh_flags = RELIABLE_FLAG_UNSEQUENCED, rh_seq = 0, rh_ack = 0\<rparr>"

definition pack_packet_with_reliable ::
  "WireEnv \<Rightarrow> Packet \<Rightarrow> ReliableHeader \<Rightarrow> AddressBook \<Rightarrow> bytes option \<times> AddressBook" where
  "pack_packet_with_reliable env pkt header book = pack_packet_inner env pkt (Some header) book"

definition pack_packet :: "WireEnv \<Rightarrow> Packet \<Rightarrow> AddressBook \<Rightarrow> bytes option \<times> AddressBook" where
  "pack_packet env pkt book =
    (if is_reliable_type (env_registry (we_packet env)) (pkt_ty pkt)
     then pack_packet_with_reliable env pkt unsequenced_header book
     else pack_packet_inner env pkt None book)"

definition pack_reliable_ack ::
  "WireEnv \<Rightarrow> string \<Rightarrow> DataType \<Rightarrow> u64 \<Rightarrow> u32 \<Rightarrow> AddressBook \<Rightarrow> bytes \<times> AddressBook" where
  "pack_reliable_ack env sender ty timestamp_ms ack book =
    (case source_address_for_sender sender book of (source_address, book) \<Rightarrow>
      let reliable = \<lparr>rh_flags = RELIABLE_FLAG_ACK_ONLY, rh_seq = 0, rh_ack = ack\<rparr>;
          compact = should_compact_reliable_header reliable;
          flags = FLAG_ENDPOINT_LIST_PRESENT OR FLAG_RELIABLE_HEADER_PRESENT;
          out = [if compact then flags OR FLAG_COMPACT_RELIABLE_HEADER else flags, 0];
          out = write_uleb128 (ucast ty) out;
          out = write_uleb128 0 out;
          out = write_uleb128 timestamp_ms out;
          out = write_uleb128 (ucast source_address) out;
          out = write_reliable_header_encoded reliable compact out in
      (append_crc32 (we_crc env) out, book))"

section \<open>Sizes\<close>

definition header_size_bytes :: "Packet \<Rightarrow> nat" where
  "header_size_bytes pkt =
    2 + uleb128_size (ucast (pkt_ty pkt)) + uleb128_size (of_nat (pkt_data_size pkt)) +
    uleb128_size (pkt_timestamp pkt) + (if pkt_nonce pkt \<noteq> 0 then uleb128_size (ucast (pkt_nonce pkt)) else 0) +
    uleb128_size (ucast (sender_address_u32 (pkt_sender pkt)))"

definition packet_wire_size :: "WireEnv \<Rightarrow> Packet \<Rightarrow> nat" where
  "packet_wire_size env pkt =
    (let shape = pkt_wire_shape pkt;
         targets = wire_target_senders pkt;
         contract_bytes = wire_contract_size shape targets;
         contract_len = (if shape \<noteq> None \<or> targets \<noteq> []
                         then uleb128_size (of_nat contract_bytes) + contract_bytes else 0);
         endpoint_len = (if packet_endpoint_bitmap_present env pkt shape targets
                         then if explicit_endpoint_list (pkt_endpoints pkt)
                              then endpoint_list_size (pkt_endpoints pkt) else EP_BITMAP_BYTES
                         else 0);
         payload_wire = snd (payload_for_wire env pkt);
         reliable_len = (if is_reliable_type (env_registry (we_packet env)) (pkt_ty pkt)
                         then reliable_wire_size unsequenced_header (should_compact_reliable_header unsequenced_header)
                         else 0) in
     header_size_bytes pkt + endpoint_len + contract_len + reliable_len + length payload_wire + 4)"

section \<open>Unpacking\<close>

record FrameHeader =
  fh_flags :: u8
  fh_nep :: nat
  fh_ty :: u64
  fh_dsz :: nat
  fh_ts :: u64
  fh_nonce :: u16
  fh_source :: u32

definition read_frame_header :: "FrameHeader reader" where
  "read_frame_header =
    seq_rd read_byte (\<lambda>flags.
    seq_rd read_byte (\<lambda>nep.
    seq_rd read_uleb128 (\<lambda>ty_v.
    seq_rd read_uleb128 (\<lambda>dsz.
    seq_rd read_uleb128 (\<lambda>ts_v.
    seq_rd (if flags AND FLAG_PACKET_NONCE \<noteq> 0 then read_uleb_narrow ''packet nonce too large'' else give 0) (\<lambda>nonce.
    seq_rd (read_uleb_narrow ''source address too large'') (\<lambda>source.
      give \<lparr>fh_flags = flags, fh_nep = unat nep, fh_ty = ty_v, fh_dsz = unat dsz, fh_ts = ts_v,
            fh_nonce = nonce, fh_source = source\<rparr>)))))))"

definition data_type_id_from_wire :: "u64 \<Rightarrow> u32 result" where
  "data_type_id_from_wire ty_v = (if unat ty_v < 2 ^ 32 then Ok (ucast ty_v) else Err (Unpack ''type too large''))"

definition try_from_u32 :: "PacketEnv \<Rightarrow> u32 \<Rightarrow> DataType option" where
  "try_from_u32 env x = (if data_type_exists (env_registry env) x then Some x else None)"

record ParsedFrame =
  pf_header :: FrameHeader
  pf_ty :: DataType
  pf_eps :: "DataEndpoint list"
  pf_contract :: WireContract
  pf_reliable :: "ReliableHeader option"

text \<open>The optional reliable header; a control frame is not a packet.\<close>

definition read_packet_reliable :: "bool \<Rightarrow> bool \<Rightarrow> ReliableHeader option reader" where
  "read_packet_reliable present compact =
    (if present then
       seq_rd (read_reliable_header_encoded compact) (\<lambda>hdr.
         if rh_flags hdr AND RELIABLE_FLAG_ACK_ONLY \<noteq> 0 then fail_rd (Unpack ''reliable control frame'')
         else give (Some hdr))
     else give None)"

text \<open>Endpoints, contract and reliable header.\<close>

definition parse_sections :: "PacketEnv \<Rightarrow> FrameHeader \<Rightarrow> u32 \<Rightarrow> ParsedFrame reader" where
  "parse_sections env h ty_u32 =
    (let flags = fh_flags h; known_ty = try_from_u32 env ty_u32 in
     seq_rd (endpoints_from_wire_or_schema env (flags AND FLAG_ENDPOINT_BITMAP_PRESENT \<noteq> 0)
       (flags AND FLAG_ENDPOINT_LIST_PRESENT \<noteq> 0) known_ty (fh_nep h)) (\<lambda>eps.
     seq_rd (decode_wire_contract (flags AND FLAG_WIRE_CONTRACT \<noteq> 0)) (\<lambda>contract.
       case (case known_ty of Some t \<Rightarrow> Some t | None \<Rightarrow> map_option (\<lambda>_. ty_u32) (wc_shape contract)) of
         None \<Rightarrow> fail_rd InvalidType
       | Some ty \<Rightarrow>
           seq_rd (read_packet_reliable (flags AND FLAG_RELIABLE_HEADER_PRESENT \<noteq> 0 \<or> wc_has_reliable_header contract)
             (flags AND FLAG_COMPACT_RELIABLE_HEADER \<noteq> 0)) (\<lambda>rel.
             give \<lparr>pf_header = h, pf_ty = ty, pf_eps = eps, pf_contract = contract, pf_reliable = rel\<rparr>))))"

text \<open>Everything before the payload.  The sum in the length check wraps in a release build.\<close>

definition parse_frame :: "PacketEnv \<Rightarrow> ParsedFrame reader" where
  "parse_frame env =
    seq_rd read_frame_header (\<lambda>h r.
      bind_r (data_type_id_from_wire (fh_ty h)) (\<lambda>ty_u32.
        let compressed = (fh_flags h AND FLAG_COMPRESSED_PAYLOAD \<noteq> 0);
            endpoint_bytes = (if fh_flags h AND FLAG_ENDPOINT_BITMAP_PRESENT \<noteq> 0 then EP_BITMAP_BYTES else 0) in
        if \<not> compressed \<and> remaining r < wrapping_add endpoint_bytes (fh_dsz h) \<or>
           compressed \<and> remaining r < endpoint_bytes + 1
        then Err (Unpack ''short buffer'')
        else parse_sections env h ty_u32 r))"

definition contract_owners :: "WireContract \<Rightarrow> nat" where
  "contract_owners c = (case wc_target_senders c of Some ts \<Rightarrow> length ts | None \<Rightarrow> 0)"

text \<open>The admission check before the payload is allocated.\<close>

definition admit_payload ::
  "PacketEnv \<Rightarrow> bool \<Rightarrow> nat \<Rightarrow> ParsedFrame \<Rightarrow> nat \<Rightarrow> Admission \<Rightarrow> unit result \<times> Admission" where
  "admit_payload env managed buf_len pf left adm =
    (let flags = fh_flags (pf_header pf); dsz = fh_dsz (pf_header pf); ty = pf_ty pf;
         owners = contract_owners (pf_contract pf); shape = wc_shape (pf_contract pf);
         payload_copies = (if flags AND FLAG_COMPRESSED_PAYLOAD \<noteq> 0 then 3 else 1) +
           (if flags AND FLAG_E2E_ENCRYPTED_PAYLOAD \<noteq> 0 then 1 else 0);
         small_ack = (ty \<in> set [DT_ReliableAck, DT_ReliablePartialAck] \<and> dsz \<le> 32 \<and> payload_copies = 1) in
     if supports_work_kinds adm \<and> \<not> small_ack \<and> buf_len \<le> 128 \<and> flags AND 0x11 = 0 \<and>
        (protected_discovery_request_shape env ty (dsz = 0 \<and> left = 0) (pf_eps pf = [EP_Discovery]) owners shape \<or>
         protected_control_shape env ty (fh_nep (pf_header pf)) owners shape (pf_reliable pf \<noteq> None) managed)
     then check_small_protected_decode buf_len adm
     else check (if small_ack then 512 else saturating_add (saturating_mul dsz payload_copies) 512)
            (saturating_add dsz 32) adm)"

definition read_payload_wire :: "WireEnv \<Rightarrow> bytes \<Rightarrow> u8 \<Rightarrow> nat \<Rightarrow> bytes reader" where
  "read_payload_wire env data flags dsz r =
    (if flags AND FLAG_E2E_ENCRYPTED_PAYLOAD \<noteq> 0 then read_encrypted_payload env (take (rd_off r) data) dsz r
     else if flags AND FLAG_COMPRESSED_PAYLOAD = 0 then read_bytes dsz r
     else read_bytes (remaining r) r)"

text \<open>\<^verbatim>\<open>StandardSmallPayload::new\<close>\<close>

definition small_payload_new :: "PacketEnv \<Rightarrow> bytes \<Rightarrow> SmallPayload" where
  "small_payload_new env bs = (case payload_new (env_inline env) bs of Some p \<Rightarrow> p | None \<Rightarrow> Heap bs)"

definition decode_payload ::
  "WireEnv \<Rightarrow> bytes \<Rightarrow> ParsedFrame \<Rightarrow> ByteReader \<Rightarrow> Admission \<Rightarrow> SmallPayload result \<times> Admission" where
  "decode_payload env data pf r adm =
    (let flags = fh_flags (pf_header pf); dsz = fh_dsz (pf_header pf) in
     case read_payload_wire env data flags dsz r of
       Inl e \<Rightarrow> (Err e, adm)
     | Inr (payload_wire, _) \<Rightarrow>
         if flags AND FLAG_COMPRESSED_PAYLOAD \<noteq> 0 then
           (case decompress env payload_wire dsz of
             Inl e \<Rightarrow> (Err e, adm)
           | Inr decompressed \<Rightarrow>
               (case check (saturating_add dsz 512) (saturating_add dsz 32) adm of
                 (Inl e, adm) \<Rightarrow> (Err e, adm)
               | (Inr _, adm) \<Rightarrow> (Ok (small_payload_new (we_packet env) decompressed), adm)))
         else if length payload_wire \<noteq> dsz then (Err (Unpack ''payload length mismatch''), adm)
         else (Ok (small_payload_new (we_packet env) payload_wire), adm))"

definition unpack_packet_with_role ::
  "WireEnv \<Rightarrow> AddressBook \<Rightarrow> bytes \<Rightarrow> bool \<Rightarrow> Admission \<Rightarrow> Packet result \<times> Admission" where
  "unpack_packet_with_role env book buf managed adm =
    (case verify_crc32 (we_crc env) buf of
      Inl e \<Rightarrow> (Err e, adm)
    | Inr data \<Rightarrow>
        if data = [] then (Err (Unpack ''short prelude''), adm)
        else case parse_frame (we_packet env) (reader_new data) of
          Inl e \<Rightarrow> (Err e, adm)
        | Inr (pf, r) \<Rightarrow>
            (case admit_payload (we_packet env) managed (length buf) pf (remaining r) adm of
              (Inl e, adm) \<Rightarrow> (Err e, adm)
            | (Inr _, adm) \<Rightarrow>
                (case decode_payload env data pf r adm of
                  (Inl e, adm) \<Rightarrow> (Err e, adm)
                | (Inr pl, adm) \<Rightarrow>
                    (new_with_owned_wire_contract (we_packet env) (pf_ty pf) (pf_eps pf)
                       (sender_name_for_address book (fh_source (pf_header pf)))
                       (fh_ts (pf_header pf)) (fh_nonce (pf_header pf)) pl
                       (wc_shape (pf_contract pf)) (wc_target_senders (pf_contract pf)), adm))))"

definition unpack_packet :: "WireEnv \<Rightarrow> AddressBook \<Rightarrow> bytes \<Rightarrow> Admission \<Rightarrow> Packet result \<times> Admission" where
  "unpack_packet env book buf adm = unpack_packet_with_role env book buf False adm"

section \<open>The header as a concatenation\<close>

definition nonce_bytes :: "u16 \<Rightarrow> bytes" where
  "nonce_bytes n = (if n \<noteq> 0 then uleb (ucast n) else [])"

definition prelude_bytes :: "u8 \<Rightarrow> u8 \<Rightarrow> Packet \<Rightarrow> u32 \<Rightarrow> bytes" where
  "prelude_bytes flags nep pkt source =
    [flags] @ [nep] @ uleb (ucast (pkt_ty pkt)) @ uleb (of_nat (pkt_data_size pkt)) @ uleb (pkt_timestamp pkt) @
    nonce_bytes (pkt_nonce pkt) @ uleb (ucast source)"

definition contract_section :: "MessageElement option \<Rightarrow> u64 list \<Rightarrow> bool \<Rightarrow> bytes" where
  "contract_section shape ts rel = (if shape \<noteq> None \<or> ts \<noteq> [] then contract_frame shape ts rel else [])"

definition reliable_section :: "ReliableHeader option \<Rightarrow> bytes" where
  "reliable_section reliable =
    (case reliable of Some h \<Rightarrow> reliable_bytes (should_compact_reliable_header h) h | None \<Rightarrow> [])"

definition header_flags ::
  "WireEnv \<Rightarrow> Packet \<Rightarrow> ReliableHeader option \<Rightarrow> MessageElement option \<Rightarrow> u64 list \<Rightarrow> bool \<Rightarrow> bool \<Rightarrow> u8" where
  "header_flags env pkt reliable shape ts compressed e2e =
    (let bitmap = packet_endpoint_bitmap_present env pkt shape ts in
     frame_flags compressed (shape \<noteq> None \<or> ts \<noteq> []) (pkt_nonce pkt \<noteq> 0)
       (bitmap \<and> explicit_endpoint_list (pkt_endpoints pkt)) bitmap (reliable \<noteq> None)
       (case reliable of Some h \<Rightarrow> should_compact_reliable_header h | None \<Rightarrow> False) e2e)"

lemma write_frame_header_eq:
  "write_frame_header env pkt reliable shape ts compressed e2e source =
    prelude_bytes (header_flags env pkt reliable shape ts compressed e2e)
      (of_nat (length (unique_sorted_endpoints (pkt_endpoints pkt)))) pkt source @
    endpoint_section (packet_endpoint_bitmap_present env pkt shape ts)
      (packet_endpoint_bitmap_present env pkt shape ts \<and> explicit_endpoint_list (pkt_endpoints pkt)) (pkt_endpoints pkt) @
    contract_section shape ts (reliable \<noteq> None) @ reliable_section reliable"
  by (simp add: write_frame_header_def prelude_bytes_def nonce_bytes_def contract_section_def reliable_section_def
      header_flags_def contract_frame_def write_uleb128_append write_endpoint_section_append
      write_wire_contract_append write_reliable_header_encoded_append Let_def split: option.splits)

lemma length_prelude: "length (prelude_bytes f n pkt (sender_address_u32 (pkt_sender pkt))) = header_size_bytes pkt"
  by (simp add: prelude_bytes_def header_size_bytes_def nonce_bytes_def uleb128_size_eq_length)

lemma if_and_word: "(if b then x else 0) AND y = (if b then x AND y else 0)" for x y :: "'a::len word"
  by simp

lemma frame_flags_read:
  "frame_flags c k n l b r p e AND FLAG_COMPRESSED_PAYLOAD \<noteq> 0 \<longleftrightarrow> c"
  "frame_flags c k n l b r p e AND FLAG_WIRE_CONTRACT \<noteq> 0 \<longleftrightarrow> k"
  "frame_flags c k n l b r p e AND FLAG_PACKET_NONCE \<noteq> 0 \<longleftrightarrow> n"
  "frame_flags c k n l b r p e AND FLAG_ENDPOINT_LIST_PRESENT \<noteq> 0 \<longleftrightarrow> l"
  "frame_flags c k n l b r p e AND FLAG_ENDPOINT_BITMAP_PRESENT \<noteq> 0 \<longleftrightarrow> b \<and> \<not> l"
  "frame_flags c k n l b r p e AND FLAG_RELIABLE_HEADER_PRESENT \<noteq> 0 \<longleftrightarrow> r"
  "frame_flags c k n l b r p e AND FLAG_COMPACT_RELIABLE_HEADER \<noteq> 0 \<longleftrightarrow> p"
  "frame_flags c k n l b r p e AND FLAG_E2E_ENCRYPTED_PAYLOAD \<noteq> 0 \<longleftrightarrow> e"
  by (simp_all add: frame_flags_def and_or_distrib if_and_word)

definition header_value :: "u8 \<Rightarrow> Packet \<Rightarrow> u32 \<Rightarrow> FrameHeader" where
  "header_value flags pkt source =
    \<lparr>fh_flags = flags, fh_nep = length (unique_sorted_endpoints (pkt_endpoints pkt)), fh_ty = ucast (pkt_ty pkt),
     fh_dsz = pkt_data_size pkt, fh_ts = pkt_timestamp pkt, fh_nonce = pkt_nonce pkt, fh_source = source\<rparr>"

lemma unat_of_nat_small: "n < 2 ^ LENGTH('a) \<Longrightarrow> unat (of_nat n :: 'a::len word) = n"
  by (simp add: unsigned_of_nat take_bit_nat_eq_self)

lemma decodes_nonce:
  assumes "flags AND FLAG_PACKET_NONCE \<noteq> 0 \<longleftrightarrow> n \<noteq> 0"
  shows "decodes (if flags AND FLAG_PACKET_NONCE \<noteq> 0 then read_uleb_narrow ''packet nonce too large'' else give 0)
    (nonce_bytes n) n"
proof (cases "n = 0")
  case True
  then have "\<not> flags AND FLAG_PACKET_NONCE \<noteq> 0" using assms by simp
  then show ?thesis by (simp only: if_False True nonce_bytes_def) (simp add: decodes_give)
next
  case False
  then have "flags AND FLAG_PACKET_NONCE \<noteq> 0" using assms by simp
  then show ?thesis using False by (simp only: if_True nonce_bytes_def) (simp add: decodes_narrow)
qed

lemma decodes_frame_header:
  assumes "flags AND FLAG_PACKET_NONCE \<noteq> 0 \<longleftrightarrow> pkt_nonce pkt \<noteq> 0" "pkt_data_size pkt < 2 ^ 64"
    "length (unique_sorted_endpoints (pkt_endpoints pkt)) \<le> 255"
  shows "decodes read_frame_header
    (prelude_bytes flags (of_nat (length (unique_sorted_endpoints (pkt_endpoints pkt)))) pkt source)
    (header_value flags pkt source)"
proof -
  let ?nep = "of_nat (length (unique_sorted_endpoints (pkt_endpoints pkt))) :: u8"
  have n: "unat ?nep = length (unique_sorted_endpoints (pkt_endpoints pkt))"
    using assms(3) by (intro unat_of_nat_small) simp
  have d: "unat (of_nat (pkt_data_size pkt) :: u64) = pkt_data_size pkt"
    using assms(2) by (intro unat_of_nat_small) simp
  have v: "decodes (give \<lparr>fh_flags = flags, fh_nep = unat ?nep, fh_ty = ucast (pkt_ty pkt),
      fh_dsz = unat (of_nat (pkt_data_size pkt) :: u64), fh_ts = pkt_timestamp pkt, fh_nonce = pkt_nonce pkt,
      fh_source = source\<rparr>) [] (header_value flags pkt source)"
    by (simp only: n d header_value_def decodes_give)
  have src: "decodes (read_uleb_narrow ''source address too large'') (uleb (ucast source)) source"
    by (rule decodes_narrow) simp
  show ?thesis
    unfolding read_frame_header_def prelude_bytes_def
    by (rule decodes_seq [OF decodes_read_byte], rule decodes_seq [OF decodes_read_byte],
        rule decodes_seq [OF decodes_uleb], rule decodes_seq [OF decodes_uleb], rule decodes_seq [OF decodes_uleb],
        rule decodes_seq [OF decodes_nonce [OF assms(1)]], rule decodes_seq_last [OF src], rule v)
qed

lemma decodes_contract_section:
  assumes "contract_fits shape ts" "has \<longleftrightarrow> shape \<noteq> None \<or> ts \<noteq> []"
  shows "decodes (decode_wire_contract has) (contract_section shape ts rel)
    (contract_value shape ts (rel \<and> has))"
proof (cases has)
  case True
  then show ?thesis using assms decodes_contract [OF assms(1), of rel] by (auto simp: contract_section_def)
next
  case False
  then have "shape = None" "ts = []" using assms(2) by auto
  then show ?thesis using False decodes_no_contract by (simp add: contract_section_def)
qed

text \<open>What the receiver needs: it resolves the endpoint section, and it knows the type or the
  frame carries the payload shape.\<close>

definition receiver_resolves ::
  "WireEnv \<Rightarrow> PacketEnv \<Rightarrow> Packet \<Rightarrow> MessageElement option \<Rightarrow> u64 list \<Rightarrow> bool" where
  "receiver_resolves env renv pkt shape ts \<longleftrightarrow>
    (let bm = packet_endpoint_bitmap_present env pkt shape ts;
         lst = (bm \<and> explicit_endpoint_list (pkt_endpoints pkt)) in
     section_resolves renv (bm \<and> \<not> lst) lst (try_from_u32 renv (pkt_ty pkt)) (pkt_endpoints pkt) \<and>
     (data_type_exists (env_registry renv) (pkt_ty pkt) \<or> shape \<noteq> None))"

definition parsed_value ::
  "WireEnv \<Rightarrow> Packet \<Rightarrow> ReliableHeader option \<Rightarrow> MessageElement option \<Rightarrow> u64 list \<Rightarrow> bool \<Rightarrow> bool \<Rightarrow> u32 \<Rightarrow> ParsedFrame" where
  "parsed_value env pkt reliable shape ts compressed e2e source =
    \<lparr>pf_header = header_value (header_flags env pkt reliable shape ts compressed e2e) pkt source,
     pf_ty = pkt_ty pkt, pf_eps = unique_sorted_endpoints (pkt_endpoints pkt),
     pf_contract = contract_value shape ts (reliable \<noteq> None \<and> (shape \<noteq> None \<or> ts \<noteq> [])),
     pf_reliable = map_option (\<lambda>h. read_back (should_compact_reliable_header h) h) reliable\<rparr>"

lemma ack_only_read_back: "rh_flags (read_back c h) AND RELIABLE_FLAG_ACK_ONLY = rh_flags h AND RELIABLE_FLAG_ACK_ONLY"
  by (simp add: read_back_def public_header_def RELIABLE_PUBLIC_FLAGS_MASK_def and.assoc)

lemma length_bitmap_section: "length (endpoint_section True False eps) = EP_BITMAP_BYTES"
  by (simp add: endpoint_section_def)

lemma decodes_packet_reliable:
  assumes "case reliable of Some h \<Rightarrow> rh_flags h AND RELIABLE_FLAG_ACK_ONLY = 0 | None \<Rightarrow> True"
  shows "decodes (read_packet_reliable (reliable \<noteq> None)
      (case reliable of Some h \<Rightarrow> should_compact_reliable_header h | None \<Rightarrow> False))
    (reliable_section reliable) (map_option (\<lambda>h. read_back (should_compact_reliable_header h) h) reliable)"
proof (cases reliable)
  case None
  then show ?thesis by (simp add: read_packet_reliable_def reliable_section_def decodes_give)
next
  case (Some h)
  let ?c = "should_compact_reliable_header h"
  have "decodes (if rh_flags (read_back ?c h) AND RELIABLE_FLAG_ACK_ONLY \<noteq> 0
      then fail_rd (Unpack ''reliable control frame'') else give (Some (read_back ?c h))) [] (Some (read_back ?c h))"
    using assms by (simp only: ack_only_read_back) (simp add: Some decodes_give)
  from decodes_seq_last [OF decodes_reliable, where f = "\<lambda>hdr. if rh_flags hdr AND RELIABLE_FLAG_ACK_ONLY \<noteq> 0
      then fail_rd (Unpack ''reliable control frame'') else give (Some hdr)", OF this]
  show ?thesis by (simp add: read_packet_reliable_def reliable_section_def Some)
qed

lemma decodes_sections:
  assumes "receiver_resolves env renv pkt shape ts" "contract_fits shape ts"
    "case reliable of Some h \<Rightarrow> rh_flags h AND RELIABLE_FLAG_ACK_ONLY = 0 | None \<Rightarrow> True"
    "bm = packet_endpoint_bitmap_present env pkt shape ts"
    "lst = (bm \<and> explicit_endpoint_list (pkt_endpoints pkt))"
  shows "decodes (parse_sections renv
      (header_value (header_flags env pkt reliable shape ts compressed e2e) pkt source) (pkt_ty pkt))
    (endpoint_section (bm \<and> \<not> lst) lst (pkt_endpoints pkt) @ contract_section shape ts (reliable \<noteq> None) @
      reliable_section reliable)
    (parsed_value env pkt reliable shape ts compressed e2e source)"
proof -
  define carries where "carries = (shape \<noteq> None \<or> ts \<noteq> [])"
  define compact where "compact = (case reliable of Some h \<Rightarrow> should_compact_reliable_header h | None \<Rightarrow> False)"
  define flags where "flags = header_flags env pkt reliable shape ts compressed e2e"
  have "flags = frame_flags compressed carries (pkt_nonce pkt \<noteq> 0) lst bm (reliable \<noteq> None) compact e2e"
    by (simp add: flags_def header_flags_def assms(4, 5) carries_def compact_def Let_def)
  note fl = frame_flags_read [of compressed carries "pkt_nonce pkt \<noteq> 0" lst bm "reliable \<noteq> None" compact e2e,
      folded this]
  define hv where "hv = header_value flags pkt source"
  have hv: "fh_flags hv = flags" "fh_nep hv = length (unique_sorted_endpoints (pkt_endpoints pkt))"
    by (simp_all add: hv_def header_value_def)
  define cv where "cv = contract_value shape ts (reliable \<noteq> None \<and> carries)"
  have sec: "section_resolves renv (bm \<and> \<not> lst) lst (try_from_u32 renv (pkt_ty pkt)) (pkt_endpoints pkt)"
    using assms(1) by (simp add: receiver_resolves_def assms(4, 5) Let_def)
  have con: "decodes (decode_wire_contract carries) (contract_section shape ts (reliable \<noteq> None)) cv"
    using decodes_contract_section [OF assms(2) carries_def] by (simp add: cv_def)
  have tyv: "(case try_from_u32 renv (pkt_ty pkt) of Some t \<Rightarrow> Some t
      | None \<Rightarrow> map_option (\<lambda>_. pkt_ty pkt) (wc_shape cv)) = Some (pkt_ty pkt)"
    using assms(1) by (auto simp: receiver_resolves_def try_from_u32_def cv_def contract_value_def Let_def)
  have crel: "(reliable \<noteq> None \<or> wc_has_reliable_header cv) = (reliable \<noteq> None)"
    by (auto simp: cv_def contract_value_def)
  have pv: "\<lparr>pf_header = hv, pf_ty = pkt_ty pkt, pf_eps = unique_sorted_endpoints (pkt_endpoints pkt), pf_contract = cv,
       pf_reliable = map_option (\<lambda>h. read_back (should_compact_reliable_header h) h) reliable\<rparr> =
      parsed_value env pkt reliable shape ts compressed e2e source"
    by (simp add: parsed_value_def hv_def flags_def cv_def carries_def)
  note rel = decodes_packet_reliable [OF assms(3), folded compact_def]
  show ?thesis
    unfolding flags_def [symmetric] hv_def [symmetric] parse_sections_def Let_def hv fl
    by (rule decodes_seq [OF decodes_section [OF sec]], rule decodes_seq [OF con],
        unfold tyv option.case crel, rule decodes_seq_last [OF rel], unfold pv, rule decodes_give)
qed

lemma parse_frame_header:
  assumes res: "receiver_resolves env renv pkt shape ts"
    and fits: "contract_fits shape ts" "pkt_data_size pkt < 2 ^ 64"
      "length (unique_sorted_endpoints (pkt_endpoints pkt)) \<le> 255"
    and ack: "case reliable of Some h \<Rightarrow> rh_flags h AND RELIABLE_FLAG_ACK_ONLY = 0 | None \<Rightarrow> True"
    and room: "if compressed then body \<noteq> [] else pkt_data_size pkt \<le> length body"
    and hdr: "hdr = write_frame_header env pkt reliable shape ts compressed e2e source"
  shows "parse_frame renv (reader_new (hdr @ body)) =
    Ok (parsed_value env pkt reliable shape ts compressed e2e source, \<lparr>rd_buf = hdr @ body, rd_off = length hdr\<rparr>)"
proof -
  define bm where "bm = packet_endpoint_bitmap_present env pkt shape ts"
  define lst where "lst = (bm \<and> explicit_endpoint_list (pkt_endpoints pkt))"
  define flags where "flags = header_flags env pkt reliable shape ts compressed e2e"
  have fl: "flags AND FLAG_PACKET_NONCE \<noteq> 0 \<longleftrightarrow> pkt_nonce pkt \<noteq> 0" "flags AND FLAG_COMPRESSED_PAYLOAD \<noteq> 0 \<longleftrightarrow> compressed"
    "flags AND FLAG_ENDPOINT_BITMAP_PRESENT \<noteq> 0 \<longleftrightarrow> bm \<and> \<not> lst"
    unfolding flags_def header_flags_def Let_def frame_flags_read by (simp_all add: bm_def lst_def)
  define pre where "pre = prelude_bytes flags (of_nat (length (unique_sorted_endpoints (pkt_endpoints pkt)))) pkt source"
  define secs where "secs = endpoint_section (bm \<and> \<not> lst) lst (pkt_endpoints pkt) @
    contract_section shape ts (reliable \<noteq> None) @ reliable_section reliable"
  define buf where "buf = hdr @ body"
  have hdr_eq: "hdr = pre @ secs"
    unfolding hdr write_frame_header_eq
    by (simp add: pre_def secs_def flags_def bm_def lst_def endpoint_section_def)
  define hv where "hv = header_value flags pkt source"
  have hv: "fh_flags hv = flags" "fh_ty hv = ucast (pkt_ty pkt)" "fh_dsz hv = pkt_data_size pkt"
    by (simp_all add: hv_def header_value_def)
  have 1: "read_frame_header (reader_new buf) = Ok (hv, \<lparr>rd_buf = buf, rd_off = length pre\<rparr>)"
    using decodes_start [OF decodes_frame_header [OF fl(1) fits(2, 3), of source], of "secs @ body"]
    by (simp add: buf_def hdr_eq pre_def hv_def)
  have ty: "data_type_id_from_wire (fh_ty hv) = Ok (pkt_ty pkt)"
    using unsigned_less [of "pkt_ty pkt", where ?'a = nat]
    by (simp add: data_type_id_from_wire_def hv(2) unat_ucast_u64 ucast_ucast_u64)
  have room': "\<not> (\<not> compressed \<and> remaining \<lparr>rd_buf = buf, rd_off = length pre\<rparr> <
        wrapping_add (if bm \<and> \<not> lst then EP_BITMAP_BYTES else 0) (pkt_data_size pkt) \<or>
      compressed \<and> remaining \<lparr>rd_buf = buf, rd_off = length pre\<rparr> < (if bm \<and> \<not> lst then EP_BITMAP_BYTES else 0) + 1)"
  proof -
    have eb: "(if bm \<and> \<not> lst then EP_BITMAP_BYTES else 0) \<le> length secs"
      by (simp add: secs_def endpoint_section_def)
    moreover have "wrapping_add a b \<le> a + b" for a b by (simp add: wrapping_add_def)
    ultimately have "wrapping_add (if bm \<and> \<not> lst then EP_BITMAP_BYTES else 0) (pkt_data_size pkt) \<le>
        length secs + pkt_data_size pkt"
      by (meson add_le_mono1 order_trans)
    moreover have "length body \<ge> 1" if compressed using room that by (cases body) simp_all
    ultimately show ?thesis using room eb by (cases compressed) (auto simp: remaining_def buf_def hdr_eq)
  qed
  have 2: "parse_sections renv hv (pkt_ty pkt) \<lparr>rd_buf = buf, rd_off = length pre\<rparr> =
      Ok (parsed_value env pkt reliable shape ts compressed e2e source, \<lparr>rd_buf = buf, rd_off = length hdr\<rparr>)"
    using decodes_at [OF decodes_sections [OF res fits(1) ack bm_def lst_def, of compressed e2e source,
          folded flags_def hv_def secs_def], of buf pre body "length pre"]
    by (simp add: buf_def hdr_eq)
  show ?thesis
    unfolding buf_def [symmetric] parse_frame_def
    by (simp only: seq_rd_step 1 ty bind_r_simps Let_def hv(1, 3) fl room' if_False 2)
qed

section \<open>Round trip\<close>

text \<open>What the code relies on of the compressor: a frame it produced is not empty and
  decompresses to the input in a buffer of the input's length.\<close>

definition zstd_law :: "WireEnv \<Rightarrow> WireEnv \<Rightarrow> bool" where
  "zstd_law env renv \<longleftrightarrow>
    (\<forall>x n y. we_compress env x n = Some y \<longrightarrow> y \<noteq> [] \<and> we_decompress renv y (length x) = Some x)"

lemma payload_for_encoding_dichotomy:
  "payload_for_encoding env pkt allowed = (False, payload pkt) \<or>
   (\<exists>y n. payload_for_encoding env pkt allowed = (True, y) \<and> we_compress env (payload pkt) n = Some y \<and>
     length y \<le> length (payload pkt))"
  by (auto simp: payload_for_encoding_def compress_if_beneficial_def compress_to_vec_bounded_def split: option.splits)

lemma payload_for_encoding_cases:
  obtains "payload_for_encoding env pkt allowed = (False, payload pkt)"
  | y n where "payload_for_encoding env pkt allowed = (True, y)" "we_compress env (payload pkt) n = Some y"
      "length y \<le> length (payload pkt)"
  using payload_for_encoding_dichotomy [of env pkt allowed] by blast

lemma small_payload_new_simps [simp]:
  "as_slice (small_payload_new env bs) = Some bs" "payload_len (small_payload_new env bs) = length bs"
proof -
  obtain p where "payload_new (env_inline env) bs = Some p" "as_slice p = Some bs" "payload_len p = length bs"
    by (rule payload_new_total)
  then show "as_slice (small_payload_new env bs) = Some bs" "payload_len (small_payload_new env bs) = length bs"
    by (simp_all add: small_payload_new_def)
qed

lemma admit_payload_free: "\<not> has_probe adm \<Longrightarrow> admit_payload env managed n pf left adm = (Ok (), adm)"
  by (rule outcome_without_probe) (simp_all add: admit_payload_def check_outcomes Let_def)

lemma check_free: "\<not> has_probe adm \<Longrightarrow> check a l adm = (Ok (), adm)"
  by (rule outcome_without_probe) (simp_all add: check_outcomes)

text \<open>The packet as the receiver sees it.\<close>

definition received_packet ::
  "PacketEnv \<Rightarrow> AddressBook \<Rightarrow> Packet \<Rightarrow> MessageElement option \<Rightarrow> u64 list \<Rightarrow> Packet" where
  "received_packet renv book pkt shape ts =
    \<lparr>pkt_ty = pkt_ty pkt, pkt_data_size = pkt_data_size pkt,
     pkt_sender = sender_name_for_address book (sender_address_u32 (pkt_sender pkt)),
     pkt_endpoints = unique_sorted_endpoints (pkt_endpoints pkt), pkt_timestamp = pkt_timestamp pkt,
     pkt_nonce = pkt_nonce pkt, pkt_payload = small_payload_new renv (payload pkt), pkt_wire_shape = shape,
     pkt_wire_target_senders = (if ts = [] then None else Some ts)\<rparr>"

lemma header_flags_payload:
  "(header_flags env pkt reliable shape ts compressed e2e AND FLAG_COMPRESSED_PAYLOAD = 0) = (\<not> compressed)"
  "(header_flags env pkt reliable shape ts compressed e2e AND FLAG_E2E_ENCRYPTED_PAYLOAD = 0) = (\<not> e2e)"
  using frame_flags_read(1, 8) unfolding header_flags_def Let_def by blast+

lemma decode_payload_of_wire:
  assumes enc: "payload_for_encoding env pkt allowed = (compressed, pl)"
    and law: "zstd_law env renv" and size: "pkt_data_size pkt = length (payload pkt)" and free: "\<not> has_probe adm"
    and rd: "read_payload_wire renv data (header_flags env pkt reliable shape ts compressed e2e) (length (payload pkt)) r =
      Ok (pl, r')"
  shows "decode_payload renv data (parsed_value env pkt reliable shape ts compressed e2e source) r adm =
    (Ok (small_payload_new (we_packet renv) (payload pkt)), adm)"
proof -
  let ?pv = "parsed_value env pkt reliable shape ts compressed e2e source"
  have h: "fh_flags (pf_header ?pv) = header_flags env pkt reliable shape ts compressed e2e"
    "fh_dsz (pf_header ?pv) = length (payload pkt)"
    by (simp_all add: parsed_value_def header_value_def size)
  show ?thesis
  proof (cases rule: payload_for_encoding_cases [of env pkt allowed])
    case 1
    then have c: "compressed = False" "pl = payload pkt" using enc by simp_all
    then show ?thesis
      unfolding decode_payload_def h Let_def rd sum.case prod.case header_flags_payload by simp
  next
    case (2 y n)
    then have c: "compressed = True" "pl = y" using enc by simp_all
    have d: "we_decompress renv y (length (payload pkt)) = Some (payload pkt)"
      using law 2(2) by (simp add: zstd_law_def)
    show ?thesis
      unfolding decode_payload_def h Let_def rd sum.case prod.case header_flags_payload
      by (simp add: c decompress_def d check_free [OF free])
  qed
qed

text \<open>Whatever the encoding of the payload, a frame whose checked bytes are a written header and
  a readable body unpacks to the packet.\<close>

lemma unpack_frame:
  assumes res: "receiver_resolves env (we_packet renv) pkt shape ts"
    and fits: "contract_fits shape ts" "pkt_data_size pkt < 2 ^ 64"
      "length (unique_sorted_endpoints (pkt_endpoints pkt)) \<le> 255"
    and ack: "case reliable of Some h \<Rightarrow> rh_flags h AND RELIABLE_FLAG_ACK_ONLY = 0 | None \<Rightarrow> True"
    and room: "if compressed then body \<noteq> [] else pkt_data_size pkt \<le> length body"
    and hdr: "hdr = write_frame_header env pkt reliable shape ts compressed e2e (sender_address_u32 (pkt_sender pkt))"
    and enc: "payload_for_encoding env pkt allowed = (compressed, pl)"
    and law: "zstd_law env renv" and crc: "verify_crc32 (we_crc renv) frame = Ok (hdr @ body)"
    and size: "pkt_data_size pkt = length (payload pkt)" and free: "\<not> has_probe adm" and ne: "pkt_endpoints pkt \<noteq> []"
    and valid: "validate_payload_against_element (we_packet renv)
      (case shape of Some s \<Rightarrow> s | None \<Rightarrow> mm_element (message_meta (we_packet renv) (pkt_ty pkt))) (payload pkt) = Ok ()"
    and rd: "read_payload_wire renv (hdr @ body) (header_flags env pkt reliable shape ts compressed e2e)
      (length (payload pkt)) \<lparr>rd_buf = hdr @ body, rd_off = length hdr\<rparr> = Ok (pl, r')"
  shows "unpack_packet_with_role renv rbook frame managed adm =
    (Ok (received_packet (we_packet renv) rbook pkt shape ts), adm)"
proof -
  let ?source = "sender_address_u32 (pkt_sender pkt)"
  define pv where "pv = parsed_value env pkt reliable shape ts compressed e2e ?source"
  have parse: "parse_frame (we_packet renv) (reader_new (hdr @ body)) =
      Ok (pv, \<lparr>rd_buf = hdr @ body, rd_off = length hdr\<rparr>)"
    unfolding pv_def by (rule parse_frame_header [OF res fits ack room hdr])
  have nonempty: "hdr @ body \<noteq> []" by (simp add: hdr write_frame_header_eq prelude_bytes_def)
  note dec = decode_payload_of_wire [OF enc law size free rd, of ?source, folded pv_def]
  have new: "new_with_owned_wire_contract (we_packet renv) (pf_ty pv) (pf_eps pv)
      (sender_name_for_address rbook (fh_source (pf_header pv))) (fh_ts (pf_header pv)) (fh_nonce (pf_header pv))
      (small_payload_new (we_packet renv) (payload pkt)) (wc_shape (pf_contract pv)) (wc_target_senders (pf_contract pv)) =
    Ok (received_packet (we_packet renv) rbook pkt shape ts)"
    using ne valid
    by (simp add: pv_def parsed_value_def header_value_def contract_value_def new_with_owned_wire_contract_def
        received_packet_def size unique_sorted_endpoints_eq Let_def)
  show ?thesis
    by (simp only: unpack_packet_with_role_def crc sum.case nonempty if_False parse prod.case
        admit_payload_free [OF free] dec new)
qed

lemma unpack_pack_frame:
  assumes pack: "pack_frame env pkt reliable shape ts None allowed book = (Some (Ok frame), book')"
    and res: "receiver_resolves env (we_packet renv) pkt shape ts"
    and fits: "contract_fits shape ts" "pkt_data_size pkt < 2 ^ 64"
    and ack: "case reliable of Some h \<Rightarrow> rh_flags h AND RELIABLE_FLAG_ACK_ONLY = 0 | None \<Rightarrow> True"
    and law: "zstd_law env renv" "we_crc renv = we_crc env"
    and size: "pkt_data_size pkt = length (payload pkt)" and free: "\<not> has_probe adm" and ne: "pkt_endpoints pkt \<noteq> []"
    and valid: "validate_payload_against_element (we_packet renv)
      (case shape of Some s \<Rightarrow> s | None \<Rightarrow> mm_element (message_meta (we_packet renv) (pkt_ty pkt))) (payload pkt) = Ok ()"
  shows "unpack_packet_with_role renv rbook frame managed adm =
    (Ok (received_packet (we_packet renv) rbook pkt shape ts), adm)"
proof -
  obtain compressed pl where enc: "payload_for_encoding env pkt allowed = (compressed, pl)" by fastforce
  define hdr where "hdr = write_frame_header env pkt reliable shape ts compressed False (sender_address_u32 (pkt_sender pkt))"
  have nep: "length (unique_sorted_endpoints (pkt_endpoints pkt)) \<le> 255"
    and frame: "frame = join_frame_with_crc (we_crc env) hdr pl"
    using pack by (auto simp: pack_frame_def with_packet_frame_parts_def source_address_for_sender_def enc hdr_def
        Let_def split: if_splits)
  have pl: "if compressed then pl \<noteq> [] else pl = payload pkt"
    using law(1) enc
    by (cases rule: payload_for_encoding_cases [of env pkt allowed]) (auto simp: zstd_law_def)
  then have room: "if compressed then pl \<noteq> [] else pkt_data_size pkt \<le> length pl" by (simp add: size split: if_splits)
  have crc: "verify_crc32 (we_crc renv) frame = Ok (hdr @ pl)" by (simp add: frame law(2))
  have rd: "read_payload_wire renv (hdr @ pl) (header_flags env pkt reliable shape ts compressed False)
      (length (payload pkt)) \<lparr>rd_buf = hdr @ pl, rd_off = length hdr\<rparr> = Ok (pl, \<lparr>rd_buf = hdr @ pl, rd_off = length (hdr @ pl)\<rparr>)"
    unfolding read_payload_wire_def header_flags_payload using pl
    by (cases compressed) (simp_all add: read_bytes_def remaining_def)
  show ?thesis
    by (rule unpack_frame [OF res fits nep ack room hdr_def enc law(1) crc size free ne valid rd])
qed

section \<open>Encrypted frames\<close>

text \<open>What the frame format relies on of the cryptography in use: sealing keeps the length,
  leaves a tag of 1 to 32 bytes, and opening the sealed bytes with that tag restores the
  plaintext.\<close>

locale e2e_provider =
  fixes cs :: CryptoState
  assumes seal_open:
    "seal_with_registered_crypto cs key_id nonce aad p (replicate (length p) 0) (replicate 32 0) = Ok (cl, tn, ct, tg) \<Longrightarrow>
      cl = length p \<and> length (take cl ct) = cl \<and> 0 < tn \<and> tn \<le> 32 \<and> length (take tn tg) = tn \<and>
      open_with_registered_crypto cs key_id nonce aad (take cl ct) (take tn tg) (replicate (length p) 0) = Ok (length p, p)"
begin

lemma encrypted_payload_reads_back:
  assumes cs: "we_crypto env = cs" "we_crypto renv = cs"
    and w: "write_encrypted_payload env pkt key_id p out = Ok sealed"
    and size: "length p \<le> dsz" "length p < 2 ^ 64"
  obtains body where "sealed = out @ body" "length p \<le> length body" "body \<noteq> []"
    "read_encrypted_payload renv out dsz \<lparr>rd_buf = out @ body, rd_off = length out\<rparr> =
      Ok (p, \<lparr>rd_buf = out @ body, rd_off = length (out @ body)\<rparr>)"
proof -
  define nonce where "nonce = e2e_nonce_for_packet pkt"
  have ln: "length nonce = 12" by (simp add: nonce_def e2e_nonce_for_packet_def)
  from w obtain cl tn ct tg where
    s: "seal_with_registered_crypto cs key_id nonce out p (replicate (length p) 0) (replicate 32 0) = Ok (cl, tn, ct, tg)"
    and se: "sealed = write_uleb128 (of_nat tn) (write_uleb128 (of_nat (length nonce))
      (write_uleb128 (of_nat (length p)) (write_uleb128 (ucast key_id) out)) @ nonce) @ take tn tg @ take cl ct"
    by (auto simp: write_encrypted_payload_def cs bind_r_ok_iff nonce_def [symmetric] Let_def split: if_splits)
  note law = seal_open [OF s]
  define tag where "tag = take tn tg"
  define c where "c = take cl ct"
  have lt: "length tag = tn" "0 < tn" "tn \<le> 32" and lc: "length c = length p" using law by (auto simp: tag_def c_def)
  have op: "open_with_registered_crypto cs key_id nonce out c tag (replicate (length p) 0) = Ok (length p, p)"
    using law by (auto simp: tag_def c_def)
  define a1 where "a1 = out @ uleb (ucast key_id)"
  define a2 where "a2 = a1 @ uleb (of_nat (length p))"
  define a3 where "a3 = a2 @ uleb 12"
  define a4 where "a4 = a3 @ nonce"
  define a5 where "a5 = a4 @ uleb (of_nat tn)"
  define a6 where "a6 = a5 @ tag"
  define buf where "buf = a6 @ c"
  note a_defs = a1_def a2_def a3_def a4_def a5_def a6_def
  have sealed: "sealed = buf"
    by (simp add: se buf_def a_defs tag_def c_def ln write_uleb128_append)
  have 1: "read_uleb_narrow ''e2e key id too large'' \<lparr>rd_buf = buf, rd_off = length out\<rparr> =
      Ok (key_id, \<lparr>rd_buf = buf, rd_off = length a1\<rparr>)"
    using decodes_at [OF decodes_narrow [of _ key_id], of buf out "uleb (of_nat (length p)) @ uleb 12 @ nonce @
      uleb (of_nat tn) @ tag @ c" "length out"] by (simp add: buf_def a_defs)
  have 2: "read_uleb128 \<lparr>rd_buf = buf, rd_off = length a1\<rparr> = Ok (of_nat (length p), \<lparr>rd_buf = buf, rd_off = length a2\<rparr>)"
    using decodes_at [OF decodes_uleb [of "of_nat (length p)"], of buf a1 "uleb 12 @ nonce @ uleb (of_nat tn) @ tag @ c"
      "length a1"] by (simp add: buf_def a_defs)
  have 3: "read_uleb128 \<lparr>rd_buf = buf, rd_off = length a2\<rparr> = Ok (12, \<lparr>rd_buf = buf, rd_off = length a3\<rparr>)"
    using decodes_at [OF decodes_uleb [of 12], of buf a2 "nonce @ uleb (of_nat tn) @ tag @ c" "length a2"]
    by (simp add: buf_def a_defs)
  have 4: "read_bytes 12 \<lparr>rd_buf = buf, rd_off = length a3\<rparr> = Ok (nonce, \<lparr>rd_buf = buf, rd_off = length a4\<rparr>)"
    using decodes_at [OF decodes_read_bytes [OF ln [symmetric]], of buf a3 "uleb (of_nat tn) @ tag @ c" "length a3"]
    by (simp add: buf_def a4_def a5_def a6_def)
  have 5: "read_uleb128 \<lparr>rd_buf = buf, rd_off = length a4\<rparr> = Ok (of_nat tn, \<lparr>rd_buf = buf, rd_off = length a5\<rparr>)"
    using decodes_at [OF decodes_uleb [of "of_nat tn"], of buf a4 "tag @ c" "length a4"]
    by (simp add: buf_def a5_def a6_def)
  have 6: "read_bytes tn \<lparr>rd_buf = buf, rd_off = length a5\<rparr> = Ok (tag, \<lparr>rd_buf = buf, rd_off = length a6\<rparr>)"
    using decodes_at [OF decodes_read_bytes [OF lt(1) [symmetric]], of buf a5 c "length a5"]
    by (simp add: buf_def a6_def)
  have 7: "read_bytes (remaining \<lparr>rd_buf = buf, rd_off = length a6\<rparr>) \<lparr>rd_buf = buf, rd_off = length a6\<rparr> =
      Ok (c, \<lparr>rd_buf = buf, rd_off = length buf\<rparr>)"
    by (simp add: read_bytes_def remaining_def buf_def)
  have u: "unat (of_nat (length p) :: u64) = length p" "unat (of_nat tn :: u64) = tn" "unat (12 :: u64) = 12"
    using size(2) lt by (simp_all add: unat_of_nat_small)
  have g: "\<not> length p > dsz" "\<not> ((12 :: u64) = 0 \<or> (12 :: nat) > 64)" "\<not> (of_nat tn = (0 :: u64) \<or> tn > 32)"
    using size(1) lt u(2) by auto
  have rd: "read_encrypted_payload renv out dsz \<lparr>rd_buf = buf, rd_off = length out\<rparr> =
      Ok (p, \<lparr>rd_buf = buf, rd_off = length buf\<rparr>)"
    unfolding read_encrypted_payload_def
    by (simp only: seq_rd_step 1 2 3 4 5 6 7 u g if_False cs op bind_r_simps prod.case) simp
  define body where "body = drop (length out) buf"
  have body: "buf = out @ body" by (simp add: body_def buf_def a_defs)
  show thesis
    by (rule that [of body])
      (use rd lc in \<open>simp_all add: sealed body [symmetric]\<close>, simp_all add: body_def buf_def a_defs)
qed

lemma unpack_pack_encrypted_frame:
  assumes pack: "pack_frame env pkt reliable shape ts (Some key_id) allowed book = (Some (Ok frame), book')"
    and cs: "we_crypto env = cs" "we_crypto renv = cs"
    and res: "receiver_resolves env (we_packet renv) pkt shape ts"
    and fits: "contract_fits shape ts" "pkt_data_size pkt < 2 ^ 64"
    and ack: "case reliable of Some h \<Rightarrow> rh_flags h AND RELIABLE_FLAG_ACK_ONLY = 0 | None \<Rightarrow> True"
    and law: "zstd_law env renv" "we_crc renv = we_crc env"
    and size: "pkt_data_size pkt = length (payload pkt)" and free: "\<not> has_probe adm" and ne: "pkt_endpoints pkt \<noteq> []"
    and valid: "validate_payload_against_element (we_packet renv)
      (case shape of Some s \<Rightarrow> s | None \<Rightarrow> mm_element (message_meta (we_packet renv) (pkt_ty pkt))) (payload pkt) = Ok ()"
  shows "unpack_packet_with_role renv rbook frame managed adm =
    (Ok (received_packet (we_packet renv) rbook pkt shape ts), adm)"
proof -
  obtain compressed pl where enc: "payload_for_encoding env pkt allowed = (compressed, pl)" by fastforce
  define hdr where "hdr = write_frame_header env pkt reliable shape ts compressed True (sender_address_u32 (pkt_sender pkt))"
  obtain sealed where nep: "length (unique_sorted_endpoints (pkt_endpoints pkt)) \<le> 255"
    and w: "write_encrypted_payload env pkt key_id pl hdr = Ok sealed"
    and frame: "frame = join_frame_with_crc (we_crc env) sealed []"
    using pack by (auto simp: pack_frame_def with_packet_frame_parts_def source_address_for_sender_def enc hdr_def
        Let_def bind_r_ok_iff split: if_splits)
  have pl: "if compressed then length pl \<le> length (payload pkt) else pl = payload pkt"
    using enc by (cases rule: payload_for_encoding_cases [of env pkt allowed]) auto
  then have len: "length pl \<le> length (payload pkt)" "length pl < 2 ^ 64"
    using fits(2) size by (auto split: if_splits)
  obtain body where b: "sealed = hdr @ body" "length pl \<le> length body" "body \<noteq> []"
    and rd: "read_encrypted_payload renv hdr (length (payload pkt)) \<lparr>rd_buf = hdr @ body, rd_off = length hdr\<rparr> =
      Ok (pl, \<lparr>rd_buf = hdr @ body, rd_off = length (hdr @ body)\<rparr>)"
    by (rule encrypted_payload_reads_back [OF cs w len])
  have room: "if compressed then body \<noteq> [] else pkt_data_size pkt \<le> length body"
    using pl b size by (simp split: if_splits)
  have crc: "verify_crc32 (we_crc renv) frame = Ok (hdr @ body)"
    by (simp add: frame law(2) b(1) verify_crc32_frame)
  have rdw: "read_payload_wire renv (hdr @ body) (header_flags env pkt reliable shape ts compressed True)
      (length (payload pkt)) \<lparr>rd_buf = hdr @ body, rd_off = length hdr\<rparr> =
      Ok (pl, \<lparr>rd_buf = hdr @ body, rd_off = length (hdr @ body)\<rparr>)"
    unfolding read_payload_wire_def header_flags_payload using rd by simp
  show ?thesis
    by (rule unpack_frame [OF res fits nep ack room hdr_def enc law(1) crc size free ne valid rdw])
qed

end

text \<open>The software fallback keeps the contract.\<close>

interpretation software: e2e_provider "\<lparr>C_SHIM = \<lparr>cp_seal = None, cp_open = None\<rparr>, RUST_SHIM = None, SOFTWARE_KEYS = ring\<rparr>"
  for ring
proof unfold_locales
  fix key_id nonce aad p cl tn ct tg
  let ?cs = "\<lparr>C_SHIM = \<lparr>cp_seal = None, cp_open = None\<rparr>, RUST_SHIM = None, SOFTWARE_KEYS = ring\<rparr>"
  assume "seal_with_registered_crypto ?cs key_id nonce aad p (replicate (length p) 0) (replicate 32 0) = Ok (cl, tn, ct, tg)"
  then have s: "seal_with_software_key ring key_id nonce aad p (replicate (length p) 0) (replicate 32 0) = Ok (cl, tn, ct, tg)"
    by (simp add: seal_with_registered_crypto_def c_cryptography_provider_registered_def)
  note law = software_seal_open [OF s]
  then show "cl = length p \<and> length (take cl ct) = cl \<and> 0 < tn \<and> tn \<le> 32 \<and> length (take tn tg) = tn \<and>
      open_with_registered_crypto ?cs key_id nonce aad (take cl ct) (take tn tg) (replicate (length p) 0) = Ok (length p, p)"
    by (auto simp: open_with_registered_crypto_def c_cryptography_provider_registered_def)
qed

section \<open>Identity and size of a frame\<close>

lemma received_packet_fields:
  "payload (received_packet renv book pkt shape ts) = payload pkt"
  "pkt_endpoints (received_packet renv book pkt shape ts) = sorted_list_of_set (set (pkt_endpoints pkt))"
  "wire_target_senders (received_packet renv book pkt shape ts) = ts"
  "pkt_ty (received_packet renv book pkt shape ts) = pkt_ty pkt"
  "pkt_data_size (received_packet renv book pkt shape ts) = pkt_data_size pkt"
  "pkt_timestamp (received_packet renv book pkt shape ts) = pkt_timestamp pkt"
  "pkt_nonce (received_packet renv book pkt shape ts) = pkt_nonce pkt"
  "pkt_wire_shape (received_packet renv book pkt shape ts) = shape"
  by (simp_all add: received_packet_def payload_def wire_target_senders_def unique_sorted_endpoints_eq)

lemma packet_id_received:
  assumes "book_ok book"
  shows "sender_address_u32 (pkt_sender (received_packet renv book pkt shape ts)) = sender_address_u32 (pkt_sender pkt)"
    and "packet_id (received_packet renv book pkt shape ts) = packet_id pkt"
proof -
  show s: "sender_address_u32 (pkt_sender (received_packet renv book pkt shape ts)) = sender_address_u32 (pkt_sender pkt)"
    using assms by (simp add: received_packet_def sender_address_name)
  show "packet_id (received_packet renv book pkt shape ts) = packet_id pkt"
    unfolding packet_id_def packet_id_header_eq s received_packet_fields(1)
    by (simp add: received_packet_def unique_sorted_endpoints_eq)
qed

lemma pack_packet_frame:
  "pack_packet env pkt book =
    apfst (\<lambda>r. case r of Some (Inr frame) \<Rightarrow> Some frame | _ \<Rightarrow> None)
      (pack_frame env pkt (if is_reliable_type (env_registry (we_packet env)) (pkt_ty pkt)
         then Some unsequenced_header else None) (pkt_wire_shape pkt) (wire_target_senders pkt) None True book)"
  by (simp add: pack_packet_def pack_packet_with_reliable_def pack_packet_inner_def pack_packet_inner_with_contract_def)

lemma pack_packet_bytes:
  assumes "payload_for_encoding env pkt True = (compressed, pl)"
  shows "fst (pack_packet env pkt book) =
    (if card (set (pkt_endpoints pkt)) > 255 then None
     else Some (join_frame_with_crc (we_crc env) (write_frame_header env pkt
       (if is_reliable_type (env_registry (we_packet env)) (pkt_ty pkt) then Some unsequenced_header else None)
       (pkt_wire_shape pkt) (wire_target_senders pkt) compressed False (sender_address_u32 (pkt_sender pkt))) pl))"
  by (simp add: pack_packet_frame pack_frame_def with_packet_frame_parts_def source_address_for_sender_def assms
      unique_sorted_endpoints_eq Let_def)

lemma length_sections:
  "length (endpoint_section bm lst eps) = (if lst then endpoint_list_size eps else if bm then EP_BITMAP_BYTES else 0)"
  "length (contract_section shape ts rel) =
    (if shape \<noteq> None \<or> ts \<noteq> [] then uleb128_size (of_nat (wire_contract_size shape ts)) + wire_contract_size shape ts else 0)"
  "length (reliable_section reliable) =
    (case reliable of Some h \<Rightarrow> reliable_wire_size h (should_compact_reliable_header h) | None \<Rightarrow> 0)"
  by (simp_all add: endpoint_section_def length_list_bytes contract_section_def contract_frame_def
      uleb128_size_eq_length wire_contract_size_eq [of shape ts rel] reliable_section_def length_reliable_bytes
      split: option.splits)

lemma length_join_frame: "length (join_frame_with_crc crc h p) = length h + length p + 4"
  by (simp add: join_frame_with_crc_def)

lemma uleb128_size_le: "uleb128_size v \<le> 10"
  using read_u64_loop_uleb [of v 0 "uleb v" "[]" "[]" 0] read_u64_loop_offset [of 0 10 "uleb v" 0 0]
    unsigned_less [of v, where ?'a = nat]
  by (simp add: uleb128_size_eq_length)

lemma header_size_le: "header_size_bytes pkt \<le> 52"
  using uleb128_size_le [of "ucast (pkt_ty pkt)"] uleb128_size_le [of "of_nat (pkt_data_size pkt)"]
    uleb128_size_le [of "pkt_timestamp pkt"] uleb128_size_le [of "ucast (pkt_nonce pkt)"]
    uleb128_size_le [of "ucast (sender_address_u32 (pkt_sender pkt))"]
  by (simp add: header_size_bytes_def)

lemma packed_length:
  "case fst (pack_packet env pkt book) of
     Some frame \<Rightarrow> length frame = packet_wire_size env pkt
   | None \<Rightarrow> card (set (pkt_endpoints pkt)) > 255"
proof -
  obtain compressed pl where enc: "payload_for_encoding env pkt True = (compressed, pl)" by fastforce
  let ?rel = "if is_reliable_type (env_registry (we_packet env)) (pkt_ty pkt) then Some unsequenced_header else None"
  let ?hdr = "write_frame_header env pkt ?rel (pkt_wire_shape pkt) (wire_target_senders pkt) compressed False
    (sender_address_u32 (pkt_sender pkt))"
  have "length ?hdr + length pl + 4 = packet_wire_size env pkt"
    unfolding write_frame_header_eq packet_wire_size_def payload_for_wire_def enc Let_def length_append length_prelude
      length_sections by simp
  then show ?thesis using pack_packet_bytes [OF enc, of book] by (simp add: length_join_frame)
qed

section \<open>Properties\<close>

text \<open>C1: packing a packet and unpacking the frame gives the packet back, at a receiver with
  its own schema and address book: type, payload, timestamp, nonce, contract and the
  sender's address are kept, the endpoints come back as their ascending set, and the
  received packet has the packet ID of the one sent.  The receiver must know the type or get
  its shape from the frame, resolve the endpoint section, and accept the payload.\<close>

theorem unpack_pack_roundtrip:
  assumes "fst (pack_packet env pkt book) = Some frame"
    and "receiver_resolves env (we_packet renv) pkt (pkt_wire_shape pkt) (wire_target_senders pkt)"
    and "contract_fits (pkt_wire_shape pkt) (wire_target_senders pkt)"
    and "pkt_data_size pkt = length (payload pkt)" and "pkt_data_size pkt < 2 ^ 64" and "pkt_endpoints pkt \<noteq> []"
    and "validate_payload_against_element (we_packet renv)
      (case pkt_wire_shape pkt of Some s \<Rightarrow> s | None \<Rightarrow> mm_element (message_meta (we_packet renv) (pkt_ty pkt)))
      (payload pkt) = Ok ()"
    and "zstd_law env renv" and "we_crc renv = we_crc env" and "\<not> has_probe adm" and "book_ok rbook"
  shows "\<exists>pkt'. unpack_packet renv rbook frame adm = (Ok pkt', adm) \<and>
    pkt_ty pkt' = pkt_ty pkt \<and> payload pkt' = payload pkt \<and> pkt_data_size pkt' = pkt_data_size pkt \<and>
    pkt_timestamp pkt' = pkt_timestamp pkt \<and> pkt_nonce pkt' = pkt_nonce pkt \<and>
    pkt_endpoints pkt' = sorted_list_of_set (set (pkt_endpoints pkt)) \<and>
    pkt_wire_shape pkt' = pkt_wire_shape pkt \<and> wire_target_senders pkt' = wire_target_senders pkt \<and>
    sender_address_u32 (pkt_sender pkt') = sender_address_u32 (pkt_sender pkt) \<and> packet_id pkt' = packet_id pkt"
proof -
  let ?rel = "if is_reliable_type (env_registry (we_packet env)) (pkt_ty pkt) then Some unsequenced_header else None"
  obtain book' where p: "pack_frame env pkt ?rel (pkt_wire_shape pkt) (wire_target_senders pkt) None True book =
      (Some (Ok frame), book')"
    using assms(1) by (auto simp: pack_packet_frame apfst_def map_prod_def split: option.splits sum.splits prod.splits)
  have ack: "case ?rel of Some h \<Rightarrow> rh_flags h AND RELIABLE_FLAG_ACK_ONLY = 0 | None \<Rightarrow> True"
    by (simp add: unsequenced_header_def)
  have u: "unpack_packet renv rbook frame adm =
      (Ok (received_packet (we_packet renv) rbook pkt (pkt_wire_shape pkt) (wire_target_senders pkt)), adm)"
    unfolding unpack_packet_def
    by (rule unpack_pack_frame [OF p assms(2, 3, 5) ack assms(8, 9, 4, 10, 6, 7)])
  show ?thesis
    unfolding u by (simp add: packet_id_received [OF assms(11)] received_packet_fields)
qed

text \<open>C2: the same for a frame whose payload is encrypted end to end with a software key: a
  receiver with the same key ring opens it to the packet that was sealed, its header being
  authenticated as associated data.\<close>

theorem encrypted_frame_roundtrip:
  assumes "fst (pack_packet_inner_with_contract env pkt reliable shape ts (Some key_id) book) = Some (Ok frame)"
    and "we_crypto env = \<lparr>C_SHIM = \<lparr>cp_seal = None, cp_open = None\<rparr>, RUST_SHIM = None, SOFTWARE_KEYS = ring\<rparr>"
    and "we_crypto renv = we_crypto env"
    and "receiver_resolves env (we_packet renv) pkt shape ts" and "contract_fits shape ts"
    and "case reliable of Some h \<Rightarrow> rh_flags h AND RELIABLE_FLAG_ACK_ONLY = 0 | None \<Rightarrow> True"
    and "pkt_data_size pkt = length (payload pkt)" and "pkt_data_size pkt < 2 ^ 64" and "pkt_endpoints pkt \<noteq> []"
    and "validate_payload_against_element (we_packet renv)
      (case shape of Some s \<Rightarrow> s | None \<Rightarrow> mm_element (message_meta (we_packet renv) (pkt_ty pkt))) (payload pkt) = Ok ()"
    and "zstd_law env renv" and "we_crc renv = we_crc env" and "\<not> has_probe adm" and "book_ok rbook"
  shows "\<exists>pkt'. unpack_packet renv rbook frame adm = (Ok pkt', adm) \<and>
    pkt_ty pkt' = pkt_ty pkt \<and> payload pkt' = payload pkt \<and> pkt_timestamp pkt' = pkt_timestamp pkt \<and>
    pkt_nonce pkt' = pkt_nonce pkt \<and> pkt_endpoints pkt' = sorted_list_of_set (set (pkt_endpoints pkt)) \<and>
    pkt_wire_shape pkt' = shape \<and> wire_target_senders pkt' = ts \<and> packet_id pkt' = packet_id pkt"
proof -
  obtain book' where p: "pack_frame env pkt reliable shape ts (Some key_id) True book = (Some (Ok frame), book')"
    using assms(1) by (auto simp: pack_packet_inner_with_contract_def prod_eq_iff)
  have cs: "we_crypto renv = \<lparr>C_SHIM = \<lparr>cp_seal = None, cp_open = None\<rparr>, RUST_SHIM = None, SOFTWARE_KEYS = ring\<rparr>"
    using assms(2, 3) by simp
  have u: "unpack_packet renv rbook frame adm = (Ok (received_packet (we_packet renv) rbook pkt shape ts), adm)"
    unfolding unpack_packet_def
    by (rule software.unpack_pack_encrypted_frame [OF p assms(2) cs assms(4, 5, 8, 6, 11, 12, 7, 13, 9, 10)])
  show ?thesis
    unfolding u by (simp add: packet_id_received(2) [OF assms(14)] received_packet_fields)
qed

text \<open>C37: the size function gives the length of the packed frame, checksum included; packing
  fails only for a packet with more than 255 distinct endpoints.\<close>

theorem packet_wire_size_exact:
  "case fst (pack_packet env pkt book) of
     Some frame \<Rightarrow> length frame = packet_wire_size env pkt
   | None \<Rightarrow> card (set (pkt_endpoints pkt)) > 255"
  by (rule packed_length)

text \<open>A frame of a registered type between two nodes without a compressor.\<close>

definition example_wire :: WireEnv where
  "example_wire = \<lparr>we_packet = example_env, we_crc = (\<lambda>bs. of_nat (sum_list (map unat bs))), we_compress = (\<lambda>_ _. None),
    we_decompress = (\<lambda>_ _. None), we_threshold = 16,
    we_crypto = \<lparr>C_SHIM = \<lparr>cp_seal = None, cp_open = None\<rparr>, RUST_SHIM = None,
      SOFTWARE_KEYS = [Some \<lparr>sk_key_id = 3, sk_key = replicate 32 7\<rparr>]\<rparr>\<rparr>"

definition example_gps :: Packet where
  "example_gps = example_packet\<lparr>pkt_data_size := 4, pkt_payload := Heap [1, 2, 3, 4]\<rparr>"

definition idle_admission :: Admission where
  "idle_admission = \<lparr>probe_v2 = None, probe = None, rejected = 0\<rparr>"

lemma example_gps_fits:
  "receiver_resolves example_wire example_env example_gps None []" "contract_fits None []"
  "pkt_data_size example_gps = length (payload example_gps)" "pkt_data_size example_gps < 2 ^ 64"
  "pkt_endpoints example_gps \<noteq> []"
  "validate_payload_against_element example_env
    (case None of Some s \<Rightarrow> s | None \<Rightarrow> mm_element (message_meta example_env (pkt_ty example_gps)))
    (payload example_gps) = Ok ()"
  "zstd_law example_wire example_wire" "\<not> has_probe idle_admission" "book_ok Map.empty"
  "we_packet example_wire = example_env" "pkt_wire_shape example_gps = None" "wire_target_senders example_gps = []"
  "card (set (pkt_endpoints example_gps)) \<le> 255"
proof -
  have m: "mm_element (message_meta example_env 70000) = Static 2 UInt16 CData"
    by (simp add: example_env_def get_message_meta_def try_get_message_meta_def)
  have pl: "payload example_gps = [1, 2, 3, 4]" by (simp add: example_gps_def payload_def as_slice_def)
  show "receiver_resolves example_wire example_env example_gps None []"
    by (simp add: receiver_resolves_def section_resolves_def packet_endpoint_bitmap_present_def example_gps_def
        example_packet_def explicit_endpoint_list_def EP_BITMAP_BITS_def Let_def example_env_def data_type_exists_def)
  show "contract_fits None []" by (simp add: contract_fits_def wire_contract_size_def)
  show "validate_payload_against_element example_env
    (case None of Some s \<Rightarrow> s | None \<Rightarrow> mm_element (message_meta example_env (pkt_ty example_gps)))
    (payload example_gps) = Ok ()"
    unfolding pl by (simp add: example_gps_def example_packet_def m validate_payload_against_element_def)
  show "zstd_law example_wire example_wire" by (simp add: zstd_law_def example_wire_def)
  show "pkt_data_size example_gps = length (payload example_gps)" "pkt_data_size example_gps < 2 ^ 64"
    unfolding pl by (simp_all add: example_gps_def)
qed (simp_all add: example_gps_def example_packet_def has_probe_def supports_work_kinds_def idle_admission_def book_ok_def example_wire_def
      wire_target_senders_def)

lemma example_unreliable: "\<not> is_reliable_type (env_registry example_env) (pkt_ty example_gps)"
  by (simp add: is_reliable_type_def reliable_mode_def message_delivery_meta_def example_env_def example_gps_def
      example_packet_def)

lemma example_unpacks:
  assumes "fst (pack_packet example_wire example_gps Map.empty) = Some frame"
  shows "unpack_packet_with_role example_wire Map.empty frame managed idle_admission =
    (Ok (received_packet example_env Map.empty example_gps None []), idle_admission)"
proof -
  obtain book' where p: "pack_frame example_wire example_gps None None [] None True Map.empty = (Some (Ok frame), book')"
    using assms
    by (auto simp: pack_packet_frame example_unreliable example_gps_fits apfst_def map_prod_def split: option.splits sum.splits prod.splits)
  show ?thesis
    using unpack_pack_frame [OF p, of example_wire idle_admission Map.empty managed] example_gps_fits by simp
qed

lemma example_length:
  assumes "fst (pack_packet example_wire example_gps Map.empty) = Some frame"
  shows "length frame < 2 ^ 64"
proof -
  have "length frame = packet_wire_size example_wire example_gps"
    using packed_length [where env = example_wire and pkt = example_gps and book = Map.empty] assms by simp
  also have "\<dots> \<le> 200"
    using header_size_le [of example_gps] uleb128_size_le [of "ucast (300 :: u32)"] example_gps_fits(11, 12)
    by (simp add: packet_wire_size_def packet_endpoint_bitmap_present_def explicit_endpoint_list_def EP_BITMAP_BITS_def
        endpoint_list_size_def unique_sorted_endpoints_eq payload_for_wire_def payload_for_encoding_def
        compress_if_beneficial_def example_wire_def example_unreliable payload_def as_slice_def Let_def)
      (simp add: example_gps_def example_packet_def unique_sorted_endpoints_eq as_slice_def)
  finally show ?thesis by simp
qed

theorem unpack_pack_roundtrip_witness:
  "\<exists>frame pkt'. fst (pack_packet example_wire example_gps Map.empty) = Some frame \<and>
    unpack_packet example_wire Map.empty frame idle_admission = (Ok pkt', idle_admission) \<and>
    payload pkt' = [1, 2, 3, 4] \<and> packet_id pkt' = packet_id example_gps"
proof -
  obtain frame where f: "fst (pack_packet example_wire example_gps Map.empty) = Some frame"
    using pack_packet_bytes [OF prod.collapse [symmetric], of example_wire example_gps Map.empty] example_gps_fits(13)
    by simp
  have "payload example_gps = [1, 2, 3, 4]" by (simp add: example_gps_def payload_def as_slice_def)
  moreover obtain pkt' where "unpack_packet example_wire Map.empty frame idle_admission = (Ok pkt', idle_admission)"
    "payload pkt' = payload example_gps" "packet_id pkt' = packet_id example_gps"
    using unpack_pack_roundtrip [where pkt = example_gps and renv = example_wire, unfolded example_gps_fits(10, 11, 12),
        OF f example_gps_fits(1-7) refl example_gps_fits(8, 9), unfolded example_gps_fits(10, 11, 12)]
    by blast
  ultimately show ?thesis using f by auto
qed

theorem encrypted_frame_roundtrip_witness:
  "\<exists>frame pkt'. fst (pack_packet_inner_with_contract example_wire example_gps None None [] (Some 3) Map.empty) = Some (Ok frame) \<and>
    unpack_packet example_wire Map.empty frame idle_admission = (Ok pkt', idle_admission) \<and>
    payload pkt' = [1, 2, 3, 4] \<and> packet_id pkt' = packet_id example_gps"
proof -
  have pl: "payload example_gps = [1, 2, 3, 4]" by (simp add: example_gps_def payload_def as_slice_def)
  have enc: "payload_for_encoding example_wire example_gps True = (False, payload example_gps)"
    by (simp add: payload_for_encoding_def compress_if_beneficial_def pl example_wire_def)
  have cs: "we_crypto example_wire = \<lparr>C_SHIM = \<lparr>cp_seal = None, cp_open = None\<rparr>, RUST_SHIM = None,
      SOFTWARE_KEYS = [Some \<lparr>sk_key_id = 3, sk_key = replicate 32 7\<rparr>]\<rparr>"
    by (simp add: example_wire_def)
  have "\<exists>out. write_encrypted_payload example_wire example_gps 3 (payload example_gps) hdr = Ok out" for hdr
    by (simp add: write_encrypted_payload_def cs seal_with_registered_crypto_def c_cryptography_provider_registered_def
        seal_with_software_key_def software_key_for_def software_tag_def copy_into_def pl Let_def)
  then obtain frame where
    f: "fst (pack_packet_inner_with_contract example_wire example_gps None None [] (Some 3) Map.empty) = Some (Ok frame)"
    using example_gps_fits(13)
    by (fastforce simp: pack_packet_inner_with_contract_def pack_frame_def with_packet_frame_parts_def
        source_address_for_sender_def Let_def unique_sorted_endpoints_eq enc bind_r_ok_iff)
  moreover obtain pkt' where "unpack_packet example_wire Map.empty frame idle_admission = (Ok pkt', idle_admission)"
    "payload pkt' = payload example_gps" "packet_id pkt' = packet_id example_gps"
    using encrypted_frame_roundtrip [where renv = example_wire, OF f cs refl, unfolded example_gps_fits(10) option.case,
        OF example_gps_fits(1, 2) TrueI example_gps_fits(3-5) example_gps_fits(6) [unfolded option.case]
        example_gps_fits(7) refl example_gps_fits(8, 9)]
    by blast
  ultimately show ?thesis using pl by auto
qed

end
