(* ===== verification/Wire_Locality.thy ===== *)
theory Wire_Locality
  imports Wire_Endpoints
begin

text \<open>
  Readers of the wire format (\<^verbatim>\<open>src/src/wire_format.rs\<close>) depend only on the bytes they
  consume.  A reader is contextual when every successful read consumed a segment that
  it reads to the same value behind any other prefix and before any other suffix.
  The rules follow the structure of the readers, so that a frame accepted once can be
  taken apart and put together again with another payload or another reliable header.
\<close>

section \<open>Contextual readers\<close>

definition contextual :: "'a reader \<Rightarrow> bool" where
  "contextual rd \<longleftrightarrow>
    (\<forall>pre rest v r'. rd \<lparr>rd_buf = pre @ rest, rd_off = length pre\<rparr> = Ok (v, r') \<longrightarrow>
      (\<exists>xs post. rest = xs @ post \<and> r' = \<lparr>rd_buf = pre @ rest, rd_off = length pre + length xs\<rparr> \<and> decodes rd xs v))"

named_theorems contextual_intros \<open>readers that depend only on what they consume\<close>

lemma contextualI:
  assumes "\<And>pre rest v r'. rd \<lparr>rd_buf = pre @ rest, rd_off = length pre\<rparr> = Ok (v, r') \<Longrightarrow>
      \<exists>xs post. rest = xs @ post \<and> r' = \<lparr>rd_buf = pre @ rest, rd_off = length pre + length xs\<rparr> \<and> decodes rd xs v"
  shows "contextual rd"
  using assms by (auto simp: contextual_def)

lemma contextualE:
  assumes "contextual rd" "rd \<lparr>rd_buf = buf, rd_off = off\<rparr> = Ok (v, r')" "buf = pre @ rest" "off = length pre"
  obtains xs post where "rest = xs @ post" "r' = \<lparr>rd_buf = buf, rd_off = length (pre @ xs)\<rparr>" "decodes rd xs v"
  using assms unfolding contextual_def by (metis length_append)

lemma contextual_start:
  assumes "contextual rd" "rd (reader_new buf) = Ok (v, r')"
  obtains xs post where "buf = xs @ post" "r' = \<lparr>rd_buf = buf, rd_off = length xs\<rparr>" "decodes rd xs v"
  using contextualE [OF assms(1) assms(2) [unfolded reader_new_def], of "[]" buf] by auto

lemma seq_rd_ok: "seq_rd m f r = Ok y \<longleftrightarrow> (\<exists>x r'. m r = Ok (x, r') \<and> f x r' = Ok y)"
  by (auto simp: seq_rd_def bind_r_ok_iff)

lemma seq_rdE:
  assumes "seq_rd m f r = Ok y"
  obtains x r' where "m r = Ok (x, r')" "f x r' = Ok y"
  using assms by (auto simp: seq_rd_ok)

lemma give_ok [simp]: "give x r = Ok y \<longleftrightarrow> y = (x, r)"
  by (auto simp: give_def)

lemma fail_rd_ok [simp]: "fail_rd e r \<noteq> Ok y"
  by (simp add: fail_rd_def)

lemma contextual_give [contextual_intros]: "contextual (give v)"
  by (rule contextualI) (auto simp: decodes_give intro: exI [of _ "[]"])

lemma contextual_fail [contextual_intros]: "contextual (fail_rd e)"
  by (rule contextualI) simp

lemma contextual_seq [contextual_intros]:
  assumes "contextual m" "\<And>x. contextual (f x)"
  shows "contextual (seq_rd m f)"
proof (rule contextualI)
  fix pre rest v r'
  assume "seq_rd m f \<lparr>rd_buf = pre @ rest, rd_off = length pre\<rparr> = Ok (v, r')"
  then obtain x r1 where 1: "m \<lparr>rd_buf = pre @ rest, rd_off = length pre\<rparr> = Ok (x, r1)" and 2: "f x r1 = Ok (v, r')"
    by (auto simp: seq_rd_ok)
  obtain xs post where x: "rest = xs @ post" "r1 = \<lparr>rd_buf = pre @ rest, rd_off = length (pre @ xs)\<rparr>" "decodes m xs x"
    by (rule contextualE [OF assms(1) 1 refl refl])
  have "f x \<lparr>rd_buf = pre @ rest, rd_off = length (pre @ xs)\<rparr> = Ok (v, r')" using 2 x(2) by simp
  then obtain ys post' where y: "post = ys @ post'" "r' = \<lparr>rd_buf = pre @ rest, rd_off = length ((pre @ xs) @ ys)\<rparr>"
      "decodes (f x) ys v"
    by (rule contextualE [OF assms(2), where pre = "pre @ xs" and rest = post]) (simp_all add: x(1))
  show "\<exists>zs post. rest = zs @ post \<and> r' = \<lparr>rd_buf = pre @ rest, rd_off = length pre + length zs\<rparr> \<and> decodes (seq_rd m f) zs v"
    using x(1) y decodes_seq [where f = f, OF x(3) y(3)] by (intro exI [of _ "xs @ ys"] exI [of _ post']) simp
qed

lemma contextual_if [contextual_intros]: "contextual a \<Longrightarrow> contextual b \<Longrightarrow> contextual (if c then a else b)"
  by simp

lemma contextual_option [contextual_intros]:
  "contextual a \<Longrightarrow> (\<And>x. contextual (f x)) \<Longrightarrow> contextual (case v of None \<Rightarrow> a | Some x \<Rightarrow> f x)"
  by (cases v) simp_all

text \<open>A computation that does not touch the cursor.\<close>

lemma contextual_pure:
  assumes "\<And>r. rd r = bind_r x (\<lambda>v. Ok (v, r))"
  shows "contextual rd"
proof (rule contextualI)
  fix pre rest v r'
  assume "rd \<lparr>rd_buf = pre @ rest, rd_off = length pre\<rparr> = Ok (v, r')"
  then have "x = Ok v" "r' = \<lparr>rd_buf = pre @ rest, rd_off = length pre\<rparr>" by (auto simp: assms bind_r_ok_iff)
  then show "\<exists>xs post. rest = xs @ post \<and> r' = \<lparr>rd_buf = pre @ rest, rd_off = length pre + length xs\<rparr> \<and> decodes rd xs v"
    by (intro exI [of _ "[]"] exI [of _ rest]) (simp add: decodes_def assms)
qed

lemma contextual_read_bytes [contextual_intros]: "contextual (read_bytes n)"
proof (rule contextualI)
  fix pre rest v r'
  assume "read_bytes n \<lparr>rd_buf = pre @ rest, rd_off = length pre\<rparr> = Ok (v, r')"
  then have "n \<le> length rest" "v = take n rest" "r' = \<lparr>rd_buf = pre @ rest, rd_off = length pre + n\<rparr>"
    by (auto simp: read_bytes_def remaining_def split: if_splits)
  then show "\<exists>xs post. rest = xs @ post \<and> r' = \<lparr>rd_buf = pre @ rest, rd_off = length pre + length xs\<rparr> \<and>
      decodes (read_bytes n) xs v"
    by (intro exI [of _ "take n rest"] exI [of _ "drop n rest"]) (simp add: decodes_read_bytes)
qed

lemma contextual_read_byte [contextual_intros]: "contextual read_byte"
  unfolding read_byte_def by (intro contextual_intros)

lemma read_u64_loop_contextual:
  assumes "read_u64_loop k (pre @ rest) (length pre) acc s = (Ok v, off')"
  shows "\<exists>xs post. rest = xs @ post \<and> off' = length pre + length xs \<and>
    (\<forall>pre' post'. read_u64_loop k (pre' @ xs @ post') (length pre') acc s = (Ok v, length pre' + length xs))"
  using assms
proof (induction k arbitrary: pre rest acc s)
  case 0
  then show ?case by simp
next
  case (Suc k)
  then obtain b rest' where rest: "rest = b # rest'" by (cases rest) (auto simp: buf_get_def)
  show ?case
  proof (cases "b AND 0x80 = 0")
    case True
    then show ?thesis
      using Suc.prems rest
      by (intro exI [of _ "[b]"] exI [of _ rest']) (auto simp: buf_get_def Let_def split: if_splits)
  next
    case False
    define acc' where "acc' = acc OR push_bit s (ucast (b AND 0x7f))"
    have step: "read_u64_loop (Suc k) (p @ b # q) (length p) acc s = read_u64_loop k ((p @ [b]) @ q) (length (p @ [b])) acc' (s + 7)"
      for p q
      using False by (simp add: buf_get_def acc'_def Let_def)
    have "read_u64_loop k ((pre @ [b]) @ rest') (length (pre @ [b])) acc' (s + 7) = (Ok v, off')"
      using Suc.prems by (simp only: rest step)
    from Suc.IH [OF this] obtain xs post where "rest' = xs @ post" "off' = length (pre @ [b]) + length xs"
      and ctx: "\<And>p q. read_u64_loop k (p @ xs @ q) (length p) acc' (s + 7) = (Ok v, length p + length xs)"
      by blast
    then show ?thesis
      using rest ctx [of "_ @ [b]"]
      by (intro exI [of _ "b # xs"] exI [of _ post]) (simp del: read_u64_loop.simps add: step)
  qed
qed

lemmas read_u64_contextual = read_u64_loop_contextual [of 10 _ _ 0 0, folded read_u64_def]

lemma contextual_uleb [contextual_intros]: "contextual read_uleb128"
proof (rule contextualI)
  fix pre rest v r'
  assume "read_uleb128 \<lparr>rd_buf = pre @ rest, rd_off = length pre\<rparr> = Ok (v, r')"
  then obtain off' where off: "read_u64 (pre @ rest) (length pre) = (Ok v, off')"
    "r' = \<lparr>rd_buf = pre @ rest, rd_off = off'\<rparr>"
    by (cases "read_u64 (pre @ rest) (length pre)") (auto simp: read_uleb128_def bind_r_ok_iff)
  from read_u64_contextual [OF off(1)] obtain xs post where x: "rest = xs @ post" "off' = length pre + length xs"
    and "\<And>p q. read_u64 (p @ xs @ q) (length p) = (Ok v, length p + length xs)"
    by blast
  then have "decodes read_uleb128 xs v" by (simp add: decodes_def read_uleb128_def)
  with x off(2) show "\<exists>xs post. rest = xs @ post \<and> r' = \<lparr>rd_buf = pre @ rest, rd_off = length pre + length xs\<rparr> \<and>
      decodes read_uleb128 xs v"
    by blast
qed

lemma contextual_narrow [contextual_intros]: "contextual (read_uleb_narrow msg)"
  unfolding read_uleb_narrow_def by (intro contextual_intros)

lemma contextual_u32_le [contextual_intros]: "contextual read_u32_le"
  unfolding read_u32_le_def by (intro contextual_intros)

section \<open>Parts of a frame\<close>

lemma contextual_wire_contract [contextual_intros]: "contextual (decode_wire_contract has)"
proof -
  have "contextual (\<lambda>r. bind_r (decode_contract_body (reader_new bs)) (\<lambda>(c, _). Ok (c, r)))" for bs
    by (rule contextual_pure [where x = "map_sum id fst (decode_contract_body (reader_new bs))"])
      (cases "decode_contract_body (reader_new bs)", auto)
  then show ?thesis
    unfolding decode_wire_contract_def by (intro contextual_intros)
qed

lemma contextual_reliable [contextual_intros]: "contextual (read_reliable_header_encoded compact)"
  unfolding read_reliable_header_encoded_def read_reliable_header_compact_def read_reliable_header_def
  by (intro contextual_intros)

lemma contextual_list_loop: "contextual (read_list_loop n previous)"
  by (induction n arbitrary: previous) (auto intro!: contextual_intros)

lemma contextual_endpoint_list [contextual_intros]: "contextual (read_endpoint_list n)"
proof (rule contextualI)
  fix pre rest v r'
  assume "read_endpoint_list n \<lparr>rd_buf = pre @ rest, rd_off = length pre\<rparr> = Ok (v, r')"
  then obtain x r1 where 1: "read_list_loop n None \<lparr>rd_buf = pre @ rest, rd_off = length pre\<rparr> = Ok (x, r1)"
    and v: "v = take (rd_off r1 - length pre) (drop (length pre) (rd_buf r1))" "r' = r1"
    by (auto simp: read_endpoint_list_def bind_r_ok_iff)
  obtain xs post where x: "rest = xs @ post" "r1 = \<lparr>rd_buf = pre @ rest, rd_off = length (pre @ xs)\<rparr>"
      "decodes (read_list_loop n None) xs x"
    by (rule contextualE [OF contextual_list_loop 1 refl refl])
  then show "\<exists>xs post. rest = xs @ post \<and> r' = \<lparr>rd_buf = pre @ rest, rd_off = length pre + length xs\<rparr> \<and>
      decodes (read_endpoint_list n) xs v"
    using v by (intro exI [of _ xs] exI [of _ post]) (simp add: decodes_def read_endpoint_list_def)
qed

lemma contextual_endpoints [contextual_intros]: "contextual (endpoints_from_wire_or_schema env bm lst ty nep)"
proof -
  have 1: "contextual (\<lambda>r. case Option.bind ty (try_get_message_meta (env_registry env)) of
      Some meta \<Rightarrow>
        if endpoint_list_iter bs = mm_endpoints meta then Ok (mm_endpoints meta, r)
        else bind_r (endpoint_arc_from_iter nep (endpoint_list_iter bs)) (\<lambda>eps. Ok (eps, r))
    | None \<Rightarrow> bind_r (endpoint_arc_from_iter nep (endpoint_list_iter bs)) (\<lambda>eps. Ok (eps, r)))" for bs
    by (rule contextual_pure [where x = "case Option.bind ty (try_get_message_meta (env_registry env)) of
        Some meta \<Rightarrow> if endpoint_list_iter bs = mm_endpoints meta then Ok (mm_endpoints meta)
          else endpoint_arc_from_iter nep (endpoint_list_iter bs)
      | None \<Rightarrow> endpoint_arc_from_iter nep (endpoint_list_iter bs)"]) (simp split: option.split)
  have 2: "contextual (\<lambda>r. bind_r (expand_endpoint_bitmap env bs) (\<lambda>eps.
      if length eps \<noteq> nep then Err (Unpack ''endpoint count mismatch'') else Ok (eps, r)))" for bs
    by (rule contextual_pure [where x = "bind_r (expand_endpoint_bitmap env bs) (\<lambda>eps.
        if length eps \<noteq> nep then Err (Unpack ''endpoint count mismatch'') else Ok eps)"])
      (cases "expand_endpoint_bitmap env bs", simp_all)
  have 3: "contextual (\<lambda>r. case ty of None \<Rightarrow> Err InvalidType
      | Some ty \<Rightarrow> bind_r (schema_endpoints_from_type env ty nep) (\<lambda>eps. Ok (eps, r)))"
    by (rule contextual_pure [where x = "case ty of None \<Rightarrow> Err InvalidType
        | Some ty \<Rightarrow> schema_endpoints_from_type env ty nep"]) (simp split: option.split)
  note seqs = contextual_seq [OF contextual_endpoint_list 1] contextual_seq [OF contextual_read_bytes 2]
  show ?thesis
  proof (cases lst)
    case True
    then show ?thesis by (cases bm) (simp_all add: endpoints_from_wire_or_schema_def contextual_fail seqs(1))
  next
    case False
    then show ?thesis by (cases bm) (simp_all add: endpoints_from_wire_or_schema_def seqs(2) 3)
  qed
qed

end
