(* ===== verification/Wire_Routing.thy ===== *)
theory Wire_Routing
  imports Wire_Format Wire_Locality
begin

text \<open>
  Header-only inspection and rewriting of frames (\<^verbatim>\<open>src/src/wire_format.rs\<close>): the
  borrowed routing envelope with its endpoint iterator, the peek functions, the packet
  ID computed from the wire, rewriting of the reliable header and re-encoding of the
  payload for a side.  The receive checks of \<^verbatim>\<open>src/src/memory_admission.rs\<close> that look
  into a frame stand here as well.  Proved: on every frame the unpacker accepts, the
  header-only view agrees with the unpacked packet, and a rewritten or re-encoded frame
  unpacks to the same packet.
\<close>

section \<open>Routing envelope\<close>

record RoutingEnvelope =
  re_ty :: DataType
  re_bitmap :: "u64 list"
  re_endpoint_list :: "bytes option"
  re_schema_endpoints :: "DataEndpoint list option"
  re_source_address :: u32
  re_timestamp_ms :: u64
  re_wire_shape :: "MessageElement option"
  re_is_reliable :: bool
  re_payload_is_empty :: bool
  re_targets :: bytes
  re_has_reliable_header :: bool

record RoutingEndpointIter =
  it_word :: nat
  it_bits :: u64
  it_list_offset :: nat
  it_previous :: "DataEndpoint option"
  it_finished :: bool

text \<open>The loop over empty bitmap words; None when the words are used up.\<close>

function next_word :: "u64 list \<Rightarrow> nat \<Rightarrow> u64 \<Rightarrow> (nat \<times> u64) option" where
  "next_word bitmap word bits =
    (if bits \<noteq> 0 then Some (word, bits)
     else if word + 1 \<ge> length bitmap then None
     else next_word bitmap (word + 1) (bitmap ! (word + 1)))"
  by pat_completeness auto
termination by (relation "measure (\<lambda>(bitmap, word, _). length bitmap - word)") auto

declare next_word.simps [simp del]

definition routing_endpoint_next ::
  "RoutingEnvelope \<Rightarrow> RoutingEndpointIter \<Rightarrow> DataEndpoint option \<times> RoutingEndpointIter" where
  "routing_endpoint_next e it =
    (if it_finished it then (None, it)
     else case re_endpoint_list e of
       Some bs \<Rightarrow>
         if remaining \<lparr>rd_buf = bs, rd_off = it_list_offset it\<rparr> = 0 then (None, it\<lparr>it_finished := True\<rparr>)
         else (case read_u64 bs (it_list_offset it) of (res, off) \<Rightarrow>
           (case res of Inl _ \<Rightarrow> None | Inr v \<Rightarrow> if unat v < 2 ^ 32 then Some (ucast v) else None,
            it\<lparr>it_list_offset := off\<rparr>))
     | None \<Rightarrow>
         (case re_schema_endpoints e of
           Some eps \<Rightarrow>
             (let next = least_above (it_previous it) eps in
              (next, it\<lparr>it_previous := next, it_finished := next = None\<rparr>))
         | None \<Rightarrow>
             (case next_word (re_bitmap e) (it_word it) (it_bits it) of
               None \<Rightarrow> (None, it\<lparr>it_word := length (re_bitmap e), it_bits := 0, it_finished := True\<rparr>)
             | Some (word, bits) \<Rightarrow>
                 (Some (of_nat (word * 64 + trailing_zeros bits)),
                  it\<lparr>it_word := word, it_bits := bits AND (bits - 1)\<rparr>))))"

definition routing_iter_start :: "RoutingEnvelope \<Rightarrow> RoutingEndpointIter" where
  "routing_iter_start e =
    \<lparr>it_word = 0, it_bits = re_bitmap e ! 0, it_list_offset = 0, it_previous = None, it_finished = False\<rparr>"

text \<open>What a consumer of the iterator still receives.\<close>

definition iter_measure :: "RoutingEnvelope \<Rightarrow> RoutingEndpointIter \<Rightarrow> nat" where
  "iter_measure e it =
    (case re_endpoint_list e of
       Some bs \<Rightarrow> length bs - it_list_offset it
     | None \<Rightarrow>
         (case re_schema_endpoints e of
           Some eps \<Rightarrow> card {ep \<in> set eps. case it_previous it of None \<Rightarrow> True | Some p \<Rightarrow> ep > p}
         | None \<Rightarrow> (length (re_bitmap e) - it_word it) * 2 ^ 64 + unat (it_bits it)))"

lemma next_word_some:
  assumes "next_word bitmap word bits = Some (word', bits')"
  shows "bits' \<noteq> 0" "word' = word \<and> bits' = bits \<or> word < word' \<and> word' < length bitmap \<and> bits' = bitmap ! word'"
  using assms
  by (induction bitmap word bits rule: next_word.induct)
    (subst (asm) (2) next_word.simps, auto split: if_splits)+

lemma clear_lowest_less: "w \<noteq> 0 \<Longrightarrow> unat (w AND (w - 1)) < unat w" for w :: "'a::len word"
proof -
  assume w: "w \<noteq> 0"
  have "w AND (w - 1) \<le> w - 1" by (rule word_and_le1)
  also have "w - 1 < w" using w by (simp add: word_less_nat_alt unat_minus_one unat_gt_0)
  finally show ?thesis by (simp add: word_less_nat_alt)
qed

lemma routing_next_progress:
  assumes "routing_endpoint_next e it = (Some ep, it')"
  shows "iter_measure e it' < iter_measure e it"
proof (cases "re_endpoint_list e")
  case (Some bs)
  obtain res off where rd: "read_u64 bs (it_list_offset it) = (res, off)" by fastforce
  then obtain v where "res = Ok v" "it' = it\<lparr>it_list_offset := off\<rparr>"
    using assms Some by (auto simp: routing_endpoint_next_def split: if_splits sum.splits)
  with read_u64_progress [of bs "it_list_offset it" v off] rd show ?thesis
    by (simp add: iter_measure_def Some diff_less_mono2)
next
  case nolist: None
  show ?thesis
  proof (cases "re_schema_endpoints e")
    case (Some eps)
    then have n: "least_above (it_previous it) eps = Some ep" "it_previous it' = Some ep"
      using assms nolist by (auto simp: routing_endpoint_next_def Let_def split: if_splits)
    have "{x \<in> set eps. x > ep} \<subset> {x \<in> set eps. case it_previous it of None \<Rightarrow> True | Some p \<Rightarrow> x > p}"
      using least_above_in [OF n(1)] by (auto split: option.splits)
    then show ?thesis
      by (simp add: iter_measure_def nolist Some n(2) psubset_card_mono)
  next
    case None
    then obtain word bits where w: "next_word (re_bitmap e) (it_word it) (it_bits it) = Some (word, bits)"
      "it' = it\<lparr>it_word := word, it_bits := bits AND (bits - 1)\<rparr>"
      using assms nolist by (auto simp: routing_endpoint_next_def split: if_splits option.splits)
    note nw = next_word_some [OF w(1)]
    have less: "unat (bits AND (bits - 1)) < unat bits" by (rule clear_lowest_less [OF nw(1)])
    from nw(2) show ?thesis
    proof
      assume "word = it_word it \<and> bits = it_bits it"
      then show ?thesis using less w(2) by (simp add: iter_measure_def nolist None)
    next
      assume a: "it_word it < word \<and> word < length (re_bitmap e) \<and> bits = re_bitmap e ! word"
      have "unat (bits AND (bits - 1)) < 2 ^ 64" using unsigned_less [of "bits AND (bits - 1)", where ?'a = nat] by simp
      then have "(length (re_bitmap e) - word) * 2 ^ 64 + unat (bits AND (bits - 1)) <
          (length (re_bitmap e) - word + 1) * 2 ^ 64"
        by simp
      also have "\<dots> \<le> (length (re_bitmap e) - it_word it) * 2 ^ 64" using a by (intro mult_le_mono1) linarith
      finally show ?thesis using w(2) by (simp add: iter_measure_def nolist None)
    qed
  qed
qed

function collect_endpoints :: "RoutingEnvelope \<Rightarrow> RoutingEndpointIter \<Rightarrow> DataEndpoint list" where
  "collect_endpoints e it =
    (case routing_endpoint_next e it of (None, _) \<Rightarrow> [] | (Some ep, it') \<Rightarrow> ep # collect_endpoints e it')"
  by pat_completeness auto
termination
  by (relation "measure (\<lambda>(e, it). iter_measure e it)") (auto dest: routing_next_progress [OF sym])

declare collect_endpoints.simps [simp del]

definition routing_endpoints :: "RoutingEnvelope \<Rightarrow> DataEndpoint list" where
  "routing_endpoints e = collect_endpoints e (routing_iter_start e)"

text \<open>\<^verbatim>\<open>as_chunks::<8>().0\<close>: the whole chunks, without the remainder.\<close>

function chunks8 :: "bytes \<Rightarrow> bytes list" where
  "chunks8 bs = (if length bs < 8 then [] else take 8 bs # chunks8 (drop 8 bs))"
  by pat_completeness auto
termination by (relation "measure length") auto

declare chunks8.simps [simp del]

definition routing_target_senders :: "RoutingEnvelope \<Rightarrow> u64 list" where
  "routing_target_senders e = map from_le_bytes (chunks8 (re_targets e))"

record TelemetryEnvelope =
  te_ty :: DataType
  te_endpoints :: "DataEndpoint list"
  te_sender :: string
  te_source_address :: u32
  te_timestamp_ms :: u64
  te_wire_shape :: "MessageElement option"
  te_target_senders :: "u64 list"

definition into_owned :: "AddressBook \<Rightarrow> RoutingEnvelope \<Rightarrow> TelemetryEnvelope" where
  "into_owned book e =
    \<lparr>te_ty = re_ty e, te_endpoints = routing_endpoints e,
     te_sender = sender_name_for_address book (re_source_address e), te_source_address = re_source_address e,
     te_timestamp_ms = re_timestamp_ms e, te_wire_shape = re_wire_shape e,
     te_target_senders = routing_target_senders e\<rparr>"

section \<open>Reading the envelope\<close>

definition count_ones :: "u64 \<Rightarrow> nat" where
  "count_ones w = length (filter (bit w) [0..<64])"

text \<open>Flags, endpoint count, type, emptiness of the payload, timestamp and source address.\<close>

definition read_routing_prelude :: "(u8 \<times> nat \<times> u64 \<times> bool \<times> u64 \<times> u32) reader" where
  "read_routing_prelude =
    seq_rd read_byte (\<lambda>flags.
    seq_rd read_byte (\<lambda>nep.
    seq_rd read_uleb128 (\<lambda>ty_v.
    seq_rd read_uleb128 (\<lambda>dsz.
    seq_rd read_uleb128 (\<lambda>timestamp_ms.
    seq_rd (if flags AND FLAG_PACKET_NONCE \<noteq> 0 then seq_rd read_uleb128 (\<lambda>_. give ()) else give ()) (\<lambda>_.
    seq_rd (read_uleb_narrow ''source address too large'') (\<lambda>source_address.
      give (flags, unat nep, ty_v, dsz = 0, timestamp_ms, source_address))))))))"

definition read_routing_bitmap :: "PacketEnv \<Rightarrow> nat \<Rightarrow> u64 list reader" where
  "read_routing_bitmap env nep =
    seq_rd (read_bytes EP_BITMAP_BYTES) (\<lambda>bs.
      let bitmap = map from_le_bytes (chunks8 bs) in
      if sum_list (map count_ones bitmap) \<noteq> nep then fail_rd (Unpack ''endpoint count mismatch'')
      else if list_all (\<lambda>(index, word). list_all (\<lambda>k. endpoint_exists (env_registry env) (of_nat (index * 64 + k)))
          (set_bits_loop word)) (enumerate 0 bitmap)
      then give bitmap
      else fail_rd (Unpack ''bad endpoint bit set''))"

definition read_routing_endpoints ::
  "PacketEnv \<Rightarrow> u8 \<Rightarrow> nat \<Rightarrow> u32 \<Rightarrow> (u64 list \<times> bytes option \<times> DataEndpoint list option) reader" where
  "read_routing_endpoints env flags nep ty_u32 =
    (if flags AND FLAG_ENDPOINT_LIST_PRESENT \<noteq> 0 then
       if flags AND FLAG_ENDPOINT_BITMAP_PRESENT \<noteq> 0 then fail_rd (Unpack ''ambiguous endpoint encoding'')
       else seq_rd (read_endpoint_list nep) (\<lambda>bs. give (replicate 4 0, Some bs, None))
     else if flags AND FLAG_ENDPOINT_BITMAP_PRESENT \<noteq> 0 then
       seq_rd (read_routing_bitmap env nep) (\<lambda>bitmap. give (bitmap, None, None))
     else
       (case try_get_message_meta (env_registry env) ty_u32 of
         None \<Rightarrow> fail_rd InvalidType
       | Some meta \<Rightarrow>
           if length (unique_sorted_endpoints (mm_endpoints meta)) \<noteq> nep then fail_rd (Unpack ''endpoint count mismatch'')
           else give (replicate 4 0, None, Some (mm_endpoints meta))))"

definition read_routing_contract_body :: "(MessageElement option \<times> bytes \<times> bool) reader" where
  "read_routing_contract_body =
    seq_rd read_byte (\<lambda>contract_flags.
    seq_rd (if contract_flags AND CONTRACT_FLAG_SHAPE \<noteq> 0 then seq_rd decode_wire_shape (\<lambda>s. give (Some s)) else give None) (\<lambda>shape.
    seq_rd (if contract_flags AND CONTRACT_FLAG_TARGETS \<noteq> 0
            then seq_rd read_uleb128 (\<lambda>count.
              if unat count * 8 \<ge> 2 ^ 64 then fail_rd (Unpack ''wire contract target count'')
              else read_bytes (unat count * 8))
            else give []) (\<lambda>targets cr.
      if remaining cr \<noteq> 0 then Err (Unpack ''wire contract trailing bytes'')
      else Ok ((shape, targets, contract_flags AND CONTRACT_FLAG_RELIABLE_HEADER \<noteq> 0), cr))))"

definition read_routing_contract :: "u8 \<Rightarrow> (MessageElement option \<times> bytes \<times> bool) reader" where
  "read_routing_contract flags =
    (if flags AND FLAG_WIRE_CONTRACT \<noteq> 0
     then seq_rd read_uleb128 (\<lambda>len. seq_rd (read_bytes (unat len)) (\<lambda>bs r.
       bind_r (read_routing_contract_body (reader_new bs)) (\<lambda>(c, _). Ok (c, r))))
     else give (None, [], False))"

text \<open>A frame without endpoints must be a reliable control frame; the cursor stays.\<close>

definition check_no_endpoints :: "u8 \<Rightarrow> nat \<Rightarrow> bool \<Rightarrow> unit reader" where
  "check_no_endpoints flags nep has_reliable r =
    (if nep \<noteq> 0 then Ok ((), r)
     else if \<not> has_reliable then Err EmptyEndpoints
     else bind_r (read_reliable_header_encoded (flags AND FLAG_COMPACT_RELIABLE_HEADER \<noteq> 0) r) (\<lambda>(hdr, _).
       if rh_flags hdr AND RELIABLE_FLAG_ACK_ONLY = 0 then Err EmptyEndpoints else Ok ((), r)))"

definition read_routing_envelope :: "PacketEnv \<Rightarrow> RoutingEnvelope reader" where
  "read_routing_envelope env =
    seq_rd read_routing_prelude (\<lambda>(flags, nep, ty_v, payload_is_empty, timestamp_ms, source_address) r.
      bind_r (data_type_id_from_wire ty_v) (\<lambda>ty_u32.
        let is_reliable = (flags AND FLAG_RELIABLE_HEADER_PRESENT \<noteq> 0) in
        seq_rd (read_routing_endpoints env flags nep ty_u32) (\<lambda>(bitmap, endpoint_list, schema_endpoints).
        seq_rd (read_routing_contract flags) (\<lambda>(shape, targets, has_reliable_header).
        seq_rd (check_no_endpoints flags nep (is_reliable \<or> has_reliable_header)) (\<lambda>_.
          give \<lparr>re_ty = ty_u32, re_bitmap = bitmap, re_endpoint_list = endpoint_list,
                re_schema_endpoints = schema_endpoints, re_source_address = source_address,
                re_timestamp_ms = timestamp_ms, re_wire_shape = shape, re_is_reliable = is_reliable,
                re_payload_is_empty = payload_is_empty, re_targets = targets,
                re_has_reliable_header = has_reliable_header\<rparr>))) r))"

section \<open>Peeking\<close>

definition scheduling_type :: "bytes \<Rightarrow> DataType option" where
  "scheduling_type buf =
    (case seq_rd (read_bytes 2) (\<lambda>_. read_uleb128) (reader_new (take (min (length buf) 12) buf)) of
      Inl _ \<Rightarrow> None
    | Inr (ty_v, _) \<Rightarrow> (case data_type_id_from_wire ty_v of Inl _ \<Rightarrow> None | Inr ty \<Rightarrow> Some ty))"

definition chunked_schema_source :: "PacketEnv \<Rightarrow> bytes \<Rightarrow> u32 option" where
  "chunked_schema_source env prefix =
    (case read_routing_envelope env (reader_new prefix) of
      Inl _ \<Rightarrow> None
    | Inr (e, _) \<Rightarrow> if re_ty e = DT_DiscoverySchema then Some (re_source_address e) else None)"

definition peek_routing_envelope :: "WireEnv \<Rightarrow> bytes \<Rightarrow> RoutingEnvelope result" where
  "peek_routing_envelope env buf =
    bind_r (verify_crc32 (we_crc env) buf) (\<lambda>data.
      bind_r (read_routing_envelope (we_packet env) (reader_new data)) (\<lambda>(e, _). Ok e))"

definition peek_envelope :: "WireEnv \<Rightarrow> AddressBook \<Rightarrow> bytes \<Rightarrow> TelemetryEnvelope result" where
  "peek_envelope env book buf = bind_r (peek_routing_envelope env buf) (\<lambda>e. Ok (into_owned book e))"

record TelemetryFrameInfo =
  tf_envelope :: TelemetryEnvelope
  tf_reliable :: "ReliableHeader option"

record RoutingFrameInfo =
  rf_envelope :: RoutingEnvelope
  rf_reliable :: "ReliableHeader option"
  rf_empty_payload :: bool

definition header_ack_only :: "ReliableHeader option \<Rightarrow> bool" where
  "header_ack_only reliable \<longleftrightarrow>
    (case reliable of Some h \<Rightarrow> rh_flags h AND RELIABLE_FLAG_ACK_ONLY \<noteq> 0 | None \<Rightarrow> False)"

definition routing_ack_only :: "RoutingFrameInfo \<Rightarrow> bool" where
  "routing_ack_only info = header_ack_only (rf_reliable info)"

definition telemetry_ack_only :: "TelemetryFrameInfo \<Rightarrow> bool" where
  "telemetry_ack_only info = header_ack_only (tf_reliable info)"

text \<open>The reliable header behind the envelope, in the form the first byte announces.\<close>

definition read_frame_reliable :: "bytes \<Rightarrow> RoutingEnvelope \<Rightarrow> ReliableHeader option reader" where
  "read_frame_reliable data e =
    (if re_is_reliable e \<or> re_has_reliable_header e
     then seq_rd (read_reliable_header_encoded (data ! 0 AND FLAG_COMPACT_RELIABLE_HEADER \<noteq> 0)) (\<lambda>h. give (Some h))
     else give None)"

definition peek_routing_frame_info :: "WireEnv \<Rightarrow> bytes \<Rightarrow> RoutingFrameInfo result" where
  "peek_routing_frame_info env buf =
    bind_r (verify_crc32 (we_crc env) buf) (\<lambda>data.
    bind_r (read_routing_envelope (we_packet env) (reader_new data)) (\<lambda>(e, r).
    bind_r (read_frame_reliable data e r) (\<lambda>(reliable, r).
      Ok \<lparr>rf_envelope = e, rf_reliable = reliable,
          rf_empty_payload = (re_payload_is_empty e \<and> remaining r = 0)\<rparr>)))"

definition peek_frame_info_inner :: "WireEnv \<Rightarrow> AddressBook \<Rightarrow> bytes \<Rightarrow> TelemetryFrameInfo result" where
  "peek_frame_info_inner env book buf =
    bind_r (read_routing_envelope (we_packet env) (reader_new buf)) (\<lambda>(e, r).
    bind_r (read_frame_reliable buf e r) (\<lambda>(reliable, _).
      Ok \<lparr>tf_envelope = into_owned book e, tf_reliable = reliable\<rparr>))"

definition peek_frame_info :: "WireEnv \<Rightarrow> AddressBook \<Rightarrow> bytes \<Rightarrow> TelemetryFrameInfo result" where
  "peek_frame_info env book buf = bind_r (verify_crc32 (we_crc env) buf) (peek_frame_info_inner env book)"

definition peek_frame_info_unchecked :: "WireEnv \<Rightarrow> AddressBook \<Rightarrow> bytes \<Rightarrow> TelemetryFrameInfo result" where
  "peek_frame_info_unchecked env book buf =
    bind_r (split_crc32 buf) (\<lambda>(data, _). peek_frame_info_inner env book data)"

datatype TargetSenderSet = Hashes "u64 list" | Encoded bytes

fun target_skip :: "nat \<Rightarrow> TargetSenderSet \<Rightarrow> TargetSenderSet" where
  "target_skip count (Hashes v) = Hashes (drop count v)"
| "target_skip count (Encoded v) = Encoded (drop (saturating_mul count 8) v)"

fun target_iter :: "TargetSenderSet \<Rightarrow> u64 list" where
  "target_iter (Hashes v) = v"
| "target_iter (Encoded v) = map from_le_bytes (chunks8 v)"

fun target_is_empty :: "TargetSenderSet \<Rightarrow> bool" where
  "target_is_empty (Hashes v) = (v = [])"
| "target_is_empty (Encoded v) = (v = [])"

fun target_contains :: "u64 \<Rightarrow> TargetSenderSet \<Rightarrow> bool" where
  "target_contains target (Hashes v) = (target \<in> set v)"
| "target_contains target (Encoded v) = list_ex (\<lambda>bs. from_le_bytes bs = target) (chunks8 v)"

definition target_sender_set :: "RoutingEnvelope \<Rightarrow> TargetSenderSet" where
  "target_sender_set e = Encoded (re_targets e)"

definition peek_plain_discovery_payload :: "WireEnv \<Rightarrow> bytes \<Rightarrow> DataType \<Rightarrow> (u32 \<times> bytes) option result" where
  "peek_plain_discovery_payload env buf expected =
    bind_r (seq_rd (read_bytes 2) (\<lambda>_. read_uleb128) (reader_new buf)) (\<lambda>(ty_v, _).
    bind_r (data_type_id_from_wire ty_v) (\<lambda>ty.
      if ty \<noteq> expected then Ok None
      else
    bind_r (verify_crc32 (we_crc env) buf) (\<lambda>data.
    bind_r (read_routing_envelope (we_packet env) (reader_new data)) (\<lambda>(e, r).
      if re_ty e \<noteq> expected \<or> data ! 0 AND (FLAG_COMPRESSED_PAYLOAD OR 0x10) \<noteq> 0 \<or> routing_target_senders e \<noteq> [] \<or>
         (case re_wire_shape e of Some s \<Rightarrow> s \<noteq> mm_element (message_meta (we_packet env) expected) | None \<Rightarrow> False)
      then Ok None
      else
    bind_r (read_frame_reliable data e r) (\<lambda>(reliable, r).
      if (case reliable of Some h \<Rightarrow> rh_flags h \<noteq> RELIABLE_FLAG_UNSEQUENCED \<or> rh_seq h \<noteq> 0 \<or> rh_ack h \<noteq> 0 | None \<Rightarrow> False)
      then Ok None
      else
    bind_r (seq_rd (read_bytes 2) (\<lambda>_. seq_rd read_uleb128 (\<lambda>_. read_uleb128)) (reader_new data)) (\<lambda>(size, _).
      if remaining r \<noteq> unat size then Err (Unpack ''discovery payload length mismatch'')
      else bind_r (read_bytes (unat size) r) (\<lambda>(bs, _). Ok (Some (re_source_address e, bs)))))))))"

section \<open>Packet ID from the wire\<close>

definition id_payload_wire :: "WireEnv \<Rightarrow> bytes \<Rightarrow> u8 \<Rightarrow> nat \<Rightarrow> bytes reader" where
  "id_payload_wire env data flags dsz r =
    (if flags AND FLAG_E2E_ENCRYPTED_PAYLOAD \<noteq> 0 then read_encrypted_payload env (take (rd_off r) data) dsz r
     else if flags AND FLAG_COMPRESSED_PAYLOAD = 0 then
       if remaining r < dsz then Err (Unpack ''short buffer'') else read_bytes dsz r
     else if remaining r < 1 then Err (Unpack ''short buffer'')
     else read_bytes (remaining r) r)"

definition hash_wire_id :: "u32 \<Rightarrow> u32 \<Rightarrow> DataEndpoint list \<Rightarrow> u64 \<Rightarrow> u16 \<Rightarrow> nat \<Rightarrow> bytes \<Rightarrow> u64" where
  "hash_wire_id source_address ty eps ts nonce dsz payload_bytes =
    (let h = 0x9E3779B97F4A7C15 :: u64;
         h = hash_bytes_u64 h (le_bytes 4 source_address);
         h = hash_bytes_u64 h (le_bytes 4 ty);
         h = fold (\<lambda>ep h. hash_bytes_u64 h (le_bytes 4 ep)) eps h;
         h = hash_bytes_u64 h (le_bytes 8 ts);
         h = hash_bytes_u64 h (le_bytes 2 nonce);
         h = hash_bytes_u64 h (le_bytes 8 (of_nat dsz :: u64)) in
     hash_bytes_u64 h payload_bytes)"

definition packet_id_from_wire :: "WireEnv \<Rightarrow> bytes \<Rightarrow> u64 result" where
  "packet_id_from_wire env buf =
    bind_r (verify_crc32 (we_crc env) buf) (\<lambda>data.
      if length data < 2 then Err (Unpack ''short prelude'')
      else
    bind_r (read_frame_header (reader_new data)) (\<lambda>(h, _).
    bind_r (read_routing_envelope (we_packet env) (reader_new data)) (\<lambda>(e, r).
    bind_r (read_packet_reliable (re_is_reliable e \<or> re_has_reliable_header e)
      (fh_flags h AND FLAG_COMPACT_RELIABLE_HEADER \<noteq> 0) r) (\<lambda>(_, r).
    bind_r (id_payload_wire env data (fh_flags h) (fh_dsz h) r) (\<lambda>(payload_wire, _).
    bind_r (if fh_flags h AND FLAG_COMPRESSED_PAYLOAD \<noteq> 0 then decompress env payload_wire (fh_dsz h)
            else if length payload_wire \<noteq> fh_dsz h then Err (Unpack ''payload length mismatch'')
            else Ok payload_wire) (\<lambda>payload_bytes.
      Ok (hash_wire_id (fh_source h) (re_ty e) (routing_endpoints e) (fh_ts h) (fh_nonce h) (fh_dsz h) payload_bytes)))))))"

section \<open>Rewriting the reliable header\<close>

text \<open>The fields before the contract; their values are not used.\<close>

definition read_span_prefix :: "u8 \<Rightarrow> (u64 \<times> WireContract) reader" where
  "read_span_prefix flags =
    seq_rd read_byte (\<lambda>nep.
    seq_rd read_uleb128 (\<lambda>ty_v.
    seq_rd read_uleb128 (\<lambda>_.
    seq_rd read_uleb128 (\<lambda>_.
    seq_rd (if flags AND FLAG_PACKET_NONCE \<noteq> 0 then seq_rd read_uleb128 (\<lambda>_. give ()) else give ()) (\<lambda>_.
    seq_rd (read_uleb_narrow ''source address too large'' :: u32 reader) (\<lambda>_ r.
      if remaining r < (if flags AND FLAG_ENDPOINT_BITMAP_PRESENT \<noteq> 0 then EP_BITMAP_BYTES else 0)
      then Err (Unpack ''short buffer'')
      else
        seq_rd (if flags AND FLAG_ENDPOINT_LIST_PRESENT \<noteq> 0
                then if flags AND FLAG_ENDPOINT_BITMAP_PRESENT \<noteq> 0
                     then fail_rd (Unpack ''ambiguous endpoint encoding'') else read_endpoint_list (unat nep)
                else if flags AND FLAG_ENDPOINT_BITMAP_PRESENT \<noteq> 0 then read_bytes EP_BITMAP_BYTES
                else give []) (\<lambda>_.
        seq_rd (decode_wire_contract (flags AND FLAG_WIRE_CONTRACT \<noteq> 0)) (\<lambda>contract.
          give (ty_v, contract))) r))))))"

definition reliable_header_span :: "bytes \<Rightarrow> (nat \<times> nat \<times> ReliableHeader) option result" where
  "reliable_header_span buf =
    (if length buf < 5 then Err (Unpack ''short prelude'')
     else
       bind_r (read_byte (reader_new (take (length buf - 4) buf))) (\<lambda>(flags, r).
       bind_r (read_span_prefix flags r) (\<lambda>((ty_v, contract), r).
       bind_r (data_type_id_from_wire ty_v) (\<lambda>_.
         if flags AND FLAG_RELIABLE_HEADER_PRESENT = 0 \<and> \<not> wc_has_reliable_header contract then Ok None
         else
           bind_r (read_reliable_header_encoded (flags AND FLAG_COMPACT_RELIABLE_HEADER \<noteq> 0) r) (\<lambda>(hdr, r').
             Ok (Some (rd_off r, rd_off r' - rd_off r, hdr)))))))"

definition reliable_header_offset :: "bytes \<Rightarrow> nat option result" where
  "reliable_header_offset buf = bind_r (reliable_header_span buf) (\<lambda>span. Ok (map_option fst span))"

definition set_compact_flag :: "bool \<Rightarrow> u8 \<Rightarrow> u8" where
  "set_compact_flag compact b =
    (if compact then b OR FLAG_COMPACT_RELIABLE_HEADER else b AND NOT FLAG_COMPACT_RELIABLE_HEADER)"

text \<open>The second component is the buffer after the call, which keeps a change made before an error.\<close>

definition rewrite_reliable_header :: "(bytes \<Rightarrow> u32) \<Rightarrow> bytes \<Rightarrow> u8 \<Rightarrow> u32 \<Rightarrow> u32 \<Rightarrow> bool result \<times> bytes" where
  "rewrite_reliable_header crc buf flags sq ack =
    (case reliable_header_span buf of
      Inl e \<Rightarrow> (Err e, buf)
    | Inr None \<Rightarrow> (Ok False, buf)
    | Inr (Some (off, old_len, _)) \<Rightarrow>
        let hdr = \<lparr>rh_flags = flags, rh_seq = sq, rh_ack = ack\<rparr>;
            compact = should_compact_reliable_header hdr;
            data_len = length buf - 4 in
        if reliable_wire_size hdr compact \<noteq> old_len
        then (Err (Unpack ''reliable header rewrite changes wire size''), buf)
        else if saturating_sub data_len off < old_len then (Err (Unpack ''short buffer''), buf)
        else
          let buf = buf[0 := set_compact_flag compact (buf ! 0)];
              buf = take off buf @ write_reliable_header_encoded hdr compact [] @ drop (off + old_len) buf in
          if length buf < 4 then (Err (Unpack ''short buffer''), buf)
          else (Ok True, take data_len buf @ le_bytes 4 (crc (take data_len buf))))"

definition rewrite_reliable_header_owned :: "(bytes \<Rightarrow> u32) \<Rightarrow> bytes \<Rightarrow> u8 \<Rightarrow> u32 \<Rightarrow> u32 \<Rightarrow> bytes option result" where
  "rewrite_reliable_header_owned crc buf flags sq ack =
    bind_r (reliable_header_span buf) (\<lambda>span.
      case span of
        None \<Rightarrow> Ok None
      | Some (off, old_len, _) \<Rightarrow>
          let data_len = length buf - 4 in
          if data_len < off + old_len then Err (Unpack ''short buffer'')
          else
            let hdr = \<lparr>rh_flags = flags, rh_seq = sq, rh_ack = ack\<rparr>;
                compact = should_compact_reliable_header hdr;
                out = take off buf;
                out = out[0 := set_compact_flag compact (out ! 0)];
                out = write_reliable_header_encoded hdr compact out @ drop (off + old_len) (take data_len buf) in
            Ok (Some (out @ le_bytes 4 (crc out))))"

section \<open>Payload encoding for a side\<close>

abbreviation (input) ISIZE_MAX :: nat where "ISIZE_MAX \<equiv> 2 ^ 63 - 1"

definition read_logical_size :: "bytes \<Rightarrow> nat result" where
  "read_logical_size data =
    bind_r (seq_rd (read_bytes 2) (\<lambda>_. seq_rd read_uleb128 (\<lambda>_. read_uleb128)) (reader_new data)) (\<lambda>(v, _). Ok (unat v))"

text \<open>The replacement of the payload, once the work is admitted.\<close>

definition transcode_payload :: "WireEnv \<Rightarrow> u8 \<Rightarrow> bool \<Rightarrow> bytes \<Rightarrow> nat \<Rightarrow> (u8 \<times> bytes) option result" where
  "transcode_payload env flags compressed pl logical =
    (if compressed then
       bind_r (decompress env pl logical) (\<lambda>out. Ok (Some (flags AND NOT FLAG_COMPRESSED_PAYLOAD, out)))
     else if length pl \<noteq> logical then Err (Unpack ''payload length mismatch'')
     else case compress_if_beneficial env pl of
       (False, _) \<Rightarrow> Ok None
     | (True, value) \<Rightarrow> Ok (Some (flags OR FLAG_COMPRESSED_PAYLOAD, value)))"

definition payload_encoding_for_side ::
  "WireEnv \<Rightarrow> bytes \<Rightarrow> bool \<Rightarrow> nat \<Rightarrow> Admission \<Rightarrow> bytes option result \<times> Admission" where
  "payload_encoding_for_side env raw allowed max_decoded_bytes adm =
    (if raw = [] then (Err (Unpack ''short prelude''), adm)
     else
       let flags = raw ! 0; compressed = (flags AND FLAG_COMPRESSED_PAYLOAD \<noteq> 0) in
       if flags AND 0x10 \<noteq> 0 then
         (if compressed \<and> \<not> allowed then Err (Io ''opaque compressed payload requires codec-capable peers'') else Ok None, adm)
       else if \<not> compressed \<and> \<not> allowed then (Ok None, adm)
       else
         case (if compressed then Ok False
               else bind_r (read_logical_size raw) (\<lambda>n. Ok (n < we_threshold env))) of
           Inl e \<Rightarrow> (Err e, adm)
         | Inr True \<Rightarrow> (Ok None, adm)
         | Inr False \<Rightarrow>
             (case bind_r (verify_crc32 (we_crc env) raw) (\<lambda>data.
                bind_r (read_routing_envelope (we_packet env) (reader_new data)) (\<lambda>(e, r).
                bind_r (if re_is_reliable e \<or> re_has_reliable_header e
                        then seq_rd (read_reliable_header_encoded (flags AND FLAG_COMPACT_RELIABLE_HEADER \<noteq> 0)) (\<lambda>_. give ()) r
                        else Ok ((), r)) (\<lambda>(_, r). Ok (data, e, rd_off r)))) of
               Inl e \<Rightarrow> (Err e, adm)
             | Inr (data, e, off) \<Rightarrow>
                 let allowed = (allowed \<and> \<not> is_discovery_type (re_ty e));
                     header = take off data; pl = drop off data in
                 if compressed \<and> allowed \<or> \<not> compressed \<and> \<not> allowed then (Ok None, adm)
                 else case read_logical_size data of
                   Inl e \<Rightarrow> (Err e, adm)
                 | Inr logical \<Rightarrow>
                     if logical > max_decoded_bytes \<or> logical > ISIZE_MAX - length header - 4 then
                       (if \<not> compressed then Ok None else Err (Io ''payload exceeds routing memory budget''), adm)
                     else
                       (case check (saturating_add (saturating_add (saturating_mul logical 2) (saturating_mul (length header) 2)) 64)
                              (saturating_add (saturating_add (saturating_add logical (length header)) 4) 32) adm of
                         (Inl e, adm) \<Rightarrow> (if \<not> compressed then Ok None else Err e, adm)
                       | (Inr _, adm) \<Rightarrow>
                           (bind_r (transcode_payload env flags compressed pl logical) (\<lambda>new.
                              case new of
                                None \<Rightarrow> Ok None
                              | Some (new_flag, new_payload) \<Rightarrow>
                                  Ok (Some (join_frame_with_crc (we_crc env) (header[0 := new_flag]) new_payload))), adm))))"

definition decoded_frame_upper_bound :: "bytes \<Rightarrow> nat result" where
  "decoded_frame_upper_bound raw =
    bind_r (read_logical_size raw) (\<lambda>logical.
      if length raw + logical \<ge> 2 ^ 64 then Err (Io ''memory pressure'') else Ok (length raw + logical))"

definition payload_encoding_for_retention ::
  "WireEnv \<Rightarrow> bytes \<Rightarrow> nat \<Rightarrow> Admission \<Rightarrow> bytes option result \<times> Admission" where
  "payload_encoding_for_retention env raw budget adm =
    (if (case raw of [] \<Rightarrow> False | flags # _ \<Rightarrow> flags AND 0x10 \<noteq> 0) then (Ok None, adm)
     else payload_encoding_for_side env raw False budget adm)"

definition with_plain_packet_parts :: "WireEnv \<Rightarrow> Packet \<Rightarrow> AddressBook \<Rightarrow> (bytes \<times> bytes) result option \<times> AddressBook" where
  "with_plain_packet_parts env pkt book =
    with_packet_frame_parts env pkt
      (if is_reliable_type (env_registry (we_packet env)) (pkt_ty pkt) then Some unsequenced_header else None)
      (pkt_wire_shape pkt) (wire_target_senders pkt) None True book"

section \<open>Receive checks\<close>

definition check_receive_with_role :: "WireEnv \<Rightarrow> bytes \<Rightarrow> bool \<Rightarrow> Admission \<Rightarrow> unit result \<times> Admission" where
  "check_receive_with_role env bs managed adm =
    (if \<not> has_probe adm then (Ok (), adm)
     else
       let frame = (case peek_routing_frame_info env bs of Inl _ \<Rightarrow> None | Inr info \<Rightarrow> Some info);
           ack = (case frame of None \<Rightarrow> False
             | Some info \<Rightarrow> routing_ack_only info \<or>
                 re_ty (rf_envelope info) \<in> set [DT_ReliableAck, DT_ReliablePartialAck, DT_DiscoveryAnnounce]) in
       if \<not> ack \<and> supports_work_kinds adm \<and> length bs \<le> 128 \<and>
          (case bs of [] \<Rightarrow> False | flags # _ \<Rightarrow> flags AND 0x11 = 0) \<and>
          (case frame of None \<Rightarrow> False
           | Some info \<Rightarrow>
               let e = rf_envelope info; owners = length (routing_target_senders e) in
               protected_discovery_request_shape (we_packet env) (re_ty e) (rf_empty_payload info)
                 (routing_endpoints e = [EP_Discovery]) owners (re_wire_shape e) \<or>
               protected_control_shape (we_packet env) (re_ty e) (case bs of _ # n # _ \<Rightarrow> unat n | _ \<Rightarrow> 255) owners
                 (re_wire_shape e) (rf_reliable info \<noteq> None) managed)
       then check_frame_kind (length bs) False WORK_SMALL_PROTECTED adm
       else check_frame (length bs) ack adm)"

definition check_receive :: "WireEnv \<Rightarrow> bytes \<Rightarrow> Admission \<Rightarrow> unit result \<times> Admission" where
  "check_receive env bs adm = check_receive_with_role env bs False adm"

definition check_retained_fragment :: "WireEnv \<Rightarrow> bytes \<Rightarrow> nat option \<Rightarrow> Admission \<Rightarrow> unit result \<times> Admission" where
  "check_retained_fragment env bs retained adm =
    (if supports_work_kinds adm \<and> length bs \<le> 192 \<and> (case retained of Some count \<Rightarrow> count < 64 | None \<Rightarrow> False)
     then check (saturating_add 1280 (length bs)) 1024 adm
     else check_receive env bs adm)"

end
