(* ===== verification/Wire_View.thy ===== *)
theory Wire_View
  imports Wire_Routing
begin

text \<open>
  The header-only view of a frame against the unpacked packet (\<^verbatim>\<open>src/src/wire_format.rs\<close>).
  The endpoint iterator of the routing envelope is compared with the owned endpoint
  list, the borrowed contract with the decoded one, and both with the whole frame.
\<close>

section \<open>The endpoint iterator\<close>

lemma collect_list:
  assumes "re_endpoint_list e = Some bs" "\<not> it_finished it"
  shows "collect_endpoints e it = endpoint_list_from bs (it_list_offset it)"
  using assms
proof (induction e it rule: collect_endpoints.induct)
  case (1 e it)
  obtain res off where rd: "read_u64 bs (it_list_offset it) = (res, off)" by fastforce
  show ?case
  proof (cases "remaining \<lparr>rd_buf = bs, rd_off = it_list_offset it\<rparr> = 0")
    case True
    then show ?thesis
      using 1(2, 3) by (simp add: collect_endpoints.simps [of e it] endpoint_list_from.simps [of bs] routing_endpoint_next_def)
  next
    case False
    then have n: "routing_endpoint_next e it =
        (case res of Inl _ \<Rightarrow> None | Inr v \<Rightarrow> if unat v < 2 ^ 32 then Some (ucast v) else None, it\<lparr>it_list_offset := off\<rparr>)"
      using 1(2, 3) by (simp add: routing_endpoint_next_def rd)
    show ?thesis
    proof (cases "\<exists>v. res = Ok v \<and> unat v < 2 ^ 32")
      case True
      then obtain v where v: "res = Ok v" "unat v < 2 ^ 32" by blast
      then have n': "routing_endpoint_next e it = (Some (ucast v), it\<lparr>it_list_offset := off\<rparr>)" using n by simp
      have "collect_endpoints e (it\<lparr>it_list_offset := off\<rparr>) = endpoint_list_from bs off"
        using 1(1) [OF n' [symmetric] refl] 1(2, 3) by simp
      then show ?thesis
        using False v by (simp add: collect_endpoints.simps [of e it] endpoint_list_from.simps [of bs "it_list_offset it"] n' rd)
    next
      case no: False
      then have "fst (routing_endpoint_next e it) = None" by (auto simp: n split: sum.split)
      moreover have "endpoint_list_from bs (it_list_offset it) = []"
        using no False by (auto simp: endpoint_list_from.simps [of bs "it_list_offset it"] rd split: sum.split)
      ultimately show ?thesis by (auto simp: collect_endpoints.simps [of e it] split: prod.splits)
    qed
  qed
qed

lemma collect_schema:
  assumes "re_endpoint_list e = None" "re_schema_endpoints e = Some eps" "\<not> it_finished it"
  shows "collect_endpoints e it = unique_sorted_from (it_previous it) eps"
  using assms
proof (induction e it rule: collect_endpoints.induct)
  case (1 e it)
  have n: "routing_endpoint_next e it =
      (let next = least_above (it_previous it) eps in (next, it\<lparr>it_previous := next, it_finished := next = None\<rparr>))"
    using 1(2-4) by (simp add: routing_endpoint_next_def)
  show ?case
  proof (cases "least_above (it_previous it) eps")
    case None
    then show ?thesis
      by (simp add: collect_endpoints.simps [of e it] unique_sorted_from.simps [of "it_previous it"] n Let_def)
  next
    case (Some ep)
    then have n': "routing_endpoint_next e it = (Some ep, it\<lparr>it_previous := Some ep, it_finished := False\<rparr>)"
      using n by (simp add: Let_def)
    show ?thesis
      using 1(1) [OF n' [symmetric] refl] 1(2, 3) Some
      by (simp add: collect_endpoints.simps [of e it] unique_sorted_from.simps [of "it_previous it"] n')
  qed
qed

text \<open>Positions of the set bits of a list of words, in ascending order.\<close>

definition word_positions :: "nat \<Rightarrow> u64 list \<Rightarrow> nat list" where
  "word_positions s ws = concat (map (\<lambda>(i, w). map (\<lambda>k. i * 64 + k) (set_bits_loop w)) (enumerate s ws))"

lemma set_bits_loop_0 [simp]: "set_bits_loop (0 :: 'a::len word) = []"
  by (simp add: set_bits_loop.simps)

lemma next_word_positions:
  assumes "word < length bitmap"
  shows "map (\<lambda>k. word * 64 + k) (set_bits_loop bits) @ word_positions (Suc word) (drop (Suc word) bitmap) =
    (case next_word bitmap word bits of
      None \<Rightarrow> []
    | Some (w, b) \<Rightarrow> (w * 64 + trailing_zeros b) # map (\<lambda>k. w * 64 + k) (set_bits_loop (b AND (b - 1))) @
        word_positions (Suc w) (drop (Suc w) bitmap))"
  using assms
proof (induction bitmap word bits rule: next_word.induct)
  case (1 bitmap word bits)
  show ?case
  proof (cases "bits = 0")
    case False
    then show ?thesis
      by (simp add: next_word.simps [of bitmap word] set_bits_loop.simps [of bits])
  next
    case True
    show ?thesis
    proof (cases "Suc word < length bitmap")
      case False
      then show ?thesis
        using True by (simp add: next_word.simps [of bitmap word] word_positions_def)
    next
      case less: True
      then have d: "drop (Suc word) bitmap = bitmap ! Suc word # drop (Suc (Suc word)) bitmap"
        by (simp add: Cons_nth_drop_Suc)
      have "map (\<lambda>k. word * 64 + k) (set_bits_loop bits) @ word_positions (Suc word) (drop (Suc word) bitmap) =
          map (\<lambda>k. Suc word * 64 + k) (set_bits_loop (bitmap ! Suc word)) @
          word_positions (Suc (Suc word)) (drop (Suc (Suc word)) bitmap)"
        using True by (simp add: d word_positions_def)
      also have "\<dots> = (case next_word bitmap (Suc word) (bitmap ! Suc word) of
          None \<Rightarrow> []
        | Some (w, b) \<Rightarrow> (w * 64 + trailing_zeros b) # map (\<lambda>k. w * 64 + k) (set_bits_loop (b AND (b - 1))) @
            word_positions (Suc w) (drop (Suc w) bitmap))"
        using 1 [simplified] True less by simp
      finally show ?thesis
        using True less by (simp add: next_word.simps [of bitmap word])
    qed
  qed
qed

lemma collect_bitmap:
  assumes "re_endpoint_list e = None" "re_schema_endpoints e = None" "\<not> it_finished it" "it_word it < length (re_bitmap e)"
  shows "collect_endpoints e it = map of_nat (map (\<lambda>k. it_word it * 64 + k) (set_bits_loop (it_bits it)) @
    word_positions (Suc (it_word it)) (drop (Suc (it_word it)) (re_bitmap e)))"
  using assms
proof (induction e it rule: collect_endpoints.induct)
  case (1 e it)
  note pos = next_word_positions [OF 1(5), of "it_bits it"]
  show ?case
  proof (cases "next_word (re_bitmap e) (it_word it) (it_bits it)")
    case None
    then have n: "routing_endpoint_next e it = (None, it\<lparr>it_word := length (re_bitmap e), it_bits := 0, it_finished := True\<rparr>)"
      using 1(2-4) by (simp add: routing_endpoint_next_def)
    show ?thesis using pos None by (simp add: collect_endpoints.simps [of e it] n)
  next
    case (Some wb)
    obtain word bits where w: "next_word (re_bitmap e) (it_word it) (it_bits it) = Some (word, bits)"
      using Some by (cases wb) simp
    then have n: "routing_endpoint_next e it = (Some (of_nat (word * 64 + trailing_zeros bits)),
        it\<lparr>it_word := word, it_bits := bits AND (bits - 1)\<rparr>)"
      using 1(2-4) by (simp add: routing_endpoint_next_def)
    have "word < length (re_bitmap e)" using next_word_some(2) [OF w] 1(5) by auto
    then have "collect_endpoints e (it\<lparr>it_word := word, it_bits := bits AND (bits - 1)\<rparr>) =
        map of_nat (map (\<lambda>k. word * 64 + k) (set_bits_loop (bits AND (bits - 1))) @
          word_positions (Suc word) (drop (Suc word) (re_bitmap e)))"
      using 1(1) [OF n [symmetric] refl] 1(2-4) by simp
    then show ?thesis unfolding pos w by (simp add: collect_endpoints.simps [of e it] n)
  qed
qed

lemma routing_endpoints_eq:
  assumes "re_bitmap e \<noteq> []"
  shows "routing_endpoints e =
    (case re_endpoint_list e of
      Some bs \<Rightarrow> endpoint_list_iter bs
    | None \<Rightarrow> (case re_schema_endpoints e of
        Some eps \<Rightarrow> unique_sorted_endpoints eps
      | None \<Rightarrow> map of_nat (word_positions 0 (re_bitmap e))))"
proof -
  let ?it = "routing_iter_start e"
  have it: "\<not> it_finished ?it" "it_word ?it = 0" "it_previous ?it = None" "it_list_offset ?it = 0" "it_bits ?it = re_bitmap e ! 0"
    by (simp_all add: routing_iter_start_def)
  obtain w ws where b: "re_bitmap e = w # ws" using assms by (cases "re_bitmap e") auto
  show ?thesis
    using collect_list [of e _ ?it] collect_schema [of e _ ?it] collect_bitmap [of e ?it] it
    by (auto simp: routing_endpoints_def endpoint_list_iter_def unique_sorted_endpoints_def b word_positions_def
        split: option.split)
qed

section \<open>Words and bytes of the bitmap\<close>

lemma bit_from_le_bytes:
  "bit (from_le_bytes bs :: 'a::len word) i \<longleftrightarrow> i < LENGTH('a) \<and> i div 8 < length bs \<and> bit (bs ! (i div 8)) (i mod 8)"
proof (induction bs arbitrary: i)
  case (Cons b bs)
  show ?case
  proof (cases "i < 8")
    case True
    then show ?thesis by (auto simp: bit_simps dest: bit_imp_le_length)
  next
    case False
    then have d: "i div 8 = Suc ((i - 8) div 8)" "(i - 8) mod 8 = i mod 8"
      using le_div_geq [of 8 i] le_mod_geq [of 8 i] by simp_all
    have "\<not> bit b i" using False bit_imp_le_length [of b i] by auto
    then show ?thesis
      using False Cons.IH [of "i - 8"] by (auto simp: bit_simps d)
  qed
qed simp

lemma chunks8_append: "length c = 8 \<Longrightarrow> chunks8 (c @ bs) = c # chunks8 bs"
  by (subst chunks8.simps) simp

lemma chunks8_nil [simp]: "chunks8 [] = []"
  by (subst chunks8.simps) simp

lemma bitmap_positions_append: "bitmap_positions s (xs @ ys) = bitmap_positions s xs @ bitmap_positions (s + length xs) ys"
  by (simp add: bitmap_positions_def enumerate_append_eq)

lemma chunk_positions:
  assumes "length c = 8"
  shows "map (\<lambda>k. s * 64 + k) (set_bits_loop (from_le_bytes c :: u64)) = bitmap_positions (8 * s) c"
proof -
  have e: "bit (from_le_bytes c :: u64) k \<longleftrightarrow> bit (c ! (k div 8)) (k mod 8)" if "k < 64" for k
    using that assms by (simp add: bit_from_le_bytes less_mult_imp_div_less)
  have "[64 * s..<64 * s + 64] = map (\<lambda>k. s * 64 + k) [0..<64]"
    using map_add_upt [of "64 * s" 64] by (simp add: ac_simps)
  then have "bitmap_positions (8 * s) c =
      map (\<lambda>k. s * 64 + k) (filter ((\<lambda>n. bit (c ! (n div 8 - 8 * s)) (n mod 8)) \<circ> (\<lambda>k. s * 64 + k)) [0..<64])"
    using assms by (simp add: bitmap_positions_eq filter_map)
  also have "filter ((\<lambda>n. bit (c ! (n div 8 - 8 * s)) (n mod 8)) \<circ> (\<lambda>k. s * 64 + k)) [0..<64] =
      filter (bit (from_le_bytes c :: u64)) [0..<64]"
  proof (rule filter_cong [OF refl])
    fix k :: nat
    assume "k \<in> set [0..<64]"
    moreover have "(s * 64 + k) div 8 - 8 * s = k div 8" "(s * 64 + k) mod 8 = k mod 8"
      using div_mult_self1 [of 8 k "s * 8"] mod_mult_self1 [of k "s * 8" 8] by (simp_all add: ac_simps)
    ultimately show "((\<lambda>n. bit (c ! (n div 8 - 8 * s)) (n mod 8)) \<circ> (\<lambda>k. s * 64 + k)) k = bit (from_le_bytes c :: u64) k"
      using e [of k] by simp
  qed
  finally show ?thesis by (simp add: set_bits_loop_eq)
qed

lemma word_positions_bytes:
  assumes "length bs = 8 * n"
  shows "word_positions s (map from_le_bytes (chunks8 bs)) = bitmap_positions (8 * s) bs"
  using assms
proof (induction n arbitrary: s bs)
  case 0
  then show ?case by (simp add: word_positions_def bitmap_positions_def)
next
  case (Suc n)
  define c where "c = take 8 bs"
  define r where "r = drop 8 bs"
  have bs: "bs = c @ r" "length c = 8" "length r = 8 * n" using Suc.prems by (simp_all add: c_def r_def)
  have "word_positions s (map from_le_bytes (chunks8 (c @ r))) =
      map (\<lambda>k. s * 64 + k) (set_bits_loop (from_le_bytes c :: u64)) @ word_positions (Suc s) (map from_le_bytes (chunks8 r))"
    by (simp add: chunks8_append [OF bs(2)] word_positions_def)
  also have "\<dots> = bitmap_positions (8 * s) c @ bitmap_positions (8 * Suc s) r"
    by (simp only: chunk_positions [OF bs(2)] Suc.IH [OF bs(3)])
  finally show ?case by (simp add: bs bitmap_positions_append bs(2) add.commute)
qed

lemma count_ones_positions: "sum_list (map count_ones ws) = length (word_positions s ws)"
  by (induction ws arbitrary: s) (simp_all add: word_positions_def count_ones_def set_bits_loop_eq)

lemma length_chunks8: "length (chunks8 bs) = length bs div 8"
  by (induction bs rule: chunks8.induct) (subst chunks8.simps, simp add: le_div_geq)

section \<open>Endpoint sections\<close>

lemma list_loop_ids:
  assumes "read_list_loop n previous \<lparr>rd_buf = bs, rd_off = off\<rparr> = Ok (x, \<lparr>rd_buf = bs, rd_off = length bs\<rparr>)"
  shows "length (endpoint_list_from bs off) = n \<and>
    sorted_wrt (<) ((case previous of Some p \<Rightarrow> [p] | None \<Rightarrow> []) @ endpoint_list_from bs off)"
  using assms
proof (induction n arbitrary: previous off)
  case 0
  then show ?case by (simp add: endpoint_list_from.simps [of bs] remaining_def split: option.split)
next
  case (Suc n)
  obtain res off' where rd: "read_u64 bs off = (res, off')" by fastforce
  with Suc.prems obtain v where v: "res = Ok v" "unat v < 2 ^ 32"
    and up: "\<not> (case previous of Some p \<Rightarrow> (ucast v :: u32) \<le> p | None \<Rightarrow> False)"
    and rest: "read_list_loop n (Some (ucast v)) \<lparr>rd_buf = bs, rd_off = off'\<rparr> = Ok (x, \<lparr>rd_buf = bs, rd_off = length bs\<rparr>)"
    by (auto simp: seq_rd_ok read_uleb_narrow_def read_uleb128_def bind_r_ok_iff split: if_splits)
  have "off < length bs" using read_u64_progress [of bs off v off'] rd v(1) by simp
  then have "endpoint_list_from bs off = ucast v # endpoint_list_from bs off'"
    using v by (simp add: endpoint_list_from.simps [of bs off] rd remaining_def)
  with Suc.IH [OF rest] up show ?case by (auto split: option.splits)
qed

lemma endpoint_list_ids:
  assumes "read_endpoint_list n \<lparr>rd_buf = buf, rd_off = off\<rparr> = Ok (bs, r')" "off \<le> length buf"
  shows "length (endpoint_list_iter bs) = n \<and> sorted_wrt (<) (endpoint_list_iter bs)"
proof -
  obtain x r1 where 1: "read_list_loop n None \<lparr>rd_buf = buf, rd_off = off\<rparr> = Ok (x, r1)"
    and b: "bs = take (rd_off r1 - off) (drop off (rd_buf r1))"
    using assms(1) by (auto simp: read_endpoint_list_def bind_r_ok_iff)
  have sp: "buf = take off buf @ drop off buf" "off = length (take off buf)" using assms(2) by simp_all
  obtain xs post where x: "drop off buf = xs @ post" "r1 = \<lparr>rd_buf = buf, rd_off = length (take off buf @ xs)\<rparr>"
      "decodes (read_list_loop n None) xs x"
    by (rule contextualE [OF contextual_list_loop 1 sp])
  have "bs = xs" using x(1, 2) assms(2) b by simp
  with decodes_start [OF x(3), of "[]"] have
    "read_list_loop n None \<lparr>rd_buf = bs, rd_off = 0\<rparr> = Ok (x, \<lparr>rd_buf = bs, rd_off = length bs\<rparr>)"
    by (simp add: reader_new_def)
  from list_loop_ids [OF this] show ?thesis by (simp add: endpoint_list_iter_def)
qed

lemma words_exist:
  "list_all (\<lambda>(index, word). list_all (\<lambda>k. P (index * 64 + k)) (set_bits_loop word)) (enumerate s ws) \<longleftrightarrow>
    list_all P (word_positions s ws)"
  by (induction ws arbitrary: s) (simp_all add: word_positions_def list.pred_map comp_def)

lemma bitmap_positions_sorted:
  assumes "length bm = EP_BITMAP_BYTES"
  shows "sorted_wrt (<) (map of_nat (bitmap_positions 0 bm) :: DataEndpoint list)"
proof -
  have p: "bitmap_positions 0 bm = filter (\<lambda>n. bit (bm ! (n div 8)) (n mod 8)) [0..<256]"
    using bitmap_positions_eq [of 0 bm] assms by (simp add: EP_BITMAP_BYTES_def)
  have "sorted_wrt (<) (bitmap_positions 0 bm)" by (simp add: p sorted_wrt_filter)
  moreover have small: "take_bit 32 n = n" if "n \<in> set (bitmap_positions 0 bm)" for n
    using that by (intro take_bit_nat_eq_self) (auto simp: p)
  show ?thesis
    unfolding sorted_wrt_map
    by (rule sorted_wrt_mono_rel [OF _ calculation]) (simp add: word_less_nat_alt unsigned_of_nat small)
qed

lemma routing_bitmap_agrees:
  assumes "read_bytes EP_BITMAP_BYTES r = Ok (bm, r')" "expand_endpoint_bitmap env bm = Ok eps" "length eps = nep"
  shows "read_routing_bitmap env nep r = Ok (map from_le_bytes (chunks8 bm), r')"
    and "map of_nat (word_positions 0 (map from_le_bytes (chunks8 bm))) = eps"
    and "map from_le_bytes (chunks8 bm) \<noteq> ([] :: u64 list)"
proof -
  have len: "length bm = EP_BITMAP_BYTES"
    using assms(2) by (auto simp: expand_endpoint_bitmap_def split: if_splits)
  then have p: "word_positions 0 (map from_le_bytes (chunks8 bm)) = bitmap_positions 0 bm"
    using word_positions_bytes [of bm 4 0] by (simp add: EP_BITMAP_BYTES_def)
  have eps: "eps = map of_nat (bitmap_positions 0 bm)" "list_all (endpoint_exists (env_registry env)) eps"
    using assms(2) by (auto simp: expand_endpoint_bitmap_eq [OF len] Let_def split: if_splits)
  show "map of_nat (word_positions 0 (map from_le_bytes (chunks8 bm))) = eps" by (simp add: p eps(1))
  show "map from_le_bytes (chunks8 bm) \<noteq> ([] :: u64 list)"
    using length_chunks8 [of bm] len by (auto simp: EP_BITMAP_BYTES_def)
  have "list_all (\<lambda>n. endpoint_exists (env_registry env) (of_nat n)) (word_positions 0 (map from_le_bytes (chunks8 bm)))"
    using eps by (simp add: p list_all_iff)
  moreover have "sum_list (map count_ones (map from_le_bytes (chunks8 bm))) = nep"
    using assms(3) by (simp only: count_ones_positions [of _ 0] p eps(1) length_map)
  ultimately show "read_routing_bitmap env nep r = Ok (map from_le_bytes (chunks8 bm), r')"
    unfolding read_routing_bitmap_def seq_rd_def assms(1) bind_r_simps prod.case Let_def
      words_exist [where P = "\<lambda>n. endpoint_exists (env_registry env) (of_nat n)"]
    by (simp only: give_def if_False if_True not_True_eq_False refl)
qed

lemma schema_endpoints_unique:
  assumes "schema_endpoints_from_type env ty nep = Ok eps"
  shows "eps = unique_sorted_endpoints (mm_endpoints (message_meta env ty))" "length eps = nep"
  using assms
  by (auto simp: schema_endpoints_from_type_def endpoint_arc_from_iter_def ascending_unique_sorted Let_def split: if_splits)

lemma endpoints_from_list:
  assumes "endpoints_from_wire_or_schema env bm True ty nep r = Ok (eps, r')"
  obtains bs where "\<not> bm" "read_endpoint_list nep r = Ok (bs, r')" "eps = endpoint_list_iter bs"
proof -
  from assms obtain bs r1 where bs: "\<not> bm" "read_endpoint_list nep r = Ok (bs, r1)"
    and c: "(case Option.bind ty (try_get_message_meta (env_registry env)) of
        Some meta \<Rightarrow> if endpoint_list_iter bs = mm_endpoints meta then Ok (mm_endpoints meta, r1)
          else bind_r (endpoint_arc_from_iter nep (endpoint_list_iter bs)) (\<lambda>eps. Ok (eps, r1))
      | None \<Rightarrow> bind_r (endpoint_arc_from_iter nep (endpoint_list_iter bs)) (\<lambda>eps. Ok (eps, r1))) = Ok (eps, r')"
    by (auto simp: endpoints_from_wire_or_schema_def seq_rd_ok split: if_splits)
  have "eps = endpoint_list_iter bs \<and> r' = r1"
    using c by (cases "Option.bind ty (try_get_message_meta (env_registry env))")
      (auto simp: bind_r_ok_iff endpoint_arc_from_iter_def split: if_splits)
  with bs show thesis by (intro that) simp_all
qed

text \<open>The borrowed endpoint section describes the same endpoints as the owned one.\<close>

lemma routing_endpoints_agree:
  assumes "endpoints_from_wire_or_schema env (flags AND FLAG_ENDPOINT_BITMAP_PRESENT \<noteq> 0)
      (flags AND FLAG_ENDPOINT_LIST_PRESENT \<noteq> 0) (try_from_u32 env ty) nep \<lparr>rd_buf = buf, rd_off = off\<rparr> = Ok (eps, r')"
    and "off \<le> length buf"
  obtains bitmap lst schema where
    "read_routing_endpoints env flags nep ty \<lparr>rd_buf = buf, rd_off = off\<rparr> = Ok ((bitmap, lst, schema), r')"
    "\<And>e. re_bitmap e = bitmap \<Longrightarrow> re_endpoint_list e = lst \<Longrightarrow> re_schema_endpoints e = schema \<Longrightarrow> routing_endpoints e = eps"
    "length eps = nep" "sorted_wrt (<) eps"
proof (cases "flags AND FLAG_ENDPOINT_LIST_PRESENT \<noteq> 0")
  case True
  then have "endpoints_from_wire_or_schema env (flags AND FLAG_ENDPOINT_BITMAP_PRESENT \<noteq> 0) True
      (try_from_u32 env ty) nep \<lparr>rd_buf = buf, rd_off = off\<rparr> = Ok (eps, r')"
    using assms(1) by simp
  then obtain bs where nb: "\<not> flags AND FLAG_ENDPOINT_BITMAP_PRESENT \<noteq> 0"
    and rd: "read_endpoint_list nep \<lparr>rd_buf = buf, rd_off = off\<rparr> = Ok (bs, r')" and "eps = endpoint_list_iter bs"
    by (rule endpoints_from_list)
  then show thesis
    using that [of "replicate 4 0" "Some bs" None] endpoint_list_ids [OF rd assms(2)] True
    by (simp add: read_routing_endpoints_def seq_rd_def rd give_def routing_endpoints_eq)
next
  case nolist: False
  show thesis
  proof (cases "flags AND FLAG_ENDPOINT_BITMAP_PRESENT \<noteq> 0")
    case True
    with assms(1) nolist obtain bm r1 where rd: "read_bytes EP_BITMAP_BYTES \<lparr>rd_buf = buf, rd_off = off\<rparr> = Ok (bm, r1)"
      and ex: "expand_endpoint_bitmap env bm = Ok eps" and n: "length eps = nep" and r: "r' = r1"
      by (auto simp: endpoints_from_wire_or_schema_def seq_rd_ok bind_r_ok_iff split: if_splits)
    note bmp = routing_bitmap_agrees [OF rd ex n]
    have len: "length bm = EP_BITMAP_BYTES" using ex by (auto simp: expand_endpoint_bitmap_def split: if_splits)
    have "sorted_wrt (<) eps"
      using ex bitmap_positions_sorted [OF len] by (auto simp: expand_endpoint_bitmap_eq [OF len] Let_def split: if_splits)
    then show thesis
      using that [of "map from_le_bytes (chunks8 bm)" None None] bmp nolist True n r
      by (simp del: map_map add: read_routing_endpoints_def seq_rd_def bmp(1) give_def routing_endpoints_eq)
  next
    case False
    with assms(1) nolist have ty: "try_from_u32 env ty = Some ty"
      and sc: "schema_endpoints_from_type env ty nep = Ok eps" and r: "r' = \<lparr>rd_buf = buf, rd_off = off\<rparr>"
      by (auto simp: endpoints_from_wire_or_schema_def bind_r_ok_iff try_from_u32_def split: if_splits option.splits)
    from ty obtain meta where m: "try_get_message_meta (env_registry env) ty = Some meta"
      "mm_endpoints (message_meta env ty) = mm_endpoints meta"
      by (cases "try_get_message_meta (env_registry env) ty")
        (auto simp: try_from_u32_def data_type_exists_def try_get_message_meta_def get_message_meta_def list_ex_iff
          find_None_iff split: if_splits)
    then show thesis
      using that [of "replicate 4 0" None "Some (mm_endpoints meta)"] schema_endpoints_unique [OF sc] nolist False r
      by (simp add: read_routing_endpoints_def give_def routing_endpoints_eq)
  qed
qed

section \<open>Contracts\<close>

lemma read_bytes_append:
  assumes "read_bytes m r = Ok (a, r1)" "read_bytes n r1 = Ok (b, r2)"
  shows "read_bytes (m + n) r = Ok (a @ b, r2)" "length a = m"
proof -
  have 1: "m \<le> remaining r" "a = take m (drop (rd_off r) (rd_buf r))" "r1 = r\<lparr>rd_off := rd_off r + m\<rparr>"
    using assms(1) by (auto simp: read_bytes_def split: if_splits)
  have 2: "n \<le> remaining r1" "b = take n (drop (rd_off r1) (rd_buf r1))" "r2 = r1\<lparr>rd_off := rd_off r1 + n\<rparr>"
    using assms(2) by (auto simp: read_bytes_def split: if_splits)
  show "read_bytes (m + n) r = Ok (a @ b, r2)"
    using 1 2 by (simp add: read_bytes_def remaining_def take_add add.commute add.left_commute)
  show "length a = m" using 1 by (simp add: remaining_def)
qed

lemma read_targets_bytes:
  assumes "read_targets n r = Ok (ts, r')"
  shows "\<exists>bs. read_bytes (n * 8) r = Ok (bs, r') \<and> map from_le_bytes (chunks8 bs) = ts"
  using assms
proof (induction n arbitrary: r ts)
  case 0
  then show ?case by (simp add: read_bytes_def)
next
  case (Suc n)
  then obtain b r1 us where 1: "read_bytes 8 r = Ok (b, r1)" and us: "read_targets n r1 = Ok (us, r')"
    and ts: "ts = from_le_bytes b # us"
    by (auto simp: seq_rd_ok)
  from Suc.IH [OF us] obtain bs where bs: "read_bytes (n * 8) r1 = Ok (bs, r')" "map from_le_bytes (chunks8 bs) = us"
    by blast
  note both = read_bytes_append [OF 1 bs(1)]
  show ?case using both bs(2) ts chunks8_append [of b bs] by (intro exI [of _ "b @ bs"]) (simp add: add.commute)
qed

lemma decode_targets_bytes:
  assumes "decode_targets r = Ok (ts, r')" "length (rd_buf r) < 2 ^ 64"
  shows "\<exists>bs. seq_rd read_uleb128 (\<lambda>count.
      if unat count * 8 \<ge> 2 ^ 64 then fail_rd (Unpack ''wire contract target count'')
      else read_bytes (unat count * 8)) r = Ok (bs, r') \<and>
    map from_le_bytes (chunks8 bs) = (case ts of Some ts \<Rightarrow> ts | None \<Rightarrow> [])"
proof -
  obtain n r1 where n: "read_uleb128 r = Ok (n, r1)" "unat n \<le> remaining r1 div 8"
    and t: "n = 0 \<and> ts = None \<and> r' = r1 \<or> n \<noteq> 0 \<and> (\<exists>us. read_targets (unat n) r1 = Ok (us, r') \<and> ts = Some us)"
    using assms(1) by (auto simp: decode_targets_def seq_rd_ok split: if_splits)
  have "rd_buf r1 = rd_buf r" using n(1) by (auto simp: read_uleb128_def bind_r_ok_iff split: prod.splits)
  then have "remaining r1 < 2 ^ 64" using assms(2) by (simp add: remaining_def)
  then have lt: "\<not> unat n * 8 \<ge> 2 ^ 64" using n(2) by linarith
  have "\<exists>bs. read_bytes (unat n * 8) r1 = Ok (bs, r') \<and> map from_le_bytes (chunks8 bs) = (case ts of Some ts \<Rightarrow> ts | None \<Rightarrow> [])"
    using t read_targets_bytes [of "unat n" r1 _ r'] by (auto simp: read_bytes_def)
  then show ?thesis using lt by (simp add: seq_rd_def n(1))
qed

lemma keeps_buffer:
  "read_byte r = Ok (b, r') \<Longrightarrow> rd_buf r' = rd_buf r"
  "read_uleb128 r = Ok (n, r') \<Longrightarrow> rd_buf r' = rd_buf r"
  "decode_wire_shape r = Ok (s, r') \<Longrightarrow> rd_buf r' = rd_buf r"
proof -
  show 1: "read_byte r = Ok (b, r') \<Longrightarrow> rd_buf r' = rd_buf r" for r b r'
    by (auto simp: read_byte_def seq_rd_ok read_bytes_def split: if_splits)
  show 2: "read_uleb128 r = Ok (n, r') \<Longrightarrow> rd_buf r' = rd_buf r" for r n r'
    by (auto simp: read_uleb128_def bind_r_ok_iff split: prod.splits)
  show "decode_wire_shape r = Ok (s, r') \<Longrightarrow> rd_buf r' = rd_buf r"
    unfolding decode_wire_shape_def
    by (elim seq_rdE) (auto simp: seq_rd_ok split: option.splits if_splits dest!: 1 2)
qed

lemma routing_contract_body_agrees:
  assumes "decode_contract_body r = Ok (c, r')" "length (rd_buf r) < 2 ^ 64"
  shows "\<exists>bs. read_routing_contract_body r = Ok ((wc_shape c, bs, wc_has_reliable_header c), r') \<and>
    map from_le_bytes (chunks8 bs) = (case wc_target_senders c of Some ts \<Rightarrow> ts | None \<Rightarrow> [])"
proof -
  obtain flags r1 shape r2 targets where
    1: "read_byte r = Ok (flags, r1)" and
    2: "(if flags AND CONTRACT_FLAG_SHAPE \<noteq> 0 then seq_rd decode_wire_shape (\<lambda>s. give (Some s)) else give None) r1 = Ok (shape, r2)" and
    3: "(if flags AND CONTRACT_FLAG_TARGETS \<noteq> 0 then decode_targets else give None) r2 = Ok (targets, r')" and
    c: "remaining r' = 0" "c = \<lparr>wc_shape = shape, wc_target_senders = targets,
      wc_has_reliable_header = (flags AND CONTRACT_FLAG_RELIABLE_HEADER \<noteq> 0)\<rparr>"
    using assms(1) unfolding decode_contract_body_def
    by (elim seq_rdE) (rule that, assumption+, auto split: if_splits)
  have "rd_buf r2 = rd_buf r"
    using 2 keeps_buffer(1) [OF 1] by (auto simp: seq_rd_ok dest!: keeps_buffer(3) split: if_splits)
  then have len: "length (rd_buf r2) < 2 ^ 64" using assms(2) by simp
  have "\<exists>bs. (if flags AND CONTRACT_FLAG_TARGETS \<noteq> 0
        then seq_rd read_uleb128 (\<lambda>count.
          if unat count * 8 \<ge> 2 ^ 64 then fail_rd (Unpack ''wire contract target count'')
          else read_bytes (unat count * 8))
        else give []) r2 = Ok (bs, r') \<and>
      map from_le_bytes (chunks8 bs) = (case targets of Some ts \<Rightarrow> ts | None \<Rightarrow> [])"
  proof (cases "flags AND CONTRACT_FLAG_TARGETS \<noteq> 0")
    case True
    then show ?thesis using 3 decode_targets_bytes [OF _ len, of targets r'] by (simp only: not_False_eq_True if_True)
  next
    case False
    then show ?thesis using 3 by (simp only: if_False) (auto simp: give_def)
  qed
  then obtain bs where t: "(if flags AND CONTRACT_FLAG_TARGETS \<noteq> 0
        then seq_rd read_uleb128 (\<lambda>count.
          if unat count * 8 \<ge> 2 ^ 64 then fail_rd (Unpack ''wire contract target count'')
          else read_bytes (unat count * 8))
        else give []) r2 = Ok (bs, r')"
    "map from_le_bytes (chunks8 bs) = (case targets of Some ts \<Rightarrow> ts | None \<Rightarrow> [])"
    by blast
  have "read_routing_contract_body r = Ok ((shape, bs, flags AND CONTRACT_FLAG_RELIABLE_HEADER \<noteq> 0), r')"
    unfolding read_routing_contract_body_def by (simp only: seq_rd_step 1 2 t(1) c(1) refl not_True_eq_False if_False)
  then show ?thesis using t(2) by (intro exI [of _ bs]) (simp add: c(2))
qed

lemma routing_contract_agrees:
  assumes "decode_wire_contract (flags AND FLAG_WIRE_CONTRACT \<noteq> 0) r = Ok (c, r')" "length (rd_buf r) < 2 ^ 64"
  shows "\<exists>bs. read_routing_contract flags r = Ok ((wc_shape c, bs, wc_has_reliable_header c), r') \<and>
    map from_le_bytes (chunks8 bs) = (case wc_target_senders c of Some ts \<Rightarrow> ts | None \<Rightarrow> [])"
proof (cases "flags AND FLAG_WIRE_CONTRACT \<noteq> 0")
  case False
  then show ?thesis
    using assms(1) by (auto simp: decode_wire_contract_def read_routing_contract_def give_def)
next
  case True
  then obtain n r1 cb r2 x where 1: "read_uleb128 r = Ok (n, r1)" and 2: "read_bytes (unat n) r1 = Ok (cb, r')"
    and b: "decode_contract_body (reader_new cb) = Ok (c, x)"
    using assms(1) by (auto simp: decode_wire_contract_def seq_rd_ok bind_r_ok_iff)
  have "length cb \<le> length (rd_buf r1)" using 2 by (auto simp: read_bytes_def split: if_splits)
  then have "length (rd_buf (reader_new cb)) < 2 ^ 64"
    using assms(2) keeps_buffer(2) [OF 1] by (simp add: reader_new_def)
  from routing_contract_body_agrees [OF b this] show ?thesis
    using True by (auto simp: read_routing_contract_def seq_rd_def 1 2)
qed

section \<open>Whole frames\<close>

lemma contextual_frame_header [contextual_intros]: "contextual read_frame_header"
  unfolding read_frame_header_def by (intro contextual_intros)

lemma nonce_skip:
  assumes "(if c then read_uleb_narrow msg else give 0) r = Ok (n :: u16, r')"
  shows "(if c then seq_rd read_uleb128 (\<lambda>_. give ()) else give ()) r = Ok ((), r')"
proof (cases c)
  case True
  then obtain v where "read_uleb128 r = Ok (v, r')"
    using assms by (auto simp: read_uleb_narrow_def seq_rd_ok split: if_splits)
  then show ?thesis using True by (simp add: seq_rd_def give_def)
qed (use assms in \<open>simp add: give_def\<close>)

lemma routing_prelude_agrees:
  assumes "read_frame_header r = Ok (h, r')"
  shows "read_routing_prelude r = Ok ((fh_flags h, fh_nep h, fh_ty h, fh_dsz h = 0, fh_ts h, fh_source h), r')"
proof -
  obtain flags r1 nep r2 ty r3 dsz r4 ts r5 nonce r6 source where
    1: "read_byte r = Ok (flags, r1)" and 2: "read_byte r1 = Ok (nep, r2)" and 3: "read_uleb128 r2 = Ok (ty, r3)" and
    4: "read_uleb128 r3 = Ok (dsz, r4)" and 5: "read_uleb128 r4 = Ok (ts, r5)" and
    6: "(if flags AND FLAG_PACKET_NONCE \<noteq> 0 then read_uleb_narrow ''packet nonce too large'' else give 0) r5 = Ok (nonce, r6)" and
    7: "read_uleb_narrow ''source address too large'' r6 = Ok (source, r')" and
    h: "h = \<lparr>fh_flags = flags, fh_nep = unat nep, fh_ty = ty, fh_dsz = unat dsz, fh_ts = ts, fh_nonce = nonce, fh_source = source\<rparr>"
    using assms unfolding read_frame_header_def by (elim seq_rdE) (rule that, assumption+, auto)
  show ?thesis
    unfolding read_routing_prelude_def
    by (simp only: seq_rd_step 1 2 3 4 5 nonce_skip [OF 6] 7) (simp add: h give_def unsigned_eq_0_iff)
qed

lemma first_byte:
  assumes "read_frame_header (reader_new data) = Ok (h, r')"
  shows "data ! 0 = fh_flags h" "data \<noteq> []" "2 \<le> length data"
proof -
  obtain flags r1 nep r2 where "read_byte (reader_new data) = Ok (flags, r1)" "read_byte r1 = Ok (nep, r2)" "fh_flags h = flags"
    using assms unfolding read_frame_header_def by (elim seq_rdE) (rule that, assumption+, auto)
  then show "data ! 0 = fh_flags h" "data \<noteq> []" "2 \<le> length data"
    by (auto simp: read_byte_def seq_rd_ok read_bytes_def remaining_def reader_new_def hd_conv_nth split: if_splits)
qed

text \<open>What an accepted header gives to the header-only reader.\<close>

lemma envelope_agrees:
  assumes parse: "parse_frame env (reader_new data) = Ok (pf, r)" and ne: "pf_eps pf \<noteq> []" and len: "length data < 2 ^ 64"
  obtains e r0 r1 where
    "read_routing_envelope env (reader_new data) = Ok (e, r0)" "read_frame_header (reader_new data) = Ok (pf_header pf, r1)"
    "re_ty e = pf_ty pf" "routing_endpoints e = pf_eps pf" "sorted_wrt (<) (pf_eps pf)"
    "re_source_address e = fh_source (pf_header pf)" "re_timestamp_ms e = fh_ts (pf_header pf)"
    "re_wire_shape e = wc_shape (pf_contract pf)"
    "routing_target_senders e = (case wc_target_senders (pf_contract pf) of Some ts \<Rightarrow> ts | None \<Rightarrow> [])"
    "read_packet_reliable (re_is_reliable e \<or> re_has_reliable_header e)
      (fh_flags (pf_header pf) AND FLAG_COMPACT_RELIABLE_HEADER \<noteq> 0) r0 = Ok (pf_reliable pf, r)"
proof -
  obtain h r1 ty where 1: "read_frame_header (reader_new data) = Ok (h, r1)"
    and ty: "data_type_id_from_wire (fh_ty h) = Ok ty" and sec: "parse_sections env h ty r1 = Ok (pf, r)"
    using parse by (auto simp: parse_frame_def seq_rd_ok bind_r_ok_iff Let_def split: if_splits)
  obtain xs post where x: "data = xs @ post" "r1 = \<lparr>rd_buf = data, rd_off = length xs\<rparr>"
    by (rule contextual_start [OF contextual_frame_header 1])
  obtain eps r2 c r3 where
    2: "endpoints_from_wire_or_schema env (fh_flags h AND FLAG_ENDPOINT_BITMAP_PRESENT \<noteq> 0)
      (fh_flags h AND FLAG_ENDPOINT_LIST_PRESENT \<noteq> 0) (try_from_u32 env ty) (fh_nep h) r1 = Ok (eps, r2)" and
    3: "decode_wire_contract (fh_flags h AND FLAG_WIRE_CONTRACT \<noteq> 0) r2 = Ok (c, r3)" and
    k: "(case (case try_from_u32 env ty of Some t \<Rightarrow> Some t | None \<Rightarrow> map_option (\<lambda>_. ty) (wc_shape c)) of
         None \<Rightarrow> fail_rd InvalidType
       | Some ty \<Rightarrow>
           seq_rd (read_packet_reliable (fh_flags h AND FLAG_RELIABLE_HEADER_PRESENT \<noteq> 0 \<or> wc_has_reliable_header c)
             (fh_flags h AND FLAG_COMPACT_RELIABLE_HEADER \<noteq> 0)) (\<lambda>rel.
             give \<lparr>pf_header = h, pf_ty = ty, pf_eps = eps, pf_contract = c, pf_reliable = rel\<rparr>)) r3 = Ok (pf, r)"
    using sec unfolding parse_sections_def Let_def by (elim seq_rdE) (rule that, assumption+)
  have "(case try_from_u32 env ty of Some t \<Rightarrow> Some t | None \<Rightarrow> map_option (\<lambda>_. ty) (wc_shape c)) = Some ty"
    using k by (auto simp: try_from_u32_def split: option.splits if_splits)
  with k obtain rel where
    4: "read_packet_reliable (fh_flags h AND FLAG_RELIABLE_HEADER_PRESENT \<noteq> 0 \<or> wc_has_reliable_header c)
      (fh_flags h AND FLAG_COMPACT_RELIABLE_HEADER \<noteq> 0) r3 = Ok (rel, r)" and
    pf: "pf = \<lparr>pf_header = h, pf_ty = ty, pf_eps = eps, pf_contract = c, pf_reliable = rel\<rparr>"
    by (simp only: option.case) (auto simp only: seq_rd_ok give_ok prod.inject)
  obtain bitmap lst schema where ep: "read_routing_endpoints env (fh_flags h) (fh_nep h) ty r1 = Ok ((bitmap, lst, schema), r2)"
    "\<And>e. re_bitmap e = bitmap \<Longrightarrow> re_endpoint_list e = lst \<Longrightarrow> re_schema_endpoints e = schema \<Longrightarrow> routing_endpoints e = eps"
    "length eps = fh_nep h" "sorted_wrt (<) eps"
    using routing_endpoints_agree [of env "fh_flags h" ty "fh_nep h" data "length xs" eps r2] 2 x by auto
  obtain ys post' where y: "r2 = \<lparr>rd_buf = data, rd_off = length (xs @ ys)\<rparr>"
    by (rule contextualE [OF contextual_endpoints 2 [unfolded x(2)] x(1) refl])
  obtain bs where con: "read_routing_contract (fh_flags h) r2 = Ok ((wc_shape c, bs, wc_has_reliable_header c), r3)"
    "map from_le_bytes (chunks8 bs) = (case wc_target_senders c of Some ts \<Rightarrow> ts | None \<Rightarrow> [])"
    using routing_contract_agrees [OF 3] y len by auto
  define e where "e = \<lparr>re_ty = ty, re_bitmap = bitmap, re_endpoint_list = lst, re_schema_endpoints = schema,
    re_source_address = fh_source h, re_timestamp_ms = fh_ts h, re_wire_shape = wc_shape c,
    re_is_reliable = (fh_flags h AND FLAG_RELIABLE_HEADER_PRESENT \<noteq> 0), re_payload_is_empty = (fh_dsz h = 0),
    re_targets = bs, re_has_reliable_header = wc_has_reliable_header c\<rparr>"
  have nep: "fh_nep h \<noteq> 0" using ne by (simp add: pf ep(3) [symmetric])
  have chk: "check_no_endpoints (fh_flags h) (fh_nep h) b r3 = Ok ((), r3)" for b
    by (simp add: check_no_endpoints_def nep)
  have env: "read_routing_envelope env (reader_new data) = Ok (e, r3)"
    unfolding read_routing_envelope_def
    by (simp only: seq_rd_step routing_prelude_agrees [OF 1] prod.case ty bind_r_simps Let_def ep(1) con(1) chk)
      (simp add: give_def e_def)
  show thesis
    by (rule that [OF env, of r1])
      (use 1 4 ep con in \<open>simp_all add: pf e_def routing_target_senders_def\<close>)
qed

lemma unpack_inversion:
  assumes "unpack_packet_with_role env book buf managed adm = (Ok pkt, adm')"
  obtains data pf r adm1 pl where
    "verify_crc32 (we_crc env) buf = Ok data" "parse_frame (we_packet env) (reader_new data) = Ok (pf, r)"
    "fst (admit_payload (we_packet env) managed (length buf) pf (remaining r) adm) = Ok ()"
    "decode_payload env data pf r adm1 = (Ok pl, adm')"
    "new_with_owned_wire_contract (we_packet env) (pf_ty pf) (pf_eps pf)
       (sender_name_for_address book (fh_source (pf_header pf))) (fh_ts (pf_header pf)) (fh_nonce (pf_header pf)) pl
       (wc_shape (pf_contract pf)) (wc_target_senders (pf_contract pf)) = Ok pkt"
  using assms unfolding unpack_packet_with_role_def
  by (auto split: sum.splits if_splits prod.splits)

lemma decode_payload_ok:
  assumes "decode_payload env data pf r adm = (Ok pl, adm')"
  obtains wire r' bs where
    "read_payload_wire env data (fh_flags (pf_header pf)) (fh_dsz (pf_header pf)) r = Ok (wire, r')"
    "(if fh_flags (pf_header pf) AND FLAG_COMPRESSED_PAYLOAD \<noteq> 0 then decompress env wire (fh_dsz (pf_header pf))
      else if length wire \<noteq> fh_dsz (pf_header pf) then Err (Unpack ''payload length mismatch'') else Ok wire) = Ok bs"
    "pl = small_payload_new (we_packet env) bs" "length bs = fh_dsz (pf_header pf)"
proof -
  from assms obtain wire r' where w: "read_payload_wire env data (fh_flags (pf_header pf)) (fh_dsz (pf_header pf)) r = Ok (wire, r')"
    by (auto simp: decode_payload_def Let_def split: sum.splits)
  show thesis
  proof (cases "fh_flags (pf_header pf) AND FLAG_COMPRESSED_PAYLOAD \<noteq> 0")
    case True
    then obtain bs where "decompress env wire (fh_dsz (pf_header pf)) = Ok bs" "pl = small_payload_new (we_packet env) bs"
      using assms by (auto simp: decode_payload_def w Let_def split: sum.splits prod.splits)
    then show thesis
      using True by (intro that [OF w]) (auto simp: decompress_def split: option.splits if_splits)
  next
    case False
    then show thesis
      using assms by (intro that [OF w, of wire]) (auto simp: decode_payload_def w Let_def split: if_splits)
  qed
qed

lemma new_packet_fields:
  assumes "new_with_owned_wire_contract env ty eps sender ts nonce pl shape targets = Ok pkt"
  shows "pkt = \<lparr>pkt_ty = ty, pkt_data_size = payload_len pl, pkt_sender = sender, pkt_endpoints = eps, pkt_timestamp = ts,
      pkt_nonce = nonce, pkt_payload = pl, pkt_wire_shape = shape, pkt_wire_target_senders = targets\<rparr>" "eps \<noteq> []"
  using assms by (auto simp: new_with_owned_wire_contract_def bind_r_ok_iff Let_def split: if_splits)

lemma sorted_unique_sorted: "sorted_wrt (<) eps \<Longrightarrow> unique_sorted_endpoints eps = eps"
  by (rule ascending_unique_sorted) (simp add: ascending_iff)

lemma hash_wire_id_eq:
  assumes "sorted_wrt (<) (pkt_endpoints pkt)"
  shows "packet_id pkt = hash_wire_id (sender_address_u32 (pkt_sender pkt)) (pkt_ty pkt) (pkt_endpoints pkt)
    (pkt_timestamp pkt) (pkt_nonce pkt) (pkt_data_size pkt) (payload pkt)"
  by (simp add: packet_id_def packet_id_header_eq hash_wire_id_def sorted_unique_sorted [OF assms] Let_def)

lemma id_payload_agrees:
  assumes "read_payload_wire env data flags dsz r = Ok (wire, r')"
    and "flags AND FLAG_COMPRESSED_PAYLOAD \<noteq> 0 \<Longrightarrow> wire \<noteq> []"
  shows "id_payload_wire env data flags dsz r = Ok (wire, r')"
proof -
  have "\<not> remaining r < dsz" if "read_bytes dsz r = Ok (wire, r')"
    using that by (auto simp: read_bytes_def split: if_splits)
  moreover have "\<not> remaining r < 1" if "read_bytes (remaining r) r = Ok (wire, r')" "wire \<noteq> []"
    using that by (auto simp: read_bytes_def split: if_splits)
  ultimately show ?thesis
    using assms by (auto simp: read_payload_wire_def id_payload_wire_def split: if_splits)
qed

lemma read_frame_reliable_ok:
  assumes "read_packet_reliable (re_is_reliable e \<or> re_has_reliable_header e) (data ! 0 AND FLAG_COMPACT_RELIABLE_HEADER \<noteq> 0) r =
    Ok (rel, r')"
  shows "read_frame_reliable data e r = Ok (rel, r')" "\<not> header_ack_only rel"
  using assms
  by (auto simp: read_packet_reliable_def read_frame_reliable_def header_ack_only_def seq_rd_ok seq_rd_def give_def
      bind_r_ok_iff split: if_splits)

section \<open>Properties\<close>

text \<open>C3: on every frame the unpacker accepts, the header-only view shows what the unpacked packet
  has: type, endpoints, sender, timestamp, shape and target senders, and the packet ID
  computed from the wire is the ID of the packet.  The one exception is a compressed frame
  of an empty payload, for which only the ID may be refused.\<close>

theorem peek_agrees_with_unpack:
  assumes "unpack_packet_with_role env book buf managed adm = (Ok pkt, adm')" and "length buf < 2 ^ 64"
    and "book_ok book" and "\<forall>n out. we_decompress env [] n = Some out \<longrightarrow> out = []"
  shows "\<exists>info. peek_routing_frame_info env buf = Ok info \<and> \<not> routing_ack_only info \<and>
    re_ty (rf_envelope info) = pkt_ty pkt \<and> routing_endpoints (rf_envelope info) = pkt_endpoints pkt \<and>
    sender_name_for_address book (re_source_address (rf_envelope info)) = pkt_sender pkt \<and>
    re_timestamp_ms (rf_envelope info) = pkt_timestamp pkt \<and> re_wire_shape (rf_envelope info) = pkt_wire_shape pkt \<and>
    routing_target_senders (rf_envelope info) = wire_target_senders pkt \<and>
    (buf ! 0 AND FLAG_COMPRESSED_PAYLOAD = 0 \<or> payload pkt \<noteq> [] \<longrightarrow> packet_id_from_wire env buf = Ok (packet_id pkt))"
proof -
  obtain data pf r adm1 pl where crc: "verify_crc32 (we_crc env) buf = Ok data"
    and parse: "parse_frame (we_packet env) (reader_new data) = Ok (pf, r)"
    and dec: "decode_payload env data pf r adm1 = (Ok pl, adm')"
    and new: "new_with_owned_wire_contract (we_packet env) (pf_ty pf) (pf_eps pf)
       (sender_name_for_address book (fh_source (pf_header pf))) (fh_ts (pf_header pf)) (fh_nonce (pf_header pf)) pl
       (wc_shape (pf_contract pf)) (wc_target_senders (pf_contract pf)) = Ok pkt"
    by (rule unpack_inversion [OF assms(1)])
  note pkt = new_packet_fields [OF new]
  have len: "length data < 2 ^ 64" using verify_crc32_ok [OF crc] assms(2) by simp
  obtain e r0 r1 where e: "read_routing_envelope (we_packet env) (reader_new data) = Ok (e, r0)"
    and hd: "read_frame_header (reader_new data) = Ok (pf_header pf, r1)"
    and f: "re_ty e = pf_ty pf" "routing_endpoints e = pf_eps pf" "sorted_wrt (<) (pf_eps pf)"
      "re_source_address e = fh_source (pf_header pf)" "re_timestamp_ms e = fh_ts (pf_header pf)"
      "re_wire_shape e = wc_shape (pf_contract pf)"
      "routing_target_senders e = (case wc_target_senders (pf_contract pf) of Some ts \<Rightarrow> ts | None \<Rightarrow> [])"
    and rel: "read_packet_reliable (re_is_reliable e \<or> re_has_reliable_header e)
      (fh_flags (pf_header pf) AND FLAG_COMPACT_RELIABLE_HEADER \<noteq> 0) r0 = Ok (pf_reliable pf, r)"
    by (rule envelope_agrees [OF parse pkt(2) len])
  note byte = first_byte [OF hd]
  have buf0: "buf ! 0 = fh_flags (pf_header pf)"
    using verify_crc32_ok [OF crc] byte by (simp add: nth_take)
  obtain wire r' bs where w: "read_payload_wire env data (fh_flags (pf_header pf)) (fh_dsz (pf_header pf)) r = Ok (wire, r')"
    and bs: "(if fh_flags (pf_header pf) AND FLAG_COMPRESSED_PAYLOAD \<noteq> 0 then decompress env wire (fh_dsz (pf_header pf))
      else if length wire \<noteq> fh_dsz (pf_header pf) then Err (Unpack ''payload length mismatch'') else Ok wire) = Ok bs"
    and pl: "pl = small_payload_new (we_packet env) bs" and lbs: "length bs = fh_dsz (pf_header pf)"
    by (rule decode_payload_ok [OF dec])
  have payload: "payload pkt = bs" "pkt_data_size pkt = fh_dsz (pf_header pf)"
    by (simp_all add: pkt(1) payload_def pl lbs)
  have info: "peek_routing_frame_info env buf = Ok \<lparr>rf_envelope = e, rf_reliable = pf_reliable pf,
      rf_empty_payload = (re_payload_is_empty e \<and> remaining r = 0)\<rparr>"
    using read_frame_reliable_ok(1) [OF rel [folded byte(1)]] by (simp add: peek_routing_frame_info_def crc e)
  have id: "packet_id_from_wire env buf = Ok (packet_id pkt)"
    if ne: "buf ! 0 AND FLAG_COMPRESSED_PAYLOAD = 0 \<or> payload pkt \<noteq> []"
  proof -
    have "wire \<noteq> []" if "fh_flags (pf_header pf) AND FLAG_COMPRESSED_PAYLOAD \<noteq> 0"
      using that ne bs assms(4) by (auto simp: buf0 payload decompress_def split: option.splits if_splits)
    then have idw: "id_payload_wire env data (fh_flags (pf_header pf)) (fh_dsz (pf_header pf)) r = Ok (wire, r')"
      by (rule id_payload_agrees [OF w])
    have "packet_id pkt = hash_wire_id (fh_source (pf_header pf)) (re_ty e) (routing_endpoints e) (fh_ts (pf_header pf))
        (fh_nonce (pf_header pf)) (fh_dsz (pf_header pf)) bs"
      using hash_wire_id_eq [of pkt] sender_address_name [OF assms(3)] f
      by (simp add: pkt(1) payload_def pl lbs)
    then show ?thesis
      using byte(3) by (simp only: packet_id_from_wire_def crc bind_r_simps hd e rel idw bs prod.case if_False not_less [symmetric])
  qed
  show ?thesis
    using read_frame_reliable_ok(2) [OF rel [folded byte(1)]] f id
    by (simp add: info routing_ack_only_def pkt(1) wire_target_senders_def)
qed

section \<open>Iteration ends\<close>

text \<open>The answers to n calls of the iterator.\<close>

primrec routing_iter_run :: "RoutingEnvelope \<Rightarrow> nat \<Rightarrow> RoutingEndpointIter \<Rightarrow> DataEndpoint option list" where
  "routing_iter_run e 0 it = []"
| "routing_iter_run e (Suc n) it = (case routing_endpoint_next e it of (x, it') \<Rightarrow> x # routing_iter_run e n it')"

lemma collect_run: "routing_iter_run e (Suc (length (collect_endpoints e it))) it = map Some (collect_endpoints e it) @ [None]"
proof (induction e it rule: collect_endpoints.induct)
  case (1 e it)
  then show ?case
    by (cases "routing_endpoint_next e it") (auto simp: collect_endpoints.simps [of e it] split: option.split)
qed

lemma prelude_endpoint_count:
  assumes "read_routing_prelude (reader_new data) = Ok ((flags, nep, ty_v, em, ts, src), r)"
  shows "unat (data ! 1) = nep" "r = \<lparr>rd_buf = data, rd_off = rd_off r\<rparr>" "rd_off r \<le> length data"
proof -
  obtain x n r1 r2 where 1: "read_byte (reader_new data) = Ok (x, r1)" and 2: "read_byte r1 = Ok (n, r2)" and n: "nep = unat n"
    using assms unfolding read_routing_prelude_def by (elim seq_rdE) (rule that, assumption+, auto)
  then show "unat (data ! 1) = nep"
    by (auto simp: read_byte_def seq_rd_ok read_bytes_def reader_new_def remaining_def give_def split: if_splits)
      (simp add: hd_drop_conv_nth)
  have "contextual read_routing_prelude" unfolding read_routing_prelude_def by (intro contextual_intros)
  then show "r = \<lparr>rd_buf = data, rd_off = rd_off r\<rparr>" "rd_off r \<le> length data"
    by (rule contextual_start [where rd = read_routing_prelude, OF _ assms], simp)+
qed

lemma routing_endpoints_count:
  assumes "read_routing_endpoints env flags nep ty r = Ok ((bitmap, lst, schema), r')" "r = \<lparr>rd_buf = data, rd_off = off\<rparr>" "off \<le> length data"
    and "re_bitmap e = bitmap" "re_endpoint_list e = lst" "re_schema_endpoints e = schema"
  shows "length (routing_endpoints e) = nep \<and> sorted_wrt (<) (routing_endpoints e)"
proof -
  consider (lst) bs where "read_endpoint_list nep r = Ok (bs, r')" "lst = Some bs" "bitmap = replicate 4 0"
    | (schema) eps where "lst = None" "schema = Some eps" "length (unique_sorted_endpoints eps) = nep" "bitmap = replicate 4 0"
    | (bitmap) "read_routing_bitmap env nep r = Ok (bitmap, r')" "lst = None" "schema = None"
    using assms(1) by (auto simp: read_routing_endpoints_def seq_rd_ok give_def fail_rd_def split: if_splits option.splits)
  then show ?thesis
  proof cases
    case lst
    then show ?thesis using endpoint_list_ids [of nep data off bs r'] assms(2-) by (simp add: routing_endpoints_eq)
  next
    case schema
    then show ?thesis using assms(4-) by (simp add: routing_endpoints_eq unique_sorted_endpoints_eq strict_sorted_list_of_set)
  next
    case bitmap
    then obtain bm where bm: "read_bytes EP_BITMAP_BYTES r = Ok (bm, r')" "bitmap = map from_le_bytes (chunks8 bm)"
        "sum_list (map count_ones bitmap) = nep"
      by (auto simp: read_routing_bitmap_def seq_rd_ok give_def fail_rd_def Let_def split: if_splits)
    then have len: "length bm = EP_BITMAP_BYTES" by (auto simp: read_bytes_def remaining_def split: if_splits)
    then have p: "word_positions 0 bitmap = bitmap_positions 0 bm"
      using word_positions_bytes [of bm 4 0] by (simp add: EP_BITMAP_BYTES_def bm(2))
    have "bitmap \<noteq> []" using length_chunks8 [of bm] len by (auto simp: EP_BITMAP_BYTES_def bm(2))
    then show ?thesis
      using bitmap(2, 3) assms(4-) bm(3) bitmap_positions_sorted [OF len]
      by (simp add: routing_endpoints_eq p count_ones_positions [of _ 0])
  qed
qed

text \<open>C38: the endpoint iterator of every envelope read from a frame ends.  It gives exactly as many endpoints as the
  count byte of the frame announces, in strictly ascending order and whatever of the three encodings the frame
  uses, and then reports its end.\<close>

theorem routing_iteration_ends:
  assumes "read_routing_envelope env (reader_new data) = Ok (e, r)"
  shows "routing_iter_run e (unat (data ! 1) + 1) (routing_iter_start e) = map Some (routing_endpoints e) @ [None] \<and>
    length (routing_endpoints e) = unat (data ! 1) \<and> sorted_wrt (<) (routing_endpoints e)"
proof -
  obtain flags nep ty_v em ts src r1 ty bitmap lst schema r2 where
    1: "read_routing_prelude (reader_new data) = Ok ((flags, nep, ty_v, em, ts, src), r1)" and
    2: "read_routing_endpoints env flags nep ty r1 = Ok ((bitmap, lst, schema), r2)" and
    e: "re_bitmap e = bitmap" "re_endpoint_list e = lst" "re_schema_endpoints e = schema"
    using assms by (auto simp: read_routing_envelope_def seq_rd_ok bind_r_ok_iff give_def Let_def)
  note pre = prelude_endpoint_count [OF 1]
  have n: "length (routing_endpoints e) = unat (data ! 1) \<and> sorted_wrt (<) (routing_endpoints e)"
    using routing_endpoints_count [OF 2 pre(2, 3) e] by (simp only: pre(1))
  then have "routing_iter_run e (unat (data ! 1) + 1) (routing_iter_start e) = map Some (routing_endpoints e) @ [None]"
    unfolding routing_endpoints_def using collect_run [of e "routing_iter_start e"]
    by (simp add: routing_endpoints_def)
  with n show ?thesis by blast
qed

section \<open>Receive checks\<close>

lemma general_work: "\<not> has_probe adm \<Longrightarrow> check_work a l w adm = (Ok (), adm)"
  by (rule outcome_without_probe [OF check_work_outcome])

lemma receive_outcome: "admission_outcome adm (check_receive_with_role env bs managed adm)"
  by (simp add: check_receive_with_role_def check_outcomes Let_def) (simp add: admission_outcome_def)

text \<open>C39: checking a received frame has two outcomes only: the frame is admitted and nothing changes, or an installed
  probe refuses it, the error is memory pressure and the counter of refused operations goes up by one.  A
  frame longer than 128 bytes, or one whose checksum is wrong, is never given the small estimate of a
  control frame nor the class of protected work: the probe is asked for the full estimate.  The check of a
  retained fragment has the same outcomes.\<close>

theorem receive_admission:
  "check_receive_with_role env bs managed adm \<in>
     {(Ok (), adm), (Err (Io ''memory pressure''), adm\<lparr>rejected := rejected adm + 1\<rparr>)} \<and>
   check_retained_fragment env bs retained adm \<in>
     {(Ok (), adm), (Err (Io ''memory pressure''), adm\<lparr>rejected := rejected adm + 1\<rparr>)} \<and>
   (has_probe adm \<or> check_receive_with_role env bs managed adm = (Ok (), adm) \<and> check_retained_fragment env bs retained adm = (Ok (), adm)) \<and>
   (length bs \<le> 128 \<and> (\<exists>data. verify_crc32 (we_crc env) bs = Ok data) \<or>
    check_receive_with_role env bs managed adm =
      check_work (saturating_add (saturating_mul (length bs) 3) 2048) (saturating_add (length bs) 32) WORK_GENERAL adm)"
proof -
  have fr: "admission_outcome adm (check_retained_fragment env bs retained adm)"
    by (simp add: check_retained_fragment_def check_receive_def check_outcomes receive_outcome)
  have "check_receive_with_role env bs managed adm =
      check_work (saturating_add (saturating_mul (length bs) 3) 2048) (saturating_add (length bs) 32) WORK_GENERAL adm"
    if "\<not> (length bs \<le> 128 \<and> (\<exists>data. verify_crc32 (we_crc env) bs = Ok data))"
  proof (cases "has_probe adm")
    case True
    have "peek_routing_frame_info env bs = Err x" if "verify_crc32 (we_crc env) bs = Err x" for x
      using that by (simp add: peek_routing_frame_info_def)
    then have "\<not> length bs \<le> 128 \<or> (\<exists>x. peek_routing_frame_info env bs = Err x)"
      using \<open>\<not> (length bs \<le> 128 \<and> (\<exists>data. verify_crc32 (we_crc env) bs = Ok data))\<close>
      by (cases "verify_crc32 (we_crc env) bs") auto
    then show ?thesis
      using True by (auto simp: check_receive_with_role_def check_frame_def check_frame_kind_def Let_def)
  next
    case False
    then show ?thesis by (simp add: check_receive_with_role_def general_work)
  qed
  then show ?thesis
    using fr receive_outcome [of adm env bs managed] unfolding admission_outcome_def by blast
qed

theorem peek_agrees_with_unpack_witness:
  "\<exists>frame pkt info. fst (pack_packet example_wire example_gps Map.empty) = Some frame \<and>
    unpack_packet_with_role example_wire Map.empty frame False idle_admission = (Ok pkt, idle_admission) \<and>
    peek_routing_frame_info example_wire frame = Ok info \<and> re_ty (rf_envelope info) = 70000 \<and>
    routing_endpoints (rf_envelope info) = pkt_endpoints pkt \<and> packet_id_from_wire example_wire frame = Ok (packet_id pkt)"
proof -
  obtain frame where f: "fst (pack_packet example_wire example_gps Map.empty) = Some frame"
    using pack_packet_bytes [OF prod.collapse [symmetric], of example_wire example_gps Map.empty] example_gps_fits(13)
    by simp
  have u: "unpack_packet_with_role example_wire Map.empty frame False idle_admission =
      (Ok (received_packet example_env Map.empty example_gps None []), idle_admission)"
    by (rule example_unpacks [OF f])
  have len: "length frame < 2 ^ 64" by (rule example_length [OF f])
  have dec: "\<forall>n out. we_decompress example_wire [] n = Some out \<longrightarrow> out = []" by (simp add: example_wire_def)
  have "payload (received_packet example_env Map.empty example_gps None []) \<noteq> []" "pkt_ty example_gps = 70000"
    unfolding received_packet_fields by (simp_all add: example_gps_def example_packet_def payload_def as_slice_def)
  with peek_agrees_with_unpack [OF u len example_gps_fits(9) dec] f u show ?thesis
    by (auto simp: received_packet_fields)
qed

theorem routing_iteration_ends_witness:
  "\<exists>data e r. read_routing_envelope example_env (reader_new data) = Ok (e, r) \<and> data ! 1 = 1 \<and>
    routing_iter_run e 2 (routing_iter_start e) = [Some 300, None]"
proof -
  obtain frame where f: "fst (pack_packet example_wire example_gps Map.empty) = Some frame"
    using pack_packet_bytes [OF prod.collapse [symmetric], of example_wire example_gps Map.empty] example_gps_fits(13)
    by simp
  obtain data pf r pl where v: "verify_crc32 (we_crc example_wire) frame = Ok data"
    and parse: "parse_frame (we_packet example_wire) (reader_new data) = Ok (pf, r)"
    and new: "new_with_owned_wire_contract (we_packet example_wire) (pf_ty pf) (pf_eps pf)
       (sender_name_for_address Map.empty (fh_source (pf_header pf))) (fh_ts (pf_header pf)) (fh_nonce (pf_header pf)) pl
       (wc_shape (pf_contract pf)) (wc_target_senders (pf_contract pf)) = Ok (received_packet example_env Map.empty example_gps None [])"
    by (rule unpack_inversion [OF example_unpacks [OF f, where managed = False]])
  have len: "length data < 2 ^ 64" using example_length [OF f] verify_crc32_ok [OF v] by simp
  have eps: "pf_eps pf = [300]"
    using new_packet_fields(1) [OF new] received_packet_fields [of example_env Map.empty example_gps None "[]"]
    by (simp add: example_gps_def example_packet_def unique_sorted_endpoints_eq)
  obtain e r0 where e: "read_routing_envelope (we_packet example_wire) (reader_new data) = Ok (e, r0)" "routing_endpoints e = pf_eps pf"
    by (rule envelope_agrees [OF parse new_packet_fields(2) [OF new] len])
  note run = routing_iteration_ends [OF e(1)]
  then have "unat (data ! 1) = 1" by (simp add: e(2) eps)
  moreover from this have "data ! 1 = 1" by (simp add: word_unat_eq_iff)
  ultimately have "data ! 1 = 1" "routing_iter_run e 2 (routing_iter_start e) = [Some 300, None]"
    using run by (simp_all add: e(2) eps numeral_2_eq_2)
  then show ?thesis using e(1) example_gps_fits(10) by auto
qed

end
