(* ===== verification/Wire_Rewrite.thy ===== *)
theory Wire_Rewrite
  imports Wire_View
begin

text \<open>
  Rewriting of accepted frames (\<^verbatim>\<open>src/src/wire_format.rs\<close>).  An accepted frame is taken
  apart into the segments its readers consumed and put together again with another
  payload encoding or another reliable header.  Proved: both kinds of rewriting give a
  frame that unpacks to the same packet, and the two rewriters of the reliable header
  agree.
\<close>

section \<open>Anatomy of a frame\<close>

definition header_rest :: "u8 \<Rightarrow> FrameHeader reader" where
  "header_rest flags =
    seq_rd read_byte (\<lambda>nep.
    seq_rd read_uleb128 (\<lambda>ty_v.
    seq_rd read_uleb128 (\<lambda>dsz.
    seq_rd read_uleb128 (\<lambda>ts_v.
    seq_rd (if flags AND FLAG_PACKET_NONCE \<noteq> 0 then read_uleb_narrow ''packet nonce too large'' else give 0) (\<lambda>nonce.
    seq_rd (read_uleb_narrow ''source address too large'') (\<lambda>source.
      give \<lparr>fh_flags = flags, fh_nep = unat nep, fh_ty = ty_v, fh_dsz = unat dsz, fh_ts = ts_v,
            fh_nonce = nonce, fh_source = source\<rparr>))))))"

lemma read_frame_header_rest: "read_frame_header = seq_rd read_byte header_rest"
  unfolding read_frame_header_def header_rest_def ..

lemma contextual_header_rest: "contextual (header_rest flags)"
  unfolding header_rest_def by (intro contextual_intros)

lemma contextual_packet_reliable: "contextual (read_packet_reliable present compact)"
  unfolding read_packet_reliable_def by (intro contextual_intros)

text \<open>A frame, cut where its readers stopped.\<close>

record FrameParts =
  fp_flags :: u8
  fp_prelude :: bytes
  fp_endpoints :: bytes
  fp_contract :: bytes
  fp_reliable :: bytes
  fp_body :: bytes

definition parts_header :: "FrameParts \<Rightarrow> bytes" where
  "parts_header p = fp_flags p # fp_prelude p @ fp_endpoints p @ fp_contract p @ fp_reliable p"

definition parts_bytes :: "FrameParts \<Rightarrow> bytes" where
  "parts_bytes p = parts_header p @ fp_body p"

text \<open>The segments read back to the fields of the parsed frame.\<close>

definition parts_read :: "PacketEnv \<Rightarrow> FrameParts \<Rightarrow> ParsedFrame \<Rightarrow> bool" where
  "parts_read env p pf \<longleftrightarrow>
    fh_flags (pf_header pf) = fp_flags p \<and>
    decodes (header_rest (fp_flags p)) (fp_prelude p) (pf_header pf) \<and>
    data_type_id_from_wire (fh_ty (pf_header pf)) = Ok (pf_ty pf) \<and>
    decodes (endpoints_from_wire_or_schema env (fp_flags p AND FLAG_ENDPOINT_BITMAP_PRESENT \<noteq> 0)
      (fp_flags p AND FLAG_ENDPOINT_LIST_PRESENT \<noteq> 0) (try_from_u32 env (pf_ty pf)) (fh_nep (pf_header pf)))
      (fp_endpoints p) (pf_eps pf) \<and>
    decodes (decode_wire_contract (fp_flags p AND FLAG_WIRE_CONTRACT \<noteq> 0)) (fp_contract p) (pf_contract pf) \<and>
    (data_type_exists (env_registry env) (pf_ty pf) \<or> wc_shape (pf_contract pf) \<noteq> None) \<and>
    decodes (read_packet_reliable (fp_flags p AND FLAG_RELIABLE_HEADER_PRESENT \<noteq> 0 \<or> wc_has_reliable_header (pf_contract pf))
      (fp_flags p AND FLAG_COMPACT_RELIABLE_HEADER \<noteq> 0)) (fp_reliable p) (pf_reliable pf)"

definition body_fits :: "FrameParts \<Rightarrow> nat \<Rightarrow> bool" where
  "body_fits p dsz \<longleftrightarrow>
    (if fp_flags p AND FLAG_COMPRESSED_PAYLOAD \<noteq> 0 then fp_reliable p @ fp_body p \<noteq> [] else dsz \<le> length (fp_body p))"

lemma resolved_type:
  "data_type_exists (env_registry env) ty \<or> wc_shape c \<noteq> None \<longleftrightarrow>
    (case try_from_u32 env ty of Some t \<Rightarrow> Some t | None \<Rightarrow> map_option (\<lambda>_. ty) (wc_shape c)) = Some ty"
  by (auto simp: try_from_u32_def)

lemma frame_anatomy:
  assumes "parse_frame env (reader_new data) = Ok (pf, r)"
  obtains p where "data = parts_bytes p" "r = \<lparr>rd_buf = data, rd_off = length (parts_header p)\<rparr>" "parts_read env p pf"
proof -
  obtain h r1 ty where 1: "read_frame_header (reader_new data) = Ok (h, r1)"
    and ty: "data_type_id_from_wire (fh_ty h) = Ok ty" and sec: "parse_sections env h ty r1 = Ok (pf, r)"
    using assms by (auto simp: parse_frame_def seq_rd_ok bind_r_ok_iff Let_def split: if_splits)
  note byte = first_byte [OF 1]
  then obtain rest where data: "data = fh_flags h # rest" by (cases data) auto
  have rb: "read_byte (reader_new data) = Ok (fh_flags h, \<lparr>rd_buf = data, rd_off = 1\<rparr>)"
    using decodes_start [OF decodes_read_byte, of "fh_flags h" rest] by (simp add: data)
  have "header_rest (fh_flags h) \<lparr>rd_buf = data, rd_off = 1\<rparr> = Ok (h, r1)"
    using 1 by (simp add: read_frame_header_rest seq_rd_def rb)
  then obtain xs post1 where x: "rest = xs @ post1" "r1 = \<lparr>rd_buf = data, rd_off = length ([fh_flags h] @ xs)\<rparr>"
      "decodes (header_rest (fh_flags h)) xs h"
    by (rule contextualE [OF contextual_header_rest, where pre = "[fh_flags h]" and rest = rest]) (simp_all add: data)
  obtain eps r2 c r3 where
    2: "endpoints_from_wire_or_schema env (fh_flags h AND FLAG_ENDPOINT_BITMAP_PRESENT \<noteq> 0)
      (fh_flags h AND FLAG_ENDPOINT_LIST_PRESENT \<noteq> 0) (try_from_u32 env ty) (fh_nep h) r1 = Ok (eps, r2)" and
    3: "decode_wire_contract (fh_flags h AND FLAG_WIRE_CONTRACT \<noteq> 0) r2 = Ok (c, r3)" and
    k: "(case (case try_from_u32 env ty of Some t \<Rightarrow> Some t | None \<Rightarrow> map_option (\<lambda>_. ty) (wc_shape c)) of
         None \<Rightarrow> fail_rd InvalidType
       | Some ty \<Rightarrow>
           seq_rd (read_packet_reliable (fh_flags h AND FLAG_RELIABLE_HEADER_PRESENT \<noteq> 0 \<or> wc_has_reliable_header c)
             (fh_flags h AND FLAG_COMPACT_RELIABLE_HEADER \<noteq> 0)) (\<lambda>rel.
             give \<lparr>pf_header = h, pf_ty = ty, pf_eps = eps, pf_contract = c, pf_reliable = rel\<rparr>)) r3 = Ok (pf, r)"
    using sec unfolding parse_sections_def Let_def by (elim seq_rdE) (rule that, assumption+)
  have tyv: "(case try_from_u32 env ty of Some t \<Rightarrow> Some t | None \<Rightarrow> map_option (\<lambda>_. ty) (wc_shape c)) = Some ty"
    using k by (auto simp: try_from_u32_def split: option.splits if_splits)
  with k obtain rel where
    4: "read_packet_reliable (fh_flags h AND FLAG_RELIABLE_HEADER_PRESENT \<noteq> 0 \<or> wc_has_reliable_header c)
      (fh_flags h AND FLAG_COMPACT_RELIABLE_HEADER \<noteq> 0) r3 = Ok (rel, r)" and
    pf: "pf = \<lparr>pf_header = h, pf_ty = ty, pf_eps = eps, pf_contract = c, pf_reliable = rel\<rparr>"
    by (simp only: option.case) (auto simp only: seq_rd_ok give_ok prod.inject)
  let ?a = "[fh_flags h] @ xs"
  obtain ys post2 where y: "post1 = ys @ post2" "r2 = \<lparr>rd_buf = data, rd_off = length (?a @ ys)\<rparr>"
      "decodes (endpoints_from_wire_or_schema env (fh_flags h AND FLAG_ENDPOINT_BITMAP_PRESENT \<noteq> 0)
      (fh_flags h AND FLAG_ENDPOINT_LIST_PRESENT \<noteq> 0) (try_from_u32 env ty) (fh_nep h)) ys eps"
    by (rule contextualE [OF contextual_endpoints 2 [unfolded x(2)], where pre = ?a and rest = post1])
      (simp_all add: data x(1))
  obtain zs post3 where z: "post2 = zs @ post3" "r3 = \<lparr>rd_buf = data, rd_off = length ((?a @ ys) @ zs)\<rparr>"
      "decodes (decode_wire_contract (fh_flags h AND FLAG_WIRE_CONTRACT \<noteq> 0)) zs c"
    by (rule contextualE [OF contextual_wire_contract 3 [unfolded y(2)], where pre = "?a @ ys" and rest = post2])
      (simp_all add: data x(1) y(1))
  obtain ws post4 where w: "post3 = ws @ post4" "r = \<lparr>rd_buf = data, rd_off = length (((?a @ ys) @ zs) @ ws)\<rparr>"
      "decodes (read_packet_reliable (fh_flags h AND FLAG_RELIABLE_HEADER_PRESENT \<noteq> 0 \<or> wc_has_reliable_header c)
      (fh_flags h AND FLAG_COMPACT_RELIABLE_HEADER \<noteq> 0)) ws rel"
    by (rule contextualE [OF contextual_packet_reliable 4 [unfolded z(2)], where pre = "(?a @ ys) @ zs" and rest = post3])
      (simp_all add: data x(1) y(1) z(1))
  define p where "p = \<lparr>fp_flags = fh_flags h, fp_prelude = xs, fp_endpoints = ys, fp_contract = zs, fp_reliable = ws,
    fp_body = post4\<rparr>"
  have "data = parts_bytes p" "r = \<lparr>rd_buf = data, rd_off = length (parts_header p)\<rparr>"
    by (simp_all add: p_def parts_bytes_def parts_header_def data x(1) y(1) z(1) w(1, 2))
  moreover have "parts_read env p pf"
    unfolding parts_read_def resolved_type pf p_def
    by (simp only: FrameParts.select_convs ParsedFrame.select_convs ty x(3) y(3) z(3) w(3) tyv simp_thms)
  ultimately show thesis by (rule that)
qed

lemma bitmap_segment:
  assumes "decodes (endpoints_from_wire_or_schema env bm lst ty nep) es eps" "bm"
  shows "EP_BITMAP_BYTES \<le> length es"
proof -
  have "endpoints_from_wire_or_schema env bm lst ty nep (reader_new es) = Ok (eps, \<lparr>rd_buf = es, rd_off = length es\<rparr>)"
    using decodes_start [OF assms(1), of "[]"] by simp
  then show ?thesis
    using assms(2)
    by (auto simp: endpoints_from_wire_or_schema_def seq_rd_ok read_bytes_def remaining_def reader_new_def split: if_splits)
qed

lemma frame_assembly:
  assumes "parts_read env p pf" "body_fits p (fh_dsz (pf_header pf))"
  shows "parse_frame env (reader_new (parts_bytes p)) = Ok (pf, \<lparr>rd_buf = parts_bytes p, rd_off = length (parts_header p)\<rparr>)"
proof -
  let ?h = "pf_header pf" and ?f = "fp_flags p" and ?data = "parts_bytes p"
  let ?pre = "[?f] @ fp_prelude p" and ?secs = "fp_endpoints p @ fp_contract p @ fp_reliable p"
  note pr = assms(1) [unfolded parts_read_def resolved_type]
  have f: "fh_flags ?h = ?f" using pr by simp
  have hdr: "decodes read_frame_header ?pre ?h"
    unfolding read_frame_header_rest using pr by (intro decodes_seq [OF decodes_read_byte]) simp
  have data: "?data = ?pre @ ?secs @ fp_body p" by (simp add: parts_bytes_def parts_header_def)
  have 1: "read_frame_header (reader_new ?data) = Ok (?h, \<lparr>rd_buf = ?data, rd_off = length ?pre\<rparr>)"
    using decodes_start [OF hdr, of "?secs @ fp_body p"] by (simp add: data)
  have give: "decodes (give \<lparr>pf_header = ?h, pf_ty = pf_ty pf, pf_eps = pf_eps pf, pf_contract = pf_contract pf,
      pf_reliable = pf_reliable pf\<rparr>) [] pf"
    by (cases pf) (simp add: decodes_give)
  have secs: "decodes (parse_sections env ?h (pf_ty pf)) ?secs pf"
    unfolding parse_sections_def Let_def f
    apply (rule decodes_seq [where v = "pf_eps pf"])
    using pr apply simp
    apply (rule decodes_seq [where v = "pf_contract pf"])
    using pr apply simp
    using pr apply (simp only: option.case)
    apply (rule decodes_seq_last [where v = "pf_reliable pf"])
     apply blast
    apply (rule give)
    done
  have 2: "parse_sections env ?h (pf_ty pf) \<lparr>rd_buf = ?data, rd_off = length ?pre\<rparr> =
      Ok (pf, \<lparr>rd_buf = ?data, rd_off = length (parts_header p)\<rparr>)"
    using decodes_at [OF secs, of ?data ?pre "fp_body p" "length ?pre"] by (simp add: data parts_header_def)
  have ty: "data_type_id_from_wire (fh_ty ?h) = Ok (pf_ty pf)" using pr by simp
  let ?eb = "if ?f AND FLAG_ENDPOINT_BITMAP_PRESENT \<noteq> 0 then EP_BITMAP_BYTES else 0"
  have eb: "?eb \<le> length (fp_endpoints p)"
  proof (cases "?f AND FLAG_ENDPOINT_BITMAP_PRESENT \<noteq> 0")
    case True
    have "decodes (endpoints_from_wire_or_schema env (?f AND FLAG_ENDPOINT_BITMAP_PRESENT \<noteq> 0)
        (?f AND FLAG_ENDPOINT_LIST_PRESENT \<noteq> 0) (try_from_u32 env (pf_ty pf)) (fh_nep ?h)) (fp_endpoints p) (pf_eps pf)"
      using pr by blast
    from bitmap_segment [OF this True] True show ?thesis by simp
  qed simp
  have wrap: "wrapping_add ?eb (fh_dsz ?h) \<le> ?eb + fh_dsz ?h" by (simp add: wrapping_add_def)
  have rem: "length (fp_endpoints p) + length (fp_reliable p @ fp_body p) \<le> remaining \<lparr>rd_buf = ?data, rd_off = length ?pre\<rparr>"
    by (simp add: remaining_def data)
  have room: "\<not> (\<not> ?f AND FLAG_COMPRESSED_PAYLOAD \<noteq> 0 \<and>
        remaining \<lparr>rd_buf = ?data, rd_off = length ?pre\<rparr> < wrapping_add ?eb (fh_dsz ?h) \<or>
      ?f AND FLAG_COMPRESSED_PAYLOAD \<noteq> 0 \<and> remaining \<lparr>rd_buf = ?data, rd_off = length ?pre\<rparr> < ?eb + 1)"
  proof (cases "?f AND FLAG_COMPRESSED_PAYLOAD \<noteq> 0")
    case True
    then have "fp_reliable p @ fp_body p \<noteq> []" using assms(2) by (simp add: body_fits_def)
    then have "1 \<le> length (fp_reliable p @ fp_body p)" by (metis One_nat_def Suc_leI length_greater_0_conv)
    with eb rem have "\<not> remaining \<lparr>rd_buf = ?data, rd_off = length ?pre\<rparr> < ?eb + 1" by linarith
    with True show ?thesis by blast
  next
    case False
    then have "fh_dsz ?h \<le> length (fp_reliable p @ fp_body p)" using assms(2) by (simp add: body_fits_def)
    with eb rem wrap have "\<not> remaining \<lparr>rd_buf = ?data, rd_off = length ?pre\<rparr> < wrapping_add ?eb (fh_dsz ?h)" by linarith
    with False show ?thesis by blast
  qed
  show ?thesis
    unfolding parse_frame_def by (simp only: seq_rd_step 1 ty bind_r_simps Let_def f room if_False 2)
qed

lemma header_rest_flags:
  assumes "decodes (header_rest f) xs h" "(f' AND FLAG_PACKET_NONCE \<noteq> 0) = (f AND FLAG_PACKET_NONCE \<noteq> 0)"
  shows "decodes (header_rest f') xs (h\<lparr>fh_flags := f'\<rparr>)"
  unfolding decodes_def
proof (intro allI)
  fix pre post
  let ?r = "\<lparr>rd_buf = pre @ xs @ post, rd_off = length pre\<rparr>"
  let ?r' = "\<lparr>rd_buf = pre @ xs @ post, rd_off = length pre + length xs\<rparr>"
  obtain nep r2 ty r3 dsz r4 ts r5 nonce r6 source where
    2: "read_byte ?r = Ok (nep, r2)" and 3: "read_uleb128 r2 = Ok (ty, r3)" and
    4: "read_uleb128 r3 = Ok (dsz, r4)" and 5: "read_uleb128 r4 = Ok (ts, r5)" and
    6: "(if f AND FLAG_PACKET_NONCE \<noteq> 0 then read_uleb_narrow ''packet nonce too large'' else give 0) r5 = Ok (nonce, r6)" and
    7: "read_uleb_narrow ''source address too large'' r6 = Ok (source, ?r')" and
    h: "h = \<lparr>fh_flags = f, fh_nep = unat nep, fh_ty = ty, fh_dsz = unat dsz, fh_ts = ts, fh_nonce = nonce, fh_source = source\<rparr>"
    using decodesD [OF assms(1), of pre post] unfolding header_rest_def
    by (elim seq_rdE) (rule that, assumption+, auto)
  show "header_rest f' ?r = Ok (h\<lparr>fh_flags := f'\<rparr>, ?r')"
    unfolding header_rest_def assms(2) by (simp only: seq_rd_step 2 3 4 5 6 7) (simp add: h give_def)
qed

text \<open>Another payload, another reliable header, and the flags that go with them.\<close>

lemma parts_read_update:
  assumes "parts_read env p pf"
    and "(f' AND FLAG_PACKET_NONCE \<noteq> 0) = (fp_flags p AND FLAG_PACKET_NONCE \<noteq> 0)"
      "(f' AND FLAG_ENDPOINT_BITMAP_PRESENT \<noteq> 0) = (fp_flags p AND FLAG_ENDPOINT_BITMAP_PRESENT \<noteq> 0)"
      "(f' AND FLAG_ENDPOINT_LIST_PRESENT \<noteq> 0) = (fp_flags p AND FLAG_ENDPOINT_LIST_PRESENT \<noteq> 0)"
      "(f' AND FLAG_WIRE_CONTRACT \<noteq> 0) = (fp_flags p AND FLAG_WIRE_CONTRACT \<noteq> 0)"
      "(f' AND FLAG_RELIABLE_HEADER_PRESENT \<noteq> 0) = (fp_flags p AND FLAG_RELIABLE_HEADER_PRESENT \<noteq> 0)"
    and "decodes (read_packet_reliable (fp_flags p AND FLAG_RELIABLE_HEADER_PRESENT \<noteq> 0 \<or> wc_has_reliable_header (pf_contract pf))
      (f' AND FLAG_COMPACT_RELIABLE_HEADER \<noteq> 0)) rs rel"
  shows "parts_read env (p\<lparr>fp_flags := f', fp_reliable := rs, fp_body := body\<rparr>)
    (pf\<lparr>pf_header := (pf_header pf)\<lparr>fh_flags := f'\<rparr>, pf_reliable := rel\<rparr>)"
proof -
  let ?p = "p\<lparr>fp_flags := f', fp_reliable := rs, fp_body := body\<rparr>"
  let ?h = "(pf_header pf)\<lparr>fh_flags := f'\<rparr>"
  let ?pf = "pf\<lparr>pf_header := ?h, pf_reliable := rel\<rparr>"
  have fields: "fp_flags ?p = f'" "fp_prelude ?p = fp_prelude p" "fp_endpoints ?p = fp_endpoints p"
    "fp_contract ?p = fp_contract p" "fp_reliable ?p = rs" "pf_header ?pf = ?h" "pf_ty ?pf = pf_ty pf" "pf_eps ?pf = pf_eps pf"
    "pf_contract ?pf = pf_contract pf" "pf_reliable ?pf = rel" "fh_flags ?h = f'" "fh_ty ?h = fh_ty (pf_header pf)"
    "fh_nep ?h = fh_nep (pf_header pf)"
    by simp_all
  note old = assms(1) [unfolded parts_read_def]
  have "decodes (header_rest f') (fp_prelude p) ?h" using header_rest_flags [OF _ assms(2)] old by blast
  then show ?thesis
    unfolding parts_read_def fields assms(3-6) using old assms(7) by blast
qed

lemma unpack_parts:
  assumes "parts_read (we_packet env) p pf" "body_fits p (fh_dsz (pf_header pf))"
    and "verify_crc32 (we_crc env) frame = Ok (parts_bytes p)" "\<not> has_probe adm"
    and "decode_payload env (parts_bytes p) pf \<lparr>rd_buf = parts_bytes p, rd_off = length (parts_header p)\<rparr> adm = (Ok pl, adm)"
    and "new_with_owned_wire_contract (we_packet env) (pf_ty pf) (pf_eps pf)
       (sender_name_for_address book (fh_source (pf_header pf))) (fh_ts (pf_header pf)) (fh_nonce (pf_header pf)) pl
       (wc_shape (pf_contract pf)) (wc_target_senders (pf_contract pf)) = Ok pkt"
  shows "unpack_packet_with_role env book frame managed adm = (Ok pkt, adm)"
proof -
  have "parts_bytes p \<noteq> []" by (simp add: parts_bytes_def parts_header_def)
  then show ?thesis
    by (simp only: unpack_packet_with_role_def assms(3) sum.case if_False frame_assembly [OF assms(1, 2)] prod.case
        admit_payload_free [OF assms(4)] assms(5, 6))
qed

section \<open>The same cut at every node\<close>

text \<open>Nodes with different schemas that both accept the envelope stop at the same offset.\<close>

lemma routing_endpoints_cut:
  assumes "read_routing_endpoints env f nep ty r = Ok (x, r1)" "read_routing_endpoints env' f nep ty r = Ok (x', r1')"
  shows "r1 = r1'"
proof -
  have b: "r2 = r2'" if "read_routing_bitmap a nep r = Ok (y, r2)" "read_routing_bitmap a' nep r = Ok (y', r2')" for a a' y y' r2 r2'
    using that by (auto simp: read_routing_bitmap_def seq_rd_ok Let_def split: if_splits)
  show ?thesis
    using assms b by (auto simp: read_routing_endpoints_def seq_rd_ok split: if_splits option.splits)
qed

lemma envelope_cut:
  assumes "read_routing_envelope env r = Ok (e, r0)" "read_routing_envelope env' r = Ok (e', r0')"
  shows "r0 = r0' \<and> re_ty e = re_ty e' \<and> re_is_reliable e = re_is_reliable e' \<and>
    re_has_reliable_header e = re_has_reliable_header e'"
proof -
  have inv: "\<exists>flags nep ty_v empt ts src r1 ty x r2 shape targets.
      read_routing_prelude r = Ok ((flags, nep, ty_v, empt, ts, src), r1) \<and> data_type_id_from_wire ty_v = Ok ty \<and>
      read_routing_endpoints a flags nep ty r1 = Ok (x, r2) \<and>
      read_routing_contract flags r2 = Ok ((shape, targets, re_has_reliable_header d), d0) \<and>
      re_ty d = ty \<and> re_is_reliable d = (flags AND FLAG_RELIABLE_HEADER_PRESENT \<noteq> 0)"
    if "read_routing_envelope a r = Ok (d, d0)" for a d d0
    using that unfolding read_routing_envelope_def Let_def
    by (auto simp: seq_rd_ok bind_r_ok_iff check_no_endpoints_def split: if_splits)
  from inv [OF assms(1)] inv [OF assms(2)] show ?thesis
    by (elim exE conjE) (auto dest: routing_endpoints_cut)
qed

lemma logical_size:
  assumes "read_frame_header (reader_new data) = Ok (h, r)"
  shows "read_logical_size data = Ok (fh_dsz h)"
proof -
  obtain flags r1 nep r2 ty r3 dsz r4 where
    1: "read_byte (reader_new data) = Ok (flags, r1)" and 2: "read_byte r1 = Ok (nep, r2)" and 3: "read_uleb128 r2 = Ok (ty, r3)" and
    4: "read_uleb128 r3 = Ok (dsz, r4)" and h: "fh_dsz h = unat dsz"
    using assms unfolding read_frame_header_def by (elim seq_rdE) (rule that, assumption+, auto)
  obtain a b where "read_bytes 1 (reader_new data) = Ok (a, r1)" "read_bytes 1 r1 = Ok (b, r2)"
    using 1 2 by (auto simp: read_byte_def seq_rd_ok)
  then have "read_bytes 2 (reader_new data) = Ok (a @ b, r2)"
    using read_bytes_append(1) [of 1 "reader_new data" a r1 1 b r2] by (simp add: numeral_2_eq_2)
  then show ?thesis by (simp add: read_logical_size_def seq_rd_def 3 4 h)
qed

section \<open>Transcoding\<close>

lemma flag_01_others:
  "(f AND NOT FLAG_COMPRESSED_PAYLOAD) AND FLAG_COMPRESSED_PAYLOAD = 0" "(f OR FLAG_COMPRESSED_PAYLOAD) AND FLAG_COMPRESSED_PAYLOAD \<noteq> 0"
  "m \<in> set [0x02, 0x04, 0x08, 0x10, 0x20, 0x40, 0x80] \<Longrightarrow> (f AND NOT FLAG_COMPRESSED_PAYLOAD) AND m = f AND m"
  "m \<in> set [0x02, 0x04, 0x08, 0x10, 0x20, 0x40, 0x80] \<Longrightarrow> (f OR FLAG_COMPRESSED_PAYLOAD) AND m = f AND m"
  for f m :: u8
proof -
  show "(f AND NOT FLAG_COMPRESSED_PAYLOAD) AND FLAG_COMPRESSED_PAYLOAD = 0" by (simp add: and.assoc)
  show "(f OR FLAG_COMPRESSED_PAYLOAD) AND FLAG_COMPRESSED_PAYLOAD \<noteq> 0" by (simp add: and_or_distrib)
  assume m: "m \<in> set [0x02, 0x04, 0x08, 0x10, 0x20, 0x40, 0x80]"
  then have n: "NOT FLAG_COMPRESSED_PAYLOAD AND m = m" "FLAG_COMPRESSED_PAYLOAD AND m = 0" by auto
  show "(f AND NOT FLAG_COMPRESSED_PAYLOAD) AND m = f AND m" by (simp only: and.assoc n)
  show "(f OR FLAG_COMPRESSED_PAYLOAD) AND m = f AND m" by (simp only: and_or_distrib n) simp
qed

lemma side_encoding_inversion:
  assumes "payload_encoding_for_side env raw allowed max_decoded_bytes adm = (Ok (Some raw'), adm')"
  obtains data e r0 r logical nf np where
    "raw ! 0 AND 0x10 = 0" "verify_crc32 (we_crc env) raw = Ok data"
    "read_routing_envelope (we_packet env) (reader_new data) = Ok (e, r0)"
    "(if re_is_reliable e \<or> re_has_reliable_header e
      then seq_rd (read_reliable_header_encoded (raw ! 0 AND FLAG_COMPACT_RELIABLE_HEADER \<noteq> 0)) (\<lambda>_. give ()) r0
      else Ok ((), r0)) = Ok ((), r)"
    "read_logical_size data = Ok logical"
    "transcode_payload env (raw ! 0) (raw ! 0 AND FLAG_COMPRESSED_PAYLOAD \<noteq> 0) (drop (rd_off r) data) logical = Ok (Some (nf, np))"
    "raw' = join_frame_with_crc (we_crc env) ((take (rd_off r) data)[0 := nf]) np"
proof -
  let ?flags = "raw ! 0"
  let ?look = "bind_r (verify_crc32 (we_crc env) raw) (\<lambda>data.
      bind_r (read_routing_envelope (we_packet env) (reader_new data)) (\<lambda>(e, r).
      bind_r (if re_is_reliable e \<or> re_has_reliable_header e
        then seq_rd (read_reliable_header_encoded (?flags AND FLAG_COMPACT_RELIABLE_HEADER \<noteq> 0)) (\<lambda>_. give ()) r
        else Ok ((), r)) (\<lambda>(_, r). Ok (data, e, rd_off r))))"
  have noe2e: "?flags AND 0x10 = 0"
    using assms by (auto simp: payload_encoding_for_side_def Let_def split: if_splits)
  obtain data e off where look: "?look = Ok (data, e, off)"
    using assms by (auto simp: payload_encoding_for_side_def Let_def split: if_splits sum.splits bool.splits)
  obtain logical nf np where rest: "read_logical_size data = Ok logical"
    "transcode_payload env ?flags (?flags AND FLAG_COMPRESSED_PAYLOAD \<noteq> 0) (drop off data) logical = Ok (Some (nf, np))"
    "raw' = join_frame_with_crc (we_crc env) ((take off data)[0 := nf]) np"
    using assms unfolding payload_encoding_for_side_def Let_def look
    by (auto simp: bind_r_ok_iff split: if_splits sum.splits bool.splits prod.splits option.splits)
  obtain r0 r where "verify_crc32 (we_crc env) raw = Ok data"
    "read_routing_envelope (we_packet env) (reader_new data) = Ok (e, r0)"
    "(if re_is_reliable e \<or> re_has_reliable_header e
      then seq_rd (read_reliable_header_encoded (raw ! 0 AND FLAG_COMPACT_RELIABLE_HEADER \<noteq> 0)) (\<lambda>_. give ()) r0
      else Ok ((), r0)) = Ok ((), r)" "off = rd_off r"
    using look by (auto simp: bind_r_ok_iff simp del: give_ok)
  with noe2e rest show thesis by (intro that) simp_all
qed

lemma decode_plain_body:
  assumes "fh_flags (pf_header pf) AND FLAG_E2E_ENCRYPTED_PAYLOAD = 0" "\<not> has_probe adm"
    and "if fh_flags (pf_header pf) AND FLAG_COMPRESSED_PAYLOAD \<noteq> 0 then decompress env body (fh_dsz (pf_header pf)) = Ok bs
      else take (fh_dsz (pf_header pf)) body = bs \<and> length bs = fh_dsz (pf_header pf)"
  shows "decode_payload env data pf \<lparr>rd_buf = hdr @ body, rd_off = length hdr\<rparr> adm = (Ok (small_payload_new (we_packet env) bs), adm)"
  using assms(1, 3) check_free [OF assms(2)]
  by (cases "fh_flags (pf_header pf) AND FLAG_COMPRESSED_PAYLOAD = 0")
    (auto simp: decode_payload_def read_payload_wire_def read_bytes_def remaining_def Let_def)

lemma plain_wire:
  assumes "flags AND FLAG_E2E_ENCRYPTED_PAYLOAD = 0"
    and "read_payload_wire env data flags dsz \<lparr>rd_buf = hdr @ body, rd_off = length hdr\<rparr> = Ok (wire, r')"
  shows "wire = (if flags AND FLAG_COMPRESSED_PAYLOAD = 0 then take dsz body else body)"
  using assms by (auto simp: read_payload_wire_def read_bytes_def remaining_def split: if_splits)

lemma compress_beneficial_some:
  "compress_if_beneficial env pl = (True, y) \<Longrightarrow> \<exists>n. we_compress env pl n = Some y"
  by (auto simp: compress_if_beneficial_def compress_to_vec_bounded_def split: if_splits option.splits)

lemma reliable_stop:
  assumes "read_packet_reliable present compact r0 = Ok (rel, r)"
    and "(if present then seq_rd (read_reliable_header_encoded compact) (\<lambda>_. give ()) r0 else Ok ((), r0)) = Ok ((), r')"
  shows "r' = r"
  using assms by (auto simp: read_packet_reliable_def seq_rd_ok split: if_splits)

lemma transcoded_body:
  assumes "transcode_payload env f (f AND FLAG_COMPRESSED_PAYLOAD \<noteq> 0) body dsz = Ok (Some (nf, np))"
    and "(if f AND FLAG_COMPRESSED_PAYLOAD \<noteq> 0 then decompress renv wire dsz
      else if length wire \<noteq> dsz then Err (Unpack ''payload length mismatch'') else Ok wire) = Ok bs"
    and "wire = (if f AND FLAG_COMPRESSED_PAYLOAD = 0 then take dsz body else body)"
    and "we_decompress renv = we_decompress env" "zstd_law env renv"
  shows "nf = (if f AND FLAG_COMPRESSED_PAYLOAD \<noteq> 0 then f AND NOT FLAG_COMPRESSED_PAYLOAD else f OR FLAG_COMPRESSED_PAYLOAD)"
    and "if nf AND FLAG_COMPRESSED_PAYLOAD \<noteq> 0 then decompress renv np dsz = Ok bs \<and> np \<noteq> [] else np = bs \<and> length bs = dsz"
proof -
  have dec: "decompress renv x n = decompress env x n" for x n by (simp add: decompress_def assms(4))
  show nf: "nf = (if f AND FLAG_COMPRESSED_PAYLOAD \<noteq> 0 then f AND NOT FLAG_COMPRESSED_PAYLOAD else f OR FLAG_COMPRESSED_PAYLOAD)"
    using assms(1) by (auto simp: transcode_payload_def bind_r_ok_iff split: if_splits bool.splits prod.splits)
  show "if nf AND FLAG_COMPRESSED_PAYLOAD \<noteq> 0 then decompress renv np dsz = Ok bs \<and> np \<noteq> [] else np = bs \<and> length bs = dsz"
  proof (cases "f AND FLAG_COMPRESSED_PAYLOAD \<noteq> 0")
    case True
    then have "decompress env body dsz = Ok np" "decompress renv body dsz = Ok bs"
      using assms(1-3) by (auto simp: transcode_payload_def bind_r_ok_iff)
    then have "np = bs" "length bs = dsz" by (simp_all add: dec) (auto simp: decompress_def split: option.splits if_splits)
    moreover have "\<not> nf AND FLAG_COMPRESSED_PAYLOAD \<noteq> 0"
      using True flag_01_others(1) [of f] by (simp only: nf if_True) simp
    ultimately show ?thesis by (simp only: if_False simp_thms)
  next
    case False
    then have b: "length body = dsz" "compress_if_beneficial env body = (True, np)" "bs = take dsz body"
      using assms(1-3) by (auto simp: transcode_payload_def split: if_splits bool.splits prod.splits)
    from compress_beneficial_some [OF b(2)] obtain n where "we_compress env body n = Some np" by blast
    then have "np \<noteq> []" "we_decompress renv np dsz = Some bs" using assms(5) b by (auto simp: zstd_law_def)
    moreover have "nf AND FLAG_COMPRESSED_PAYLOAD \<noteq> 0"
      using False flag_01_others(2) [of f] by (simp only: nf if_False) simp
    ultimately show ?thesis using b by (simp only: if_True) (simp add: decompress_def)
  qed
qed

section \<open>Properties\<close>

text \<open>The decoded form always exists: a node that itself accepts a compressed frame within its budget can hand
  the packet to a peer without the codec.\<close>

lemma plain_encoding_possible:
  assumes "unpack_packet_with_role env book raw managed adm = (Ok pkt, adm')" "\<not> has_probe adm0"
    and "raw ! 0 AND FLAG_E2E_ENCRYPTED_PAYLOAD = 0" "raw ! 0 AND FLAG_COMPRESSED_PAYLOAD \<noteq> 0"
    and "pkt_data_size pkt \<le> budget" "pkt_data_size pkt + length raw \<le> ISIZE_MAX"
  shows "\<exists>raw'. payload_encoding_for_side env raw False budget adm0 = (Ok (Some raw'), adm0)"
proof -
  obtain data pf r adm1 pl where crc: "verify_crc32 (we_crc env) raw = Ok data"
    and parse: "parse_frame (we_packet env) (reader_new data) = Ok (pf, r)"
    and dec: "decode_payload env data pf r adm1 = (Ok pl, adm')"
    and new: "new_with_owned_wire_contract (we_packet env) (pf_ty pf) (pf_eps pf)
       (sender_name_for_address book (fh_source (pf_header pf))) (fh_ts (pf_header pf)) (fh_nonce (pf_header pf)) pl
       (wc_shape (pf_contract pf)) (wc_target_senders (pf_contract pf)) = Ok pkt"
    by (rule unpack_inversion [OF assms(1)])
  have len: "length data < 2 ^ 64" "length data + 4 \<le> length raw" "raw \<noteq> []"
    using verify_crc32_ok [OF crc] assms(6) by auto
  obtain e r0 r1 where e: "read_routing_envelope (we_packet env) (reader_new data) = Ok (e, r0)"
    and hd: "read_frame_header (reader_new data) = Ok (pf_header pf, r1)"
    and rel: "read_packet_reliable (re_is_reliable e \<or> re_has_reliable_header e)
      (fh_flags (pf_header pf) AND FLAG_COMPACT_RELIABLE_HEADER \<noteq> 0) r0 = Ok (pf_reliable pf, r)"
    by (rule envelope_agrees [OF parse new_packet_fields(2) [OF new] len(1)])
  obtain p where p: "data = parts_bytes p" "r = \<lparr>rd_buf = data, rd_off = length (parts_header p)\<rparr>" "parts_read (we_packet env) p pf"
    by (rule frame_anatomy [OF parse])
  have f: "fh_flags (pf_header pf) = fp_flags p" using p(3) by (simp add: parts_read_def)
  have raw0: "raw ! 0 = fp_flags p"
    using verify_crc32_ok [OF crc] first_byte [OF hd] by (simp add: f)
  have stop: "(if re_is_reliable e \<or> re_has_reliable_header e
      then seq_rd (read_reliable_header_encoded (fp_flags p AND FLAG_COMPACT_RELIABLE_HEADER \<noteq> 0)) (\<lambda>_. give ()) r0
      else Ok ((), r0)) = Ok ((), r)"
    using rel by (auto simp: f read_packet_reliable_def seq_rd_ok give_def split: if_splits)
  obtain wire r' bs where w: "read_payload_wire env data (fp_flags p) (fh_dsz (pf_header pf)) r = Ok (wire, r')"
    and bs: "decompress env wire (fh_dsz (pf_header pf)) = Ok bs" and pl: "pl = small_payload_new (we_packet env) bs"
      "length bs = fh_dsz (pf_header pf)"
    using decode_payload_ok [OF dec] assms(4) by (metis f raw0)
  have wire: "wire = fp_body p"
    using plain_wire [of "fp_flags p" env data] w assms(3, 4) by (simp add: p(1, 2) parts_bytes_def raw0)
  have size: "pkt_data_size pkt = fh_dsz (pf_header pf)" by (simp add: new_packet_fields(1) [OF new] pl)
  have cut: "take (rd_off r) data = parts_header p" "drop (rd_off r) data = fp_body p"
    by (simp_all add: p(1, 2) parts_bytes_def)
  have room: "\<not> (budget < fh_dsz (pf_header pf) \<or> ISIZE_MAX - length (parts_header p) - 4 < fh_dsz (pf_header pf))"
    using assms(5, 6) len(2) by (auto simp: size p(1) parts_bytes_def)
  have flags: "\<not> fp_flags p AND FLAG_E2E_ENCRYPTED_PAYLOAD \<noteq> 0" "fp_flags p AND FLAG_COMPRESSED_PAYLOAD \<noteq> 0"
    using assms(3, 4) by (simp_all add: raw0)
  show ?thesis
    unfolding payload_encoding_for_side_def Let_def raw0
    by (simp only: len(3) flags if_True if_False simp_thms crc e stop bind_r_simps prod.case sum.case bool.case logical_size [OF hd] cut
        room check_free [OF assms(2)] transcode_payload_def bs [unfolded wire] option.case) simp
qed

text \<open>C12: re-encoding the payload of a frame for a side keeps its meaning.  Whatever node does it,
  with its own schema, the new frame unpacks at every receiver that accepts the old one, to
  the same packet; only the compression of the payload has changed.\<close>

theorem side_encoding_preserves_packet:
  assumes "payload_encoding_for_side env raw allowed max_decoded_bytes adm = (Ok (Some raw'), adm')"
    and "unpack_packet_with_role renv book raw managed radm = (Ok pkt, radm')" and "\<not> has_probe radm" and "length raw < 2 ^ 64"
    and "we_crc renv = we_crc env" and "we_decompress renv = we_decompress env" and "zstd_law env renv"
  shows "unpack_packet_with_role renv book raw' managed radm = (Ok pkt, radm) \<and>
    (raw' ! 0 AND FLAG_COMPRESSED_PAYLOAD = 0) = (raw ! 0 AND FLAG_COMPRESSED_PAYLOAD \<noteq> 0)"
proof -
  obtain data e r0 rs logical nf np where s: "raw ! 0 AND 0x10 = 0" "verify_crc32 (we_crc env) raw = Ok data"
    "read_routing_envelope (we_packet env) (reader_new data) = Ok (e, r0)"
    "(if re_is_reliable e \<or> re_has_reliable_header e
      then seq_rd (read_reliable_header_encoded (raw ! 0 AND FLAG_COMPACT_RELIABLE_HEADER \<noteq> 0)) (\<lambda>_. give ()) r0
      else Ok ((), r0)) = Ok ((), rs)"
    "read_logical_size data = Ok logical"
    "transcode_payload env (raw ! 0) (raw ! 0 AND FLAG_COMPRESSED_PAYLOAD \<noteq> 0) (drop (rd_off rs) data) logical = Ok (Some (nf, np))"
    "raw' = join_frame_with_crc (we_crc env) ((take (rd_off rs) data)[0 := nf]) np"
    by (rule side_encoding_inversion [OF assms(1)])
  obtain data' pf r adm1 pl where crc': "verify_crc32 (we_crc renv) raw = Ok data'"
    and parse': "parse_frame (we_packet renv) (reader_new data') = Ok (pf, r)"
    and dec': "decode_payload renv data' pf r adm1 = (Ok pl, radm')"
    and new: "new_with_owned_wire_contract (we_packet renv) (pf_ty pf) (pf_eps pf)
       (sender_name_for_address book (fh_source (pf_header pf))) (fh_ts (pf_header pf)) (fh_nonce (pf_header pf)) pl
       (wc_shape (pf_contract pf)) (wc_target_senders (pf_contract pf)) = Ok pkt"
    by (rule unpack_inversion [OF assms(2)])
  have dd: "data' = data" using crc' s(2) assms(5) by simp
  note parse = parse' [unfolded dd] and dec = dec' [unfolded dd]
  have len: "length data < 2 ^ 64" using verify_crc32_ok [OF s(2)] assms(4) by simp
  obtain e2 r02 r1 where e2: "read_routing_envelope (we_packet renv) (reader_new data) = Ok (e2, r02)"
    and hd: "read_frame_header (reader_new data) = Ok (pf_header pf, r1)"
    and rel: "read_packet_reliable (re_is_reliable e2 \<or> re_has_reliable_header e2)
      (fh_flags (pf_header pf) AND FLAG_COMPACT_RELIABLE_HEADER \<noteq> 0) r02 = Ok (pf_reliable pf, r)"
    by (rule envelope_agrees [OF parse new_packet_fields(2) [OF new] len])
  obtain p where p: "data = parts_bytes p" "r = \<lparr>rd_buf = data, rd_off = length (parts_header p)\<rparr>" "parts_read (we_packet renv) p pf"
    by (rule frame_anatomy [OF parse])
  have f: "fh_flags (pf_header pf) = fp_flags p" using p(3) by (simp add: parts_read_def)
  have raw0: "raw ! 0 = fp_flags p"
    using verify_crc32_ok [OF s(2)] first_byte [OF hd] by (simp add: f)
  have "rs = r"
    using reliable_stop [OF rel] s(4) envelope_cut [OF s(3) e2] by (simp only: raw0 f)
  then have cut: "take (rd_off rs) data = parts_header p" "drop (rd_off rs) data = fp_body p"
    by (simp_all add: p(1, 2) parts_bytes_def)
  have dsz: "logical = fh_dsz (pf_header pf)" using logical_size [OF hd] s(5) by simp
  obtain wire r' bs where w: "read_payload_wire renv data (fp_flags p) (fh_dsz (pf_header pf)) r = Ok (wire, r')"
    and bs: "(if fp_flags p AND FLAG_COMPRESSED_PAYLOAD \<noteq> 0 then decompress renv wire (fh_dsz (pf_header pf))
      else if length wire \<noteq> fh_dsz (pf_header pf) then Err (Unpack ''payload length mismatch'') else Ok wire) = Ok bs"
    and pl: "pl = small_payload_new (we_packet renv) bs"
    using decode_payload_ok [OF dec] by (metis f)
  have wire: "wire = (if fp_flags p AND FLAG_COMPRESSED_PAYLOAD = 0 then take (fh_dsz (pf_header pf)) (fp_body p) else fp_body p)"
    using plain_wire [of "fp_flags p" renv data] w s(1) by (simp add: p(1, 2) parts_bytes_def raw0)
  note tc = transcoded_body [OF s(6) [unfolded raw0 cut dsz] bs wire assms(6, 7)]
  define p' where "p' = p\<lparr>fp_flags := nf, fp_reliable := fp_reliable p, fp_body := np\<rparr>"
  define pf' where "pf' = pf\<lparr>pf_header := (pf_header pf)\<lparr>fh_flags := nf\<rparr>, pf_reliable := pf_reliable pf\<rparr>"
  have keep: "nf AND m = fp_flags p AND m" if "m \<in> set [0x02, 0x04, 0x08, 0x10, 0x20, 0x40, 0x80]" for m
    using flag_01_others(3, 4) [OF that, of "fp_flags p"] by (simp only: tc(1) split: if_split) simp
  have rel': "decodes (read_packet_reliable (fp_flags p AND FLAG_RELIABLE_HEADER_PRESENT \<noteq> 0 \<or> wc_has_reliable_header (pf_contract pf))
      (nf AND FLAG_COMPACT_RELIABLE_HEADER \<noteq> 0)) (fp_reliable p) (pf_reliable pf)"
    using p(3) keep [of "0x40"] by (simp add: parts_read_def)
  have pr: "parts_read (we_packet renv) p' pf'"
    unfolding p'_def pf'_def using rel' by (intro parts_read_update [OF p(3)]) (simp_all add: keep)
  have fits: "body_fits p' (fh_dsz (pf_header pf'))"
    using tc(2) by (auto simp: body_fits_def p'_def pf'_def split: if_splits)
  have "(parts_header p)[0 := nf] = parts_header p'" by (simp add: p'_def parts_header_def)
  then have raw': "raw' = join_frame_with_crc (we_crc env) (parts_header p') np" using s(7) cut(1) by simp
  have v: "verify_crc32 (we_crc renv) raw' = Ok (parts_bytes p')"
    by (simp add: raw' assms(5) verify_crc32_frame parts_bytes_def p'_def)
  have "decode_payload renv (parts_bytes p') pf' \<lparr>rd_buf = parts_header p' @ np, rd_off = length (parts_header p')\<rparr> radm = (Ok pl, radm)"
    unfolding pl using tc(2) s(1) keep [of "0x10"] assms(3) by (intro decode_plain_body) (auto simp: pf'_def raw0 split: if_splits)
  then have d: "decode_payload renv (parts_bytes p') pf' \<lparr>rd_buf = parts_bytes p', rd_off = length (parts_header p')\<rparr> radm = (Ok pl, radm)"
    by (simp add: parts_bytes_def p'_def)
  have "unpack_packet_with_role renv book raw' managed radm = (Ok pkt, radm)"
    using new by (intro unpack_parts [OF pr fits v assms(3) d]) (simp add: pf'_def)
  moreover have "raw' ! 0 = nf" by (simp add: raw' join_frame_with_crc_def parts_header_def p'_def)
  then have "(raw' ! 0 AND FLAG_COMPRESSED_PAYLOAD = 0) = (raw ! 0 AND FLAG_COMPRESSED_PAYLOAD \<noteq> 0)"
    using flag_01_others(1, 2) [of "fp_flags p"] by (simp add: tc(1) raw0)
  ultimately show ?thesis by blast
qed

section \<open>Reliable header\<close>

lemma compact_flag_others:
  "(set_compact_flag compact f AND FLAG_COMPACT_RELIABLE_HEADER \<noteq> 0) = compact"
  "m \<in> set [0x01, 0x02, 0x04, 0x08, 0x10, 0x20, 0x80] \<Longrightarrow> set_compact_flag compact f AND m = f AND m"
  for f m :: u8
proof -
  show "(set_compact_flag compact f AND FLAG_COMPACT_RELIABLE_HEADER \<noteq> 0) = compact"
    by (simp add: set_compact_flag_def and_or_distrib and.assoc)
  assume m: "m \<in> set [0x01, 0x02, 0x04, 0x08, 0x10, 0x20, 0x80]"
  then have n: "NOT FLAG_COMPACT_RELIABLE_HEADER AND m = m" "FLAG_COMPACT_RELIABLE_HEADER AND m = 0" by auto
  show "set_compact_flag compact f AND m = f AND m"
    unfolding set_compact_flag_def by (simp only: and.assoc and_or_distrib n split: if_split) simp
qed

text \<open>The prefix before the reliable header, as the locator of the header walks it.\<close>

lemma endpoints_skip:
  assumes "endpoints_from_wire_or_schema env bm lst ty nep r = Ok (eps, r')"
  shows "\<exists>x. (if lst then if bm then fail_rd (Unpack ''ambiguous endpoint encoding'') else read_endpoint_list nep
      else if bm then read_bytes EP_BITMAP_BYTES else give []) r = Ok (x, r')"
proof (cases lst)
  case True
  then show ?thesis using endpoints_from_list [of env bm ty nep r eps r'] assms by auto
next
  case False
  then show ?thesis
    using assms
    by (auto simp: endpoints_from_wire_or_schema_def seq_rd_ok bind_r_ok_iff give_def split: if_splits option.splits)
qed

lemma span_prefix_parts:
  assumes "parts_read env p pf"
  shows "decodes (read_span_prefix (fp_flags p)) (fp_prelude p @ fp_endpoints p @ fp_contract p)
    (fh_ty (pf_header pf), pf_contract pf)"
  unfolding decodes_def
proof (intro allI)
  fix pre post
  let ?f = "fp_flags p" and ?h = "pf_header pf"
  define buf where "buf = pre @ (fp_prelude p @ fp_endpoints p @ fp_contract p) @ post"
  let ?at = "\<lambda>xs. \<lparr>rd_buf = buf, rd_off = length xs\<rparr>"
  note pr = assms [unfolded parts_read_def]
  have "header_rest ?f (?at pre) = Ok (?h, ?at (pre @ fp_prelude p))"
    using decodes_at [of "header_rest ?f" "fp_prelude p" ?h buf pre "fp_endpoints p @ fp_contract p @ post" "length pre"] pr
    by (simp add: buf_def)
  then obtain nep r2 ty r3 dsz r4 ts r5 nonce r6 source where
    2: "read_byte (?at pre) = Ok (nep, r2)" and 3: "read_uleb128 r2 = Ok (ty, r3)" and
    4: "read_uleb128 r3 = Ok (dsz, r4)" and 5: "read_uleb128 r4 = Ok (ts, r5)" and
    6: "(if ?f AND FLAG_PACKET_NONCE \<noteq> 0 then read_uleb_narrow ''packet nonce too large'' else give 0) r5 = Ok (nonce, r6)" and
    7: "read_uleb_narrow ''source address too large'' r6 = Ok (source, ?at (pre @ fp_prelude p))" and
    h: "?h = \<lparr>fh_flags = ?f, fh_nep = unat nep, fh_ty = ty, fh_dsz = unat dsz, fh_ts = ts, fh_nonce = nonce, fh_source = source\<rparr>"
    unfolding header_rest_def by (elim seq_rdE) (rule that, assumption+, auto)
  have hf: "fh_nep ?h = unat nep" "fh_ty ?h = ty" by (simp_all add: h)
  let ?eps = "endpoints_from_wire_or_schema env (?f AND FLAG_ENDPOINT_BITMAP_PRESENT \<noteq> 0)
      (?f AND FLAG_ENDPOINT_LIST_PRESENT \<noteq> 0) (try_from_u32 env (pf_ty pf)) (fh_nep ?h)"
  have seg: "decodes ?eps (fp_endpoints p) (pf_eps pf)" using pr by blast
  have "?eps (?at (pre @ fp_prelude p)) = Ok (pf_eps pf, ?at (pre @ fp_prelude p @ fp_endpoints p))"
    using decodes_at [OF seg, of buf "pre @ fp_prelude p" "fp_contract p @ post" "length (pre @ fp_prelude p)"]
    by (simp add: buf_def)
  from endpoints_skip [OF this] obtain x where 8: "(if ?f AND FLAG_ENDPOINT_LIST_PRESENT \<noteq> 0
      then if ?f AND FLAG_ENDPOINT_BITMAP_PRESENT \<noteq> 0 then fail_rd (Unpack ''ambiguous endpoint encoding'')
        else read_endpoint_list (unat nep)
      else if ?f AND FLAG_ENDPOINT_BITMAP_PRESENT \<noteq> 0 then read_bytes EP_BITMAP_BYTES else give []) (?at (pre @ fp_prelude p)) =
    Ok (x, ?at (pre @ fp_prelude p @ fp_endpoints p))"
    unfolding hf by blast
  have "decodes (decode_wire_contract (?f AND FLAG_WIRE_CONTRACT \<noteq> 0)) (fp_contract p) (pf_contract pf)" using pr by blast
  from decodes_at [OF this, of buf "pre @ fp_prelude p @ fp_endpoints p" post "length (pre @ fp_prelude p @ fp_endpoints p)"]
  have 9: "decode_wire_contract (?f AND FLAG_WIRE_CONTRACT \<noteq> 0) (?at (pre @ fp_prelude p @ fp_endpoints p)) =
      Ok (pf_contract pf, ?at (pre @ fp_prelude p @ fp_endpoints p @ fp_contract p))"
    by (simp add: buf_def)
  have "(if ?f AND FLAG_ENDPOINT_BITMAP_PRESENT \<noteq> 0 then EP_BITMAP_BYTES else 0) \<le> length (fp_endpoints p)"
    using bitmap_segment [OF seg] by (cases "?f AND FLAG_ENDPOINT_BITMAP_PRESENT \<noteq> 0") simp_all
  then have 10: "\<not> remaining (?at (pre @ fp_prelude p)) <
      (if ?f AND FLAG_ENDPOINT_BITMAP_PRESENT \<noteq> 0 then EP_BITMAP_BYTES else 0)"
    by (simp only: remaining_def) (simp add: buf_def)
  have "read_span_prefix ?f (?at pre) = Ok ((ty, pf_contract pf), ?at (pre @ fp_prelude p @ fp_endpoints p @ fp_contract p))"
    unfolding read_span_prefix_def
    by (simp only: seq_rd_step 2 3 4 5 nonce_skip [OF 6] 7 10 if_False 8 9) (simp add: give_def)
  then show "read_span_prefix ?f \<lparr>rd_buf = pre @ (fp_prelude p @ fp_endpoints p @ fp_contract p) @ post, rd_off = length pre\<rparr> =
      Ok ((fh_ty ?h, pf_contract pf), \<lparr>rd_buf = pre @ (fp_prelude p @ fp_endpoints p @ fp_contract p) @ post,
        rd_off = length pre + length (fp_prelude p @ fp_endpoints p @ fp_contract p)\<rparr>)"
    by (simp add: buf_def hf)
qed

text \<open>The locator finds exactly the reliable segment of an accepted frame.\<close>

lemma span_of_parts:
  assumes "parts_read env p pf" "length trailer = 4"
  shows "reliable_header_span (parts_bytes p @ trailer) =
    Ok (map_option (\<lambda>h. (length (fp_flags p # fp_prelude p @ fp_endpoints p @ fp_contract p), length (fp_reliable p), h)) (pf_reliable pf))"
proof -
  let ?f = "fp_flags p"
  define pfx where "pfx = fp_prelude p @ fp_endpoints p @ fp_contract p"
  define data where "data = parts_bytes p"
  note pr = assms(1) [unfolded parts_read_def]
  have data: "data = [?f] @ pfx @ fp_reliable p @ fp_body p"
    by (simp add: data_def parts_bytes_def parts_header_def pfx_def)
  have t: "take (length (data @ trailer) - 4) (data @ trailer) = data" using assms(2) by simp
  have 1: "read_byte (reader_new data) = Ok (?f, \<lparr>rd_buf = data, rd_off = length [?f]\<rparr>)"
    using decodes_start [OF decodes_read_byte, of ?f "pfx @ fp_reliable p @ fp_body p"] by (simp add: data)
  have 2: "read_span_prefix ?f \<lparr>rd_buf = data, rd_off = length [?f]\<rparr> =
      Ok ((fh_ty (pf_header pf), pf_contract pf), \<lparr>rd_buf = data, rd_off = length ([?f] @ pfx)\<rparr>)"
    using decodes_at [OF span_prefix_parts [OF assms(1), folded pfx_def], of data "[?f]" "fp_reliable p @ fp_body p" 1]
    by (simp add: data)
  have ty: "data_type_id_from_wire (fh_ty (pf_header pf)) = Ok (pf_ty pf)" using pr by blast
  let ?present = "?f AND FLAG_RELIABLE_HEADER_PRESENT \<noteq> 0 \<or> wc_has_reliable_header (pf_contract pf)"
  have seg: "decodes (read_packet_reliable ?present (?f AND FLAG_COMPACT_RELIABLE_HEADER \<noteq> 0)) (fp_reliable p) (pf_reliable pf)"
    using pr by blast
  have rel: "read_packet_reliable ?present (?f AND FLAG_COMPACT_RELIABLE_HEADER \<noteq> 0) \<lparr>rd_buf = data, rd_off = length ([?f] @ pfx)\<rparr> =
      Ok (pf_reliable pf, \<lparr>rd_buf = data, rd_off = length ([?f] @ pfx) + length (fp_reliable p)\<rparr>)"
    using decodes_at [OF seg, of data "[?f] @ pfx" "fp_body p" "length ([?f] @ pfx)"] by (simp add: data)
  have len: "\<not> length (data @ trailer) < 5" using assms(2) by (simp add: data)
  show ?thesis
  proof (cases ?present)
    case False
    then have "pf_reliable pf = None" using rel by (simp add: read_packet_reliable_def give_def)
    moreover have "?f AND FLAG_RELIABLE_HEADER_PRESENT = 0 \<and> \<not> wc_has_reliable_header (pf_contract pf)" using False by blast
    ultimately show ?thesis
      unfolding data_def [symmetric] reliable_header_span_def t
      by (simp only: len if_False 1 bind_r_simps prod.case 2 ty) simp
  next
    case True
    then obtain hdr where "read_reliable_header_encoded (?f AND FLAG_COMPACT_RELIABLE_HEADER \<noteq> 0) \<lparr>rd_buf = data, rd_off = length ([?f] @ pfx)\<rparr> =
        Ok (hdr, \<lparr>rd_buf = data, rd_off = length ([?f] @ pfx) + length (fp_reliable p)\<rparr>)" "pf_reliable pf = Some hdr"
      using rel by (auto simp: read_packet_reliable_def seq_rd_ok split: if_splits)
    moreover have "\<not> (?f AND FLAG_RELIABLE_HEADER_PRESENT = 0 \<and> \<not> wc_has_reliable_header (pf_contract pf))" using True by blast
    ultimately show ?thesis
      unfolding data_def [symmetric] reliable_header_span_def t
      by (simp only: len if_False 1 bind_r_simps prod.case 2 ty) (simp add: pfx_def)
  qed
qed

lemma accepted_span:
  assumes "unpack_packet_with_role env book raw managed adm = (Ok pkt, adm')" "raw ! 0 AND FLAG_RELIABLE_HEADER_PRESENT \<noteq> 0"
  obtains off old_len old where "reliable_header_span raw = Ok (Some (off, old_len, old))"
proof -
  obtain data pf r where crc: "verify_crc32 (we_crc env) raw = Ok data"
    and parse: "parse_frame (we_packet env) (reader_new data) = Ok (pf, r)"
    by (rule unpack_inversion [OF assms(1)])
  obtain p where p: "data = parts_bytes p" "parts_read (we_packet env) p pf"
    by (rule frame_anatomy [OF parse])
  have raw: "raw = parts_bytes p @ drop (length raw - 4) raw" "length (drop (length raw - 4) raw) = 4"
    using verify_crc32_ok [OF crc] by (simp_all add: p(1) [symmetric])
  have "raw ! 0 = fp_flags p" by (subst raw(1)) (simp add: parts_bytes_def parts_header_def)
  then have "fp_flags p AND FLAG_RELIABLE_HEADER_PRESENT \<noteq> 0" using assms(2) by simp
  moreover have "decodes (read_packet_reliable (fp_flags p AND FLAG_RELIABLE_HEADER_PRESENT \<noteq> 0 \<or> wc_has_reliable_header (pf_contract pf))
      (fp_flags p AND FLAG_COMPACT_RELIABLE_HEADER \<noteq> 0)) (fp_reliable p) (pf_reliable pf)"
    using p(2) unfolding parts_read_def by blast
  ultimately have "\<exists>h. Some h = pf_reliable pf"
    by (auto simp: read_packet_reliable_def seq_rd_ok give_def fail_rd_def split: if_splits dest!: decodesD [where pre = "[]" and post = "[]"])
  then have "pf_reliable pf \<noteq> None" by (metis option.distinct(1))
  then show thesis using that span_of_parts [OF p(2) raw(2), folded raw(1)] by auto
qed

lemma decodes_present_reliable:
  assumes "rh_flags h AND RELIABLE_FLAG_ACK_ONLY = 0" "compact = should_compact_reliable_header h" present
  shows "decodes (read_packet_reliable present compact) (reliable_bytes compact h) (Some (read_back compact h))"
  using decodes_packet_reliable [of "Some h"] assms by (simp add: reliable_section_def)

lemma set_head_append: "xs \<noteq> [] \<Longrightarrow> (xs @ ys)[0 := b] = xs[0 := b] @ ys"
  by (cases xs) simp_all

text \<open>The two rewriters on a frame given by its parts.\<close>

lemma rewrite_parts:
  assumes "reliable_header_span (parts_bytes p @ trailer) = Ok (Some (off, old_len, old))" "length trailer = 4"
    and "off = length (fp_flags p # fp_prelude p @ fp_endpoints p @ fp_contract p)" "old_len = length (fp_reliable p)"
    and "hdr = \<lparr>rh_flags = flags, rh_seq = sq, rh_ack = ack\<rparr>" "compact = should_compact_reliable_header hdr"
    and "p' = p\<lparr>fp_flags := set_compact_flag compact (fp_flags p), fp_reliable := reliable_bytes compact hdr, fp_body := fp_body p\<rparr>"
  shows "rewrite_reliable_header_owned crc (parts_bytes p @ trailer) flags sq ack = Ok (Some (append_crc32 crc (parts_bytes p')))"
    and "rewrite_reliable_header crc (parts_bytes p @ trailer) flags sq ack =
      (if reliable_wire_size hdr compact = old_len then (Ok True, append_crc32 crc (parts_bytes p'))
       else (Err (Unpack ''reliable header rewrite changes wire size''), parts_bytes p @ trailer))"
proof -
  define pfx where "pfx = fp_flags p # fp_prelude p @ fp_endpoints p @ fp_contract p"
  define npfx where "npfx = set_compact_flag compact (fp_flags p) # fp_prelude p @ fp_endpoints p @ fp_contract p"
  have old: "parts_bytes p = pfx @ fp_reliable p @ fp_body p" by (simp add: parts_bytes_def parts_header_def pfx_def)
  have new: "parts_bytes p' = npfx @ reliable_bytes compact hdr @ fp_body p"
    by (simp add: assms(7) parts_bytes_def parts_header_def npfx_def)
  have head: "pfx[0 := set_compact_flag compact (pfx ! 0)] = npfx" "pfx \<noteq> []" "length npfx = length pfx"
    by (simp_all add: pfx_def npfx_def)
  have h0: "(parts_bytes p @ trailer) ! 0 = pfx ! 0" using head(2) by (simp add: old nth_append)
  have off: "off = length pfx" by (simp add: assms(3) pfx_def)
  note span = assms(1) [unfolded off assms(4)]
  show "rewrite_reliable_header_owned crc (parts_bytes p @ trailer) flags sq ack = Ok (Some (append_crc32 crc (parts_bytes p')))"
    unfolding rewrite_reliable_header_owned_def span bind_r_simps option.case prod.case Let_def assms(5) [symmetric] assms(6) [symmetric]
    by (simp add: assms(2) old new write_reliable_header_encoded_append head append_crc32_def)
  have "(parts_bytes p @ trailer)[0 := set_compact_flag compact (pfx ! 0)] = npfx @ fp_reliable p @ fp_body p @ trailer"
    using set_head_append [OF head(2), of "fp_reliable p @ fp_body p @ trailer"] by (simp add: old head)
  then show "rewrite_reliable_header crc (parts_bytes p @ trailer) flags sq ack =
      (if reliable_wire_size hdr compact = old_len then (Ok True, append_crc32 crc (parts_bytes p'))
       else (Err (Unpack ''reliable header rewrite changes wire size''), parts_bytes p @ trailer))"
    unfolding rewrite_reliable_header_def span sum.case option.case prod.case Let_def assms(4) assms(5) [symmetric] assms(6) [symmetric] h0
    by (auto simp: head assms(2) old new write_reliable_header_encoded_append append_crc32_def
        length_reliable_bytes [symmetric] saturating_sub_def)
qed

text \<open>A frame with a new reliable header opens to what the old one opened to.\<close>

lemma unpack_rewritten:
  assumes "parts_read (we_packet renv) p pf" "new_with_owned_wire_contract (we_packet renv) (pf_ty pf) (pf_eps pf)
       (sender_name_for_address book (fh_source (pf_header pf))) (fh_ts (pf_header pf)) (fh_nonce (pf_header pf)) pl
       (wc_shape (pf_contract pf)) (wc_target_senders (pf_contract pf)) = Ok pkt"
    and "decode_payload renv (parts_bytes p) pf \<lparr>rd_buf = parts_bytes p, rd_off = length (parts_header p)\<rparr> adm = (Ok pl, adm')"
    and "fp_flags p AND FLAG_E2E_ENCRYPTED_PAYLOAD = 0" "\<not> has_probe radm" "pf_reliable pf \<noteq> None"
    and "rh_flags hdr AND RELIABLE_FLAG_ACK_ONLY = 0" "compact = should_compact_reliable_header hdr"
    and "p' = p\<lparr>fp_flags := set_compact_flag compact (fp_flags p), fp_reliable := reliable_bytes compact hdr, fp_body := fp_body p\<rparr>"
  obtains pf' where "parts_read (we_packet renv) p' pf'" "pf_reliable pf' = Some (read_back compact hdr)"
    "unpack_packet_with_role renv book (append_crc32 (we_crc renv) (parts_bytes p')) managed radm = (Ok pkt, radm)"
proof -
  let ?nf = "set_compact_flag compact (fp_flags p)" and ?dsz = "fh_dsz (pf_header pf)"
  let ?present = "fp_flags p AND FLAG_RELIABLE_HEADER_PRESENT \<noteq> 0 \<or> wc_has_reliable_header (pf_contract pf)"
  define pf' where "pf' = pf\<lparr>pf_header := (pf_header pf)\<lparr>fh_flags := ?nf\<rparr>, pf_reliable := Some (read_back compact hdr)\<rparr>"
  have f: "fh_flags (pf_header pf) = fp_flags p" using assms(1) by (simp add: parts_read_def)
  have "decodes (read_packet_reliable ?present (fp_flags p AND FLAG_COMPACT_RELIABLE_HEADER \<noteq> 0)) (fp_reliable p) (pf_reliable pf)"
    using assms(1) unfolding parts_read_def by blast
  then have present: ?present
    using assms(6) by (rule_tac ccontr) (auto dest!: decodesD [where pre = "[]" and post = "[]"] simp: read_packet_reliable_def give_def)
  have rel: "decodes (read_packet_reliable ?present (?nf AND FLAG_COMPACT_RELIABLE_HEADER \<noteq> 0)) (reliable_bytes compact hdr)
      (Some (read_back compact hdr))"
    using decodes_present_reliable [OF assms(7, 8) present] by (simp only: compact_flag_others(1))
  have pr: "parts_read (we_packet renv) p' pf'"
    unfolding assms(9) pf'_def using rel by (intro parts_read_update [OF assms(1)]) (simp_all add: compact_flag_others(2))
  obtain wire r' bs where w: "read_payload_wire renv (parts_bytes p) (fp_flags p) ?dsz \<lparr>rd_buf = parts_bytes p, rd_off = length (parts_header p)\<rparr> = Ok (wire, r')"
    and bs: "(if fp_flags p AND FLAG_COMPRESSED_PAYLOAD \<noteq> 0 then decompress renv wire ?dsz
      else if length wire \<noteq> ?dsz then Err (Unpack ''payload length mismatch'') else Ok wire) = Ok bs"
    and pl: "pl = small_payload_new (we_packet renv) bs"
    using decode_payload_ok [OF assms(3)] by (metis f)
  have "wire = (if fp_flags p AND FLAG_COMPRESSED_PAYLOAD = 0 then take ?dsz (fp_body p) else fp_body p)"
    using plain_wire [OF assms(4)] w by (simp add: parts_bytes_def)
  then have body: "if fp_flags p AND FLAG_COMPRESSED_PAYLOAD \<noteq> 0 then decompress renv (fp_body p) ?dsz = Ok bs
      else take ?dsz (fp_body p) = bs \<and> length bs = ?dsz"
    using bs by (auto split: if_splits)
  have "reliable_bytes compact hdr \<noteq> []"
    by (simp add: reliable_bytes_def write_reliable_header_encoded_def write_reliable_header_def write_u32_le_def write_uleb128_append Let_def)
  then have fits: "body_fits p' (fh_dsz (pf_header pf'))"
    using body by (auto simp: body_fits_def assms(9) pf'_def compact_flag_others(2) split: if_splits)
  have "decode_payload renv (parts_bytes p') pf' \<lparr>rd_buf = parts_header p' @ fp_body p, rd_off = length (parts_header p')\<rparr> radm = (Ok pl, radm)"
    unfolding pl using body assms(4, 5) by (intro decode_plain_body) (simp_all add: pf'_def compact_flag_others(2))
  then have d: "decode_payload renv (parts_bytes p') pf' \<lparr>rd_buf = parts_bytes p', rd_off = length (parts_header p')\<rparr> radm = (Ok pl, radm)"
    by (simp add: parts_bytes_def assms(9))
  show thesis
  proof (rule that [OF pr])
    show "pf_reliable pf' = Some (read_back compact hdr)" by (simp add: pf'_def)
    show "unpack_packet_with_role renv book (append_crc32 (we_crc renv) (parts_bytes p')) managed radm = (Ok pkt, radm)"
      using assms(2) by (intro unpack_parts [OF pr fits verify_crc32_frame(1) assms(5) d]) (simp add: pf'_def)
  qed
qed

text \<open>C11: rewriting the reliable header of an accepted frame whose payload is not sealed, with a header that is
  not a bare acknowledgement, always succeeds in the owned form: the new frame unpacks to the same packet, its
  checksum is right and the locator finds the new header in place of the old one, as the encoding chosen for it
  reads back.  The in-place form writes exactly the same frame when the new header has the size of the old
  one, and otherwise refuses and leaves the buffer alone.\<close>

theorem reliable_rewrite_preserves_packet:
  assumes "unpack_packet_with_role renv book raw managed adm = (Ok pkt, adm')" and "raw ! 0 AND FLAG_E2E_ENCRYPTED_PAYLOAD = 0"
    and "reliable_header_span raw = Ok (Some (off, old_len, old))"
    and "hdr = \<lparr>rh_flags = flags, rh_seq = sq, rh_ack = ack\<rparr>" and "compact = should_compact_reliable_header hdr"
    and "flags AND RELIABLE_FLAG_ACK_ONLY = 0" and "\<not> has_probe radm"
  shows "\<exists>raw'. rewrite_reliable_header_owned (we_crc renv) raw flags sq ack = Ok (Some raw') \<and>
    unpack_packet_with_role renv book raw' managed radm = (Ok pkt, radm) \<and>
    reliable_header_span raw' = Ok (Some (off, reliable_wire_size hdr compact, read_back compact hdr)) \<and>
    rewrite_reliable_header (we_crc renv) raw flags sq ack =
      (if reliable_wire_size hdr compact = old_len then (Ok True, raw')
       else (Err (Unpack ''reliable header rewrite changes wire size''), raw))"
proof -
  obtain data pf r adm1 pl where crc: "verify_crc32 (we_crc renv) raw = Ok data"
    and parse: "parse_frame (we_packet renv) (reader_new data) = Ok (pf, r)"
    and dec: "decode_payload renv data pf r adm1 = (Ok pl, adm')"
    and new: "new_with_owned_wire_contract (we_packet renv) (pf_ty pf) (pf_eps pf)
       (sender_name_for_address book (fh_source (pf_header pf))) (fh_ts (pf_header pf)) (fh_nonce (pf_header pf)) pl
       (wc_shape (pf_contract pf)) (wc_target_senders (pf_contract pf)) = Ok pkt"
    by (rule unpack_inversion [OF assms(1)])
  obtain p where p: "data = parts_bytes p" "r = \<lparr>rd_buf = data, rd_off = length (parts_header p)\<rparr>" "parts_read (we_packet renv) p pf"
    by (rule frame_anatomy [OF parse])
  define trailer where "trailer = drop (length raw - 4) raw"
  have raw: "raw = parts_bytes p @ trailer" "length trailer = 4"
    using verify_crc32_ok [OF crc] by (simp_all add: p(1) [symmetric] trailer_def)
  have f: "fp_flags p AND FLAG_E2E_ENCRYPTED_PAYLOAD = 0" using assms(2) by (simp add: raw(1) parts_bytes_def parts_header_def)
  have span: "off = length (fp_flags p # fp_prelude p @ fp_endpoints p @ fp_contract p)" "old_len = length (fp_reliable p)"
      "pf_reliable pf \<noteq> None"
    using assms(3) span_of_parts [OF p(3) raw(2)] by (auto simp: raw(1))
  have ack: "rh_flags hdr AND RELIABLE_FLAG_ACK_ONLY = 0" using assms(4, 6) by simp
  define p' where "p' = p\<lparr>fp_flags := set_compact_flag compact (fp_flags p), fp_reliable := reliable_bytes compact hdr, fp_body := fp_body p\<rparr>"
  note rw = rewrite_parts [OF assms(3) [unfolded raw(1)] raw(2) span(1, 2) assms(4, 5) p'_def, folded raw(1)]
  obtain pf' where pf': "parts_read (we_packet renv) p' pf'" "pf_reliable pf' = Some (read_back compact hdr)"
    "unpack_packet_with_role renv book (append_crc32 (we_crc renv) (parts_bytes p')) managed radm = (Ok pkt, radm)"
    by (rule unpack_rewritten [OF p(3) new dec [unfolded p(1, 2)] f assms(7) span(3) ack assms(5) p'_def])
  have "reliable_header_span (append_crc32 (we_crc renv) (parts_bytes p')) =
      Ok (Some (off, reliable_wire_size hdr compact, read_back compact hdr))"
    unfolding append_crc32_def using span_of_parts [OF pf'(1), of "le_bytes 4 (we_crc renv (parts_bytes p'))"]
    by (simp add: pf'(2) span(1) p'_def length_reliable_bytes)
  then show ?thesis using rw pf'(3) by blast
qed

section \<open>Concrete frames\<close>

definition codec_wire :: WireEnv where
  "codec_wire = example_wire\<lparr>we_compress := (\<lambda>bs _. if bs = [1, 2, 3, 4] then Some [7] else None),
    we_decompress := (\<lambda>bs n. if bs = [7] \<and> n = 4 then Some [1, 2, 3, 4] else None), we_threshold := 4\<rparr>"

definition compressed_frame :: bytes where
  "compressed_frame = [137, 1, 240, 162, 4, 4, 5, 1, 144, 206, 135, 167, 11, 172, 2, 7, 118, 5, 0, 0]"

lemma compressed_frame_packed: "fst (pack_packet codec_wire example_gps Map.empty) = Some compressed_frame"
  by code_simp

lemma codec_law: "zstd_law codec_wire codec_wire" "we_packet codec_wire = example_env"
  by (simp_all add: zstd_law_def codec_wire_def example_gps_fits)

lemma compressed_frame_unpacks:
  "unpack_packet_with_role codec_wire Map.empty compressed_frame False idle_admission =
    (Ok (received_packet example_env Map.empty example_gps None []), idle_admission)"
proof -
  obtain book' where p: "pack_frame codec_wire example_gps None None [] None True Map.empty = (Some (Ok compressed_frame), book')"
    using compressed_frame_packed
    by (auto simp: pack_packet_frame codec_law example_unreliable example_gps_fits apfst_def map_prod_def split: option.splits sum.splits prod.splits)
  have "receiver_resolves codec_wire example_env example_gps None []"
    using example_gps_fits(1)
    by (simp add: receiver_resolves_def section_resolves_def packet_endpoint_bitmap_present_def codec_law example_gps_fits(10))
  then show ?thesis
    using unpack_pack_frame [OF p, of codec_wire idle_admission Map.empty False] example_gps_fits codec_law by simp
qed

theorem side_encoding_preserves_packet_witness:
  "\<exists>raw' pkt. payload_encoding_for_side codec_wire compressed_frame False 100 idle_admission = (Ok (Some raw'), idle_admission) \<and>
    unpack_packet_with_role codec_wire Map.empty raw' False idle_admission = (Ok pkt, idle_admission) \<and>
    payload pkt = [1, 2, 3, 4] \<and> raw' ! 0 AND FLAG_COMPRESSED_PAYLOAD = 0"
proof -
  define pkt where "pkt = received_packet example_env Map.empty example_gps None []"
  have pl: "payload pkt = [1, 2, 3, 4]" "pkt_data_size pkt = 4"
    unfolding pkt_def received_packet_fields by (simp_all add: example_gps_def payload_def as_slice_def)
  note u = compressed_frame_unpacks [folded pkt_def]
  have len: "length compressed_frame < 2 ^ 64" by (simp add: compressed_frame_def)
  obtain raw' where r: "payload_encoding_for_side codec_wire compressed_frame False 100 idle_admission = (Ok (Some raw'), idle_admission)"
    using plain_encoding_possible [OF u example_gps_fits(8), where budget = 100] pl by (auto simp: compressed_frame_def)
  from side_encoding_preserves_packet [OF r u example_gps_fits(8) len refl refl codec_law(1)] r pl
  show ?thesis by (auto simp: compressed_frame_def)
qed

definition reliable_frame :: bytes where
  "reliable_frame = [202, 1, 240, 162, 4, 4, 5, 1, 144, 206, 135, 167, 11, 172, 2, 4, 9, 1, 2, 3, 4, 199, 5, 0, 0]"

lemma reliable_frame_packed:
  "fst (pack_frame example_wire example_gps (Some \<lparr>rh_flags = 0, rh_seq = 9, rh_ack = 0\<rparr>) None [] None False Map.empty) =
    Some (Ok reliable_frame)"
  by code_simp

lemma reliable_frame_unpacks:
  "unpack_packet_with_role example_wire Map.empty reliable_frame False idle_admission =
    (Ok (received_packet example_env Map.empty example_gps None []), idle_admission)"
proof -
  obtain book' where p: "pack_frame example_wire example_gps (Some \<lparr>rh_flags = 0, rh_seq = 9, rh_ack = 0\<rparr>) None [] None False Map.empty =
      (Some (Ok reliable_frame), book')"
    using reliable_frame_packed by (metis prod.collapse)
  then show ?thesis
    using unpack_pack_frame [OF p, of example_wire idle_admission Map.empty False] example_gps_fits by simp
qed

lemma reliable_ten: "should_compact_reliable_header \<lparr>rh_flags = 0, rh_seq = 10, rh_ack = 0\<rparr>"
  "reliable_wire_size \<lparr>rh_flags = 0, rh_seq = 10, rh_ack = 0\<rparr> True = 2"
  "read_back True \<lparr>rh_flags = 0, rh_seq = 10, rh_ack = 0\<rparr> = \<lparr>rh_flags = 0, rh_seq = 10, rh_ack = 0\<rparr>"
  by code_simp+

theorem reliable_rewrite_preserves_packet_witness:
  "\<exists>raw' pkt off. rewrite_reliable_header_owned (we_crc example_wire) reliable_frame 0 10 0 = Ok (Some raw') \<and>
    unpack_packet_with_role example_wire Map.empty raw' False idle_admission = (Ok pkt, idle_admission) \<and>
    payload pkt = [1, 2, 3, 4] \<and>
    reliable_header_span raw' = Ok (Some (off, 2, \<lparr>rh_flags = 0, rh_seq = 10, rh_ack = 0\<rparr>))"
proof -
  have pl: "payload (received_packet example_env Map.empty example_gps None []) = [1, 2, 3, 4]"
    unfolding received_packet_fields by (simp add: example_gps_def payload_def as_slice_def)
  have f: "reliable_frame ! 0 AND FLAG_E2E_ENCRYPTED_PAYLOAD = 0" "reliable_frame ! 0 AND FLAG_RELIABLE_HEADER_PRESENT \<noteq> 0"
    by (simp_all add: reliable_frame_def)
  obtain off old_len old where s: "reliable_header_span reliable_frame = Ok (Some (off, old_len, old))"
    by (rule accepted_span [OF reliable_frame_unpacks f(2)])
  from reliable_rewrite_preserves_packet [OF reliable_frame_unpacks f(1) s refl refl _ example_gps_fits(8),
      of 0 10 0] reliable_ten pl
  show ?thesis by auto
qed

end
