(* ===== verification/Calendar.thy ===== *)
theory Calendar
  imports Packet "HOL-Library.Monad_Syntax"
begin

text \<open>
  Calendar time (\<^verbatim>\<open>src/src/timesync.rs\<close> and the time formatting of \<^verbatim>\<open>src/src/packet.rs\<close>):
  complete and partial readings, the conversions between Unix nanoseconds and the
  proleptic Gregorian calendar, and the printed form of a packet header.  Years are
  \<^verbatim>\<open>i32\<close>, timestamps \<^verbatim>\<open>i128\<close> values; both are integers here, with the range written out where
  the code checks it.  Proved: the two conversions are inverse on exactly the valid
  dates, and the two copies of the day conversion agree.
\<close>

section \<open>Readings\<close>

record NetworkTime =
  nt_year :: int
  nt_month :: nat
  nt_day :: nat
  nt_hour :: nat
  nt_minute :: nat
  nt_second :: nat
  nt_nanosecond :: nat

record PartialNetworkTime =
  pt_year :: "int option"
  pt_month :: "nat option"
  pt_day :: "nat option"
  pt_hour :: "nat option"
  pt_minute :: "nat option"
  pt_second :: "nat option"
  pt_nanosecond :: "nat option"

definition partial_default :: PartialNetworkTime where
  "partial_default = \<lparr>pt_year = None, pt_month = None, pt_day = None, pt_hour = None, pt_minute = None,
    pt_second = None, pt_nanosecond = None\<rparr>"

definition partial_from :: "NetworkTime \<Rightarrow> PartialNetworkTime" where
  "partial_from v = \<lparr>pt_year = Some (nt_year v), pt_month = Some (nt_month v), pt_day = Some (nt_day v),
    pt_hour = Some (nt_hour v), pt_minute = Some (nt_minute v), pt_second = Some (nt_second v),
    pt_nanosecond = Some (nt_nanosecond v)\<rparr>"

definition is_complete_date :: "PartialNetworkTime \<Rightarrow> bool" where
  "is_complete_date p = (pt_year p \<noteq> None \<and> pt_month p \<noteq> None \<and> pt_day p \<noteq> None)"

definition is_complete_time :: "PartialNetworkTime \<Rightarrow> bool" where
  "is_complete_time p = (pt_hour p \<noteq> None \<and> pt_minute p \<noteq> None \<and> pt_second p \<noteq> None)"

definition to_network_time :: "PartialNetworkTime \<Rightarrow> NetworkTime option" where
  "to_network_time p =
    do {
      year \<leftarrow> pt_year p; month \<leftarrow> pt_month p; day \<leftarrow> pt_day p;
      hour \<leftarrow> pt_hour p; minute \<leftarrow> pt_minute p; second \<leftarrow> pt_second p;
      Some \<lparr>nt_year = year, nt_month = month, nt_day = day, nt_hour = hour, nt_minute = minute,
        nt_second = second, nt_nanosecond = (case pt_nanosecond p of Some n \<Rightarrow> n | None \<Rightarrow> 0)\<rparr>
    }"

section \<open>Days and civil dates\<close>

abbreviation (input) I32_MAX :: int where "I32_MAX \<equiv> 2 ^ 31 - 1"

definition days_from_civil :: "int \<Rightarrow> nat \<Rightarrow> nat \<Rightarrow> int" where
  "days_from_civil year month day =
    (let era = year div 400;
         yoe = year mod 400 - (if month \<le> 2 then 1 else 0);
         (era, yoe) = (if yoe < 0 then (era - 1, yoe + 400) else (era, yoe));
         mp = int month + (if month > 2 then - 3 else 9);
         doy = (153 * mp + 2) div 5 + int day - 1;
         doe = yoe * 365 + yoe div 4 - yoe div 100 + doy in
     era * 146097 + doe - 719468)"

definition civil_from_days :: "nat \<Rightarrow> (int \<times> nat \<times> nat) option" where
  "civil_from_days z =
    (let z = z + 719468;
         era = z div 146097;
         doe = z - era * 146097;
         yoe = (doe - doe div 1460 + doe div 36524 - doe div 146096) div 365;
         y = yoe + era * 400;
         doy = doe - (365 * yoe + yoe div 4 - yoe div 100);
         mp = (5 * doy + 2) div 153;
         d = doy - (153 * mp + 2) div 5 + 1;
         m = (if mp < 10 then mp + 3 else mp - 9);
         y = int (y + (if m \<le> 2 then 1 else 0)) in
     if y \<le> I32_MAX then Some (y, m, d) else None)"

text \<open>The copy in \<^verbatim>\<open>packet.rs\<close>, on signed values; division truncates.\<close>

definition civil_from_days_i64 :: "int \<Rightarrow> int \<times> int \<times> int" where
  "civil_from_days_i64 z =
    (let z = z + 719468;
         era = (if z \<ge> 0 then z div 146097 else - ((146096 - z) div 146097));
         doe = z - era * 146097;
         yoe = (doe - doe div 1460 + doe div 36524 - doe div 146096) div 365;
         y = yoe + era * 400;
         doy = doe - (365 * yoe + yoe div 4 - yoe div 100);
         mp = (5 * doy + 2) div 153;
         d = doy - (153 * mp + 2) div 5 + 1;
         m = mp + (if mp < 10 then 3 else - 9) in
     (y + (if m \<le> 2 then 1 else 0), m, d))"

section \<open>Unix time\<close>

definition from_unix_ns :: "int \<Rightarrow> NetworkTime option" where
  "from_unix_ns unix_ns =
    (if unix_ns < 0 then None
     else
       let secs = nat (unix_ns div 1000000000); nanos = nat (unix_ns mod 1000000000) in
       if secs \<ge> 2 ^ 64 then None
       else
         let days = secs div 86400; sod = secs mod 86400 in
         do {
           (year, month, day) \<leftarrow> civil_from_days days;
           Some \<lparr>nt_year = year, nt_month = month, nt_day = day, nt_hour = sod div 3600,
             nt_minute = (sod mod 3600) div 60, nt_second = sod mod 60, nt_nanosecond = nanos\<rparr>
         })"

definition as_unix_ns :: "NetworkTime \<Rightarrow> int option" where
  "as_unix_ns t =
    (if \<not> (1 \<le> nt_month t \<and> nt_month t \<le> 12) \<or> \<not> (1 \<le> nt_day t \<and> nt_day t \<le> 31) \<or> nt_hour t > 23 \<or>
        nt_minute t > 59 \<or> nt_second t > 59 \<or> nt_nanosecond t \<ge> 1000000000
     then None
     else
       let days = days_from_civil (nt_year t) (nt_month t) (nt_day t);
           secs = days * 86400 + int (nt_hour t) * 3600 + int (nt_minute t) * 60 + int (nt_second t) in
       Some (secs * 1000000000 + int (nt_nanosecond t)))"

definition as_unix_ms :: "NetworkTime \<Rightarrow> u64 option" where
  "as_unix_ms t =
    do {
      unix_ns \<leftarrow> as_unix_ns t;
      if unix_ns < 0 then None
      else if unix_ns div 1000000 < 2 ^ 64 then Some (word_of_int (unix_ns div 1000000)) else None
    }"

definition partial_from_unix_ms :: "u64 \<Rightarrow> PartialNetworkTime" where
  "partial_from_unix_ms unix_ms =
    (case from_unix_ns (uint unix_ms * 1000000) of Some full \<Rightarrow> partial_from full | None \<Rightarrow> partial_default)"

definition advance_network_time :: "NetworkTime \<Rightarrow> u64 \<Rightarrow> NetworkTime option" where
  "advance_network_time base elapsed_ns = do { unix_ns \<leftarrow> as_unix_ns base; from_unix_ns (unix_ns + uint elapsed_ns) }"

section \<open>Printed form\<close>

definition pad :: "nat \<Rightarrow> nat \<Rightarrow> string" where
  "pad w n = replicate (w - length (decimal n)) CHR ''0'' @ decimal n"

abbreviation (input) EPOCH_MS_THRESHOLD :: nat where "EPOCH_MS_THRESHOLD \<equiv> 1000000000000"

text \<open>Days of an unsigned timestamp are not negative, so neither is the printed year.\<close>

definition human_time :: "u64 \<Rightarrow> string" where
  "human_time timestamp =
    (let total_ms = unat timestamp in
     if total_ms \<ge> EPOCH_MS_THRESHOLD then
       let secs = total_ms div 1000; sub_ms = total_ms mod 1000;
           days = secs div 86400; sod = secs mod 86400;
           (year, month, day) = civil_from_days_i64 (int days) in
       pad 4 (nat year) @ ''-'' @ pad 2 (nat month) @ ''-'' @ pad 2 (nat day) @ '' '' @ pad 2 (sod div 3600) @ '':'' @
       pad 2 ((sod mod 3600) div 60) @ '':'' @ pad 2 (sod mod 60) @ ''.'' @ pad 3 sub_ms @ ''Z''
     else
       let hours = total_ms div 3600000; minutes = (total_ms mod 3600000) div 60000;
           seconds = (total_ms mod 60000) div 1000; milliseconds = total_ms mod 1000 in
       if hours > 0 then decimal hours @ ''h '' @ pad 2 minutes @ ''m '' @ pad 2 seconds @ ''s '' @ pad 3 milliseconds @ ''ms''
       else if minutes > 0 then decimal minutes @ ''m '' @ pad 2 seconds @ ''s '' @ pad 3 milliseconds @ ''ms''
       else decimal seconds @ ''s '' @ pad 3 milliseconds @ ''ms'')"

fun separated :: "string \<Rightarrow> string list \<Rightarrow> string" where
  "separated sep [] = []"
| "separated sep [x] = x"
| "separated sep (x # xs) = x @ sep @ separated sep xs"

definition header_string :: "PacketEnv \<Rightarrow> Packet \<Rightarrow> string" where
  "header_string env pkt =
    ''Type: '' @ mm_name (message_meta env (pkt_ty pkt)) @ '', Data Size: '' @ decimal (pkt_data_size pkt) @
    '', Sender: '' @ pkt_sender pkt @ '', Endpoints: ['' @
    separated '', '' (map (\<lambda>ep. em_name (get_endpoint_meta (env_registry env) ep)) (pkt_endpoints pkt)) @
    ''], Timestamp: '' @ decimal (unat (pkt_timestamp pkt)) @ '' ('' @ human_time (pkt_timestamp pkt) @ '')''"

section \<open>Years of an era\<close>

text \<open>Years start in March; an era has 400 of them and 146097 days.\<close>

definition year_of_era :: "nat \<Rightarrow> nat" where
  "year_of_era doe = (doe - doe div 1460 + doe div 36524 - doe div 146096) div 365"

definition year_start :: "nat \<Rightarrow> nat" where
  "year_start y = 365 * y + y div 4 - y div 100"

lemma year_start_eq:
  assumes "q \<le> 24" "s \<le> (3::nat)"
  shows "year_start (100 * c + 4 * q + s) = 36524 * c + 1461 * q + 365 * s"
proof -
  have "(100 * c + 4 * q + s) div 4 = 25 * c + q" "(100 * c + 4 * q + s) div 100 = c" using assms by simp_all
  then show ?thesis by (simp add: year_start_def)
qed

lemma era_cut:
  assumes "doe < (146097::nat)"
  obtains c q s doy where "c \<le> 3" "q \<le> 24" "s \<le> 3" "doe = 36524 * c + 1461 * q + 365 * s + doy" "doy \<le> 365"
    "doy = 365 \<longrightarrow> s = 3 \<and> (q = 24 \<longrightarrow> c = 3)"
proof -
  define c where "c = min 3 (doe div 36524)"
  define r where "r = doe - 36524 * c"
  define q where "q = min 24 (r div 1461)"
  define r' where "r' = r - 1461 * q"
  define s where "s = min 3 (r' div 365)"
  have c: "c \<le> 3" "36524 * c + r = doe" "r \<le> 36524" "r = 36524 \<Longrightarrow> c = 3"
    unfolding c_def r_def using assms by linarith+
  have q: "q \<le> 24" "1461 * q + r' = r" "r' \<le> 1460" "r' = 1460 \<Longrightarrow> q = 24 \<Longrightarrow> r = 36524"
    unfolding q_def r'_def using c(3) by linarith+
  have s: "s \<le> 3" "365 * s + (r' - 365 * s) = r'" "r' - 365 * s \<le> 365" "r' - 365 * s = 365 \<Longrightarrow> s = 3 \<and> r' = 1460"
    unfolding s_def using q(3) by linarith+
  show thesis
    by (rule that [of c q s "r' - 365 * s"]) (use c q s in auto)
qed

lemma year_of_era_eq:
  assumes "c \<le> 3" "q \<le> 24" "s \<le> 3" "doe = 36524 * c + 1461 * q + 365 * s + doy" "doy \<le> 365"
    "doy = 365 \<longrightarrow> s = 3 \<and> (q = 24 \<longrightarrow> c = 3)"
  shows "year_of_era doe = 100 * c + 4 * q + s"
proof -
  define a where "a = doe div 1460"
  have c: "doe div 36524 = c + doe div 146096"
  proof (cases "doe = 146096")
    case True
    then have "c = 3" using assms by linarith
    then show ?thesis using True by simp
  next
    case False
    then have "doe div 36524 = c" "doe div 146096 = 0" using assms by linarith+
    then show ?thesis by simp
  qed
  define k where "k = (if 1460 \<le> 24 * c + q + 365 * s + doy then 1 else 0 :: nat)"
  have k: "k = 1 \<and> 1460 \<le> 24 * c + q + 365 * s + doy \<or> k = 0 \<and> 24 * c + q + 365 * s + doy < 1460"
    by (simp add: k_def)
  have a: "a = 25 * c + q + k"
    unfolding a_def using k assms(1-5) by (elim disjE conjE) (intro div_nat_eqI; simp)+
  have doy: "k = 0 \<Longrightarrow> doy < 365" using k assms(5, 6) by (cases "doy = 365") auto
  have "doe - a + c = 365 * (100 * c + 4 * q + s) + (doy - k)"
    using k assms(1-4) by (elim disjE conjE) (simp_all add: a)
  then have y: "doe - a + doe div 36524 - doe div 146096 = 365 * (100 * c + 4 * q + s) + (doy - k)"
    by (simp add: c)
  show ?thesis
    unfolding year_of_era_def a_def [symmetric] y using k doy assms(5) by (elim disjE conjE) (intro div_nat_eqI; simp)+
qed

lemma year_of_era_start:
  assumes "doe < 146097"
  shows "year_of_era doe \<le> 399 \<and> year_start (year_of_era doe) \<le> doe \<and> doe - year_start (year_of_era doe) \<le> 365"
proof -
  obtain c q s doy where cut: "c \<le> 3" "q \<le> 24" "s \<le> 3" "doe = 36524 * c + 1461 * q + 365 * s + doy" "doy \<le> 365"
    "doy = 365 \<longrightarrow> s = 3 \<and> (q = 24 \<longrightarrow> c = 3)"
    by (rule era_cut [OF assms])
  show ?thesis unfolding year_of_era_eq [OF cut] year_start_eq [OF cut(2, 3)] using cut(1-5) by auto
qed

definition leap :: "int \<Rightarrow> bool" where
  "leap y \<longleftrightarrow> y mod 4 = 0 \<and> (y mod 100 \<noteq> 0 \<or> y mod 400 = 0)"

definition days_in_month :: "int \<Rightarrow> nat \<Rightarrow> nat" where
  "days_in_month y m = (if m = 2 then if leap y then 29 else 28 else if m \<in> {4, 6, 9, 11} then 30 else 31)"

text \<open>The month of a day, counted from March.\<close>

lemma month_of_day:
  assumes "doy \<le> (365::nat)" "mp = (5 * doy + 2) div 153"
  shows "mp \<le> 11" "(153 * mp + 2) div 5 \<le> doy" "doy < (153 * (mp + 1) + 2) div 5"
proof -
  have b: "153 * mp \<le> 5 * doy + 2" "5 * doy + 2 < 153 * (mp + 1)" using assms(2) by (simp_all add: dividend_less_times_div)
  show "mp \<le> 11" using b assms(1) by simp
  show "(153 * mp + 2) div 5 \<le> doy" using b by (simp add: less_Suc_eq_le [symmetric] div_less_iff_less_mult)
  show "doy < (153 * (mp + 1) + 2) div 5" using b by (simp add: less_eq_div_iff_mult_less_eq Suc_le_eq [symmetric])
qed

lemma day_of_month:
  assumes "(153 * mp + 2) div 5 \<le> doy" "doy < (153 * (mp + 1) + 2) div (5::nat)"
  shows "(5 * doy + 2) div 153 = mp"
proof -
  have "(153 * mp + 2) div 5 < Suc doy" "Suc doy \<le> (153 * (mp + 1) + 2) div 5" using assms by simp_all
  then have "153 * mp + 2 < Suc doy * 5" "Suc doy * 5 \<le> 153 * (mp + 1) + 2"
    by (simp_all only: div_less_iff_less_mult less_eq_div_iff_mult_less_eq zero_less_numeral)
  then show ?thesis by (intro div_nat_eqI) auto
qed

lemma month_length:
  assumes "mp \<le> 11" "m = (if mp < 10 then mp + 3 else mp - (9::nat))" 
  shows "(153 * (mp + 1) + 2) div 5 - (153 * mp + 2) div 5 = (if m = 2 then 30 else if m \<in> {4, 6, 9, 11} then 30 else 31)"
proof -
  have "mp = 0 \<or> mp = 1 \<or> mp = 2 \<or> mp = 3 \<or> mp = 4 \<or> mp = 5 \<or> mp = 6 \<or> mp = 7 \<or> mp = 8 \<or> mp = 9 \<or> mp = 10 \<or> mp = 11"
    using assms(1) by presburger
  then show ?thesis using assms(2) by auto
qed
lemma mod_last: "0 < w \<Longrightarrow> w \<le> n \<Longrightarrow> (n * k + w) mod n = 0 \<longleftrightarrow> w = n" for w n k :: int
  by (cases "w = n") simp_all

lemma leap_of_cut:
  assumes "c \<le> 3" "q \<le> 24" "s \<le> 3"
  shows "leap (400 * era + int (100 * c + 4 * q + s) + 1) \<longleftrightarrow> s = 3 \<and> (q = 24 \<longrightarrow> c = 3)"
proof -
  define y where "y = 400 * era + int (100 * c + 4 * q + s) + 1"
  have y: "y = 4 * (100 * era + 25 * int c + int q) + (int s + 1)" "y = 100 * (4 * era + int c) + (4 * int q + int s + 1)"
    "y = 400 * era + (100 * int c + 4 * int q + int s + 1)" by (simp_all add: y_def)
  have "y mod 4 = 0 \<longleftrightarrow> int s + 1 = 4" unfolding y(1) using assms by (intro mod_last) auto
  moreover have "y mod 100 = 0 \<longleftrightarrow> 4 * int q + int s + 1 = 100" unfolding y(2) using assms by (intro mod_last) auto
  moreover have "y mod 400 = 0 \<longleftrightarrow> 100 * int c + 4 * int q + int s + 1 = 400" unfolding y(3) using assms by (intro mod_last) auto
  ultimately show ?thesis unfolding leap_def y_def [symmetric] using assms by auto
qed

lemma year_cut:
  assumes "yoe \<le> (399::nat)"
  obtains c q s where "c \<le> 3" "q \<le> 24" "s \<le> 3" "yoe = 100 * c + 4 * q + s"
proof (rule that [of "yoe div 100" "yoe mod 100 div 4" "yoe mod 100 mod 4"])
  show "yoe div 100 \<le> 3" using assms by simp
  have "yoe mod 100 < 100" by simp
  then show "yoe mod 100 div 4 \<le> 24" by simp
  have "yoe mod 100 mod 4 < 4" by simp
  then show "yoe mod 100 mod 4 \<le> 3" by linarith
  show "yoe = 100 * (yoe div 100) + 4 * (yoe mod 100 div 4) + yoe mod 100 mod 4"
    by (metis add.assoc mult_div_mod_eq)
qed

text \<open>A year of an era and a day of the year make a day of the era, and back.\<close>

lemma year_of_era_day:
  assumes "yoe \<le> 399" "doy \<le> 365" "doy = 365 \<longrightarrow> leap (400 * era + int yoe + 1)"
  shows "year_of_era (year_start yoe + doy) = yoe" "year_start yoe + doy < 146097"
proof -
  obtain c q s where cut: "c \<le> 3" "q \<le> 24" "s \<le> 3" "yoe = 100 * c + 4 * q + s" by (rule year_cut [OF assms(1)])
  have "doy = 365 \<longrightarrow> s = 3 \<and> (q = 24 \<longrightarrow> c = 3)"
    using assms(3) leap_of_cut [OF cut(1-3), of era] unfolding cut(4) by blast
  from year_of_era_eq [OF cut(1-3) refl assms(2) this] show "year_of_era (year_start yoe + doy) = yoe"
    unfolding cut(4) year_start_eq [OF cut(2, 3)] .
  show "year_start yoe + doy < 146097"
    unfolding cut(4) year_start_eq [OF cut(2, 3)] using cut(1-3) assms(2) by simp
qed

lemma day_365_leap:
  assumes "doe < 146097" "doe - year_start (year_of_era doe) = 365"
  shows "leap (400 * era + int (year_of_era doe) + 1)"
proof -
  obtain c q s doy where cut: "c \<le> 3" "q \<le> 24" "s \<le> 3" "doe = 36524 * c + 1461 * q + 365 * s + doy" "doy \<le> 365"
    "doy = 365 \<longrightarrow> s = 3 \<and> (q = 24 \<longrightarrow> c = 3)"
    by (rule era_cut [OF assms(1)])
  have "year_start (year_of_era doe) = 36524 * c + 1461 * q + 365 * s"
    unfolding year_of_era_eq [OF cut] by (rule year_start_eq [OF cut(2, 3)])
  then have "doy = 365" using assms(2) cut(4) by linarith
  then show ?thesis unfolding year_of_era_eq [OF cut] leap_of_cut [OF cut(1-3)] using cut(6) by blast
qed

lemma era_split: "0 \<le> w \<Longrightarrow> w < 400 \<Longrightarrow> (400 * era + w) div 400 = era \<and> (400 * era + w) mod 400 = w" for w era :: int
  by simp

text \<open>The date of a year that starts in March.\<close>

lemma days_from_march:
  assumes "mp \<le> 11" "yoe \<le> 399" "m = (if mp < 10 then mp + 3 else mp - 9)"
  shows "days_from_civil (400 * era + int yoe + (if m \<le> 2 then 1 else 0)) m d =
    era * 146097 + int (year_start yoe + (153 * mp + 2) div 5) + int d - 719469"
proof -
  define b :: int where "b = (if m \<le> 2 then 1 else 0)"
  let ?y = "400 * era + int yoe + b"
  have "(if ?y mod 400 - b < 0 then (?y div 400 - 1, ?y mod 400 - b + 400) else (?y div 400, ?y mod 400 - b)) = (era, int yoe)"
  proof (cases "int yoe + b < 400")
    case True
    then have "?y div 400 = era" "?y mod 400 = int yoe + b"
      using era_split [of "int yoe + b" era] by (simp_all add: add.assoc b_def)
    then show ?thesis by simp
  next
    case False
    then have "int yoe = 399" "b = 1" using assms(2) by (auto simp: b_def split: if_splits)
    then have "?y = 400 * (era + 1)" by simp
    then have "?y div 400 = era + 1" "?y mod 400 = 0" by (simp_all only: nonzero_mult_div_cancel_left mod_mult_self1_is_0)
    then show ?thesis using \<open>int yoe = 399\<close> \<open>b = 1\<close> by simp
  qed
  moreover have "int m + (if m > 2 then - 3 else 9) = int mp" using assms(1, 3) by auto
  moreover have "int yoe * 365 + int yoe div 4 - int yoe div 100 = int (year_start yoe)"
  proof -
    have "yoe div 100 \<le> yoe div 4" by (rule div_le_mono2) simp_all
    then show ?thesis by (simp add: year_start_def zdiv_int)
  qed
  moreover have "(153 * int mp + 2) div 5 = int ((153 * mp + 2) div 5)" by (simp add: zdiv_int)
  ultimately show ?thesis
    unfolding days_from_civil_def b_def [symmetric] Let_def by simp
qed

lemma civil_from_days_eq:
  "civil_from_days z =
    (let era = (z + 719468) div 146097; doe = (z + 719468) mod 146097; yoe = year_of_era doe; doy = doe - year_start yoe;
         mp = (5 * doy + 2) div 153; m = (if mp < 10 then mp + 3 else mp - 9);
         y = 400 * int era + int yoe + (if m \<le> 2 then 1 else 0) in
     if y \<le> I32_MAX then Some (y, m, doy - (153 * mp + 2) div 5 + 1) else None)"
proof -
  have "int (a + b * 400 + (if c then 1 else 0)) = 400 * int b + int a + (if c then 1 else 0)" for a b c by simp
  then show ?thesis
    by (simp only: civil_from_days_def Let_def minus_div_mult_eq_mod year_of_era_def year_start_def)
qed

definition date_ok :: "int \<Rightarrow> nat \<Rightarrow> nat \<Rightarrow> bool" where
  "date_ok y m d \<longleftrightarrow> 1 \<le> m \<and> m \<le> 12 \<and> 1 \<le> d \<and> d \<le> days_in_month y m"

lemma civil_of_days:
  assumes "civil_from_days z = Some (y, m, d)"
  shows "days_from_civil y m d = int z" "date_ok y m d" "y \<le> I32_MAX" "400 * int ((z + 719468) div 146097) \<le> y"
proof -
  define era where "era = (z + 719468) div 146097"
  define doe where "doe = (z + 719468) mod 146097"
  define yoe where "yoe = year_of_era doe"
  define doy where "doy = doe - year_start yoe"
  define mp where "mp = (5 * doy + 2) div 153"
  note defs = era_def doe_def yoe_def doy_def mp_def
  have y: "y = 400 * int era + int yoe + (if m \<le> 2 then 1 else 0)" and m: "m = (if mp < 10 then mp + 3 else mp - 9)"
    and d: "d = doy - (153 * mp + 2) div 5 + 1" and le: "y \<le> I32_MAX"
    using assms unfolding civil_from_days_eq Let_def defs [symmetric] by (auto split: if_splits)
  show "y \<le> I32_MAX" by (rule le)
  show "400 * int ((z + 719468) div 146097) \<le> y" unfolding y era_def [symmetric] by simp
  have doe: "doe < 146097" by (simp add: doe_def)
  note ys = year_of_era_start [OF doe, folded yoe_def]
  have doy: "doy \<le> 365" "year_start yoe + doy = doe" using ys by (simp_all add: doy_def)
  note mo = month_of_day [OF doy(1) mp_def]
  have "days_from_civil y m d = int era * 146097 + int (year_start yoe + (153 * mp + 2) div 5) + int d - 719469"
    unfolding y by (rule days_from_march [OF mo(1) _ m]) (use ys in blast)
  also have "\<dots> = int (era * 146097 + doe) - 719468" using mo(2) doy(2) by (simp add: d)
  also have "era * 146097 + doe = z + 719468" by (simp add: era_def doe_def)
  finally show "days_from_civil y m d = int z" by simp
  have "d \<le> (153 * (mp + 1) + 2) div 5 - (153 * mp + 2) div 5" using mo(2, 3) by (simp add: d)
  then have dl: "d \<le> (if m = 2 then 30 else if m \<in> {4, 6, 9, 11} then 30 else 31)"
    unfolding month_length [OF mo(1) m] .
  have feb: "mp = 11" if "m = 2" using that m mo(1) by (auto split: if_splits)
  have "d \<le> 29 \<and> (d = 29 \<longrightarrow> leap y)" if "m = 2"
  proof -
    have "d = doy - 336" using feb [OF that] mo(2) by (simp add: d)
    then have "d \<le> 29" "d = 29 \<longrightarrow> doy = 365" using doy(1) by auto
    moreover have "leap y" if "doy = 365"
      using day_365_leap [OF doe, of "int era", folded yoe_def, folded doy_def, OF that] by (simp add: y \<open>m = 2\<close>)
    ultimately show ?thesis by blast
  qed
  then have "d \<le> days_in_month y m" using dl by (auto simp: days_in_month_def)
  moreover have "1 \<le> m" "m \<le> 12" using m mo(1) by (auto split: if_splits)
  moreover have "1 \<le> d" by (simp add: d)
  ultimately show "date_ok y m d" by (simp add: date_ok_def)
qed

lemma days_of_civil:
  assumes "date_ok y m d" "days_from_civil y m d = int z" "y \<le> I32_MAX"
  shows "civil_from_days z = Some (y, m, d)"
proof -
  define mp where "mp = (if m > 2 then m - 3 else m + 9)"
  define b :: int where "b = (if m \<le> 2 then 1 else 0)"
  define era where "era = (y - b) div 400"
  define yoe where "yoe = nat ((y - b) mod 400)"
  define doy where "doy = (153 * mp + 2) div 5 + (d - 1)"
  have mr: "1 \<le> m" "m \<le> 12" "1 \<le> d" "d \<le> days_in_month y m" using assms(1) by (simp_all add: date_ok_def)
  have mp: "mp \<le> 11" "m = (if mp < 10 then mp + 3 else mp - 9)" using mr by (auto simp: mp_def)
  have yoe: "yoe \<le> 399" "int yoe = (y - b) mod 400" unfolding yoe_def
    using pos_mod_bound [of 400 "y - b"] pos_mod_sign [of 400 "y - b"] by linarith+
  have y: "y = 400 * era + int yoe + (if m \<le> 2 then 1 else 0)"
    unfolding yoe(2) era_def b_def [symmetric] using mult_div_mod_eq [of 400 "y - b"] by linarith
  have dl: "d \<le> (if m = 2 then 30 else if m \<in> {4, 6, 9, 11} then 30 else 31)" "m = 2 \<Longrightarrow> d \<le> 29"
    using mr(4) by (auto simp: days_in_month_def split: if_splits)
  then have "d \<le> (153 * (mp + 1) + 2) div 5 - (153 * mp + 2) div 5" unfolding month_length [OF mp] by simp
  then have lt: "doy < (153 * (mp + 1) + 2) div 5" using mr(3) by (simp add: doy_def)
  have mo: "(5 * doy + 2) div 153 = mp" by (rule day_of_month [OF _ lt]) (simp add: doy_def)
  have feb: "doy \<ge> 365 \<Longrightarrow> mp = 11"
  proof (rule ccontr)
    assume a: "doy \<ge> 365" "mp \<noteq> 11"
    then have "mp + 1 \<le> 11" using mp(1) by simp
    then have "(153 * (mp + 1) + 2) div 5 \<le> (153 * 11 + 2) div 5" by (intro div_le_mono) simp
    then show False using lt a(1) by simp
  qed
  have leap: "doy \<le> 365 \<and> (doy = 365 \<longrightarrow> leap (400 * era + int yoe + 1))"
  proof (cases "doy \<ge> 365")
    case True
    then have "mp = 11" by (rule feb)
    then have m2: "m = 2" using mp(2) by simp
    have "d \<le> 29" by (rule dl(2) [OF m2])
    then have "doy \<le> 365" "doy = 365 \<longrightarrow> d = 29" using \<open>mp = 11\<close> by (auto simp: doy_def)
    moreover have "leap y" if "d = 29" using mr(4) that by (auto simp: days_in_month_def m2 split: if_splits)
    ultimately show ?thesis using y m2 by simp
  qed simp
  note yd = year_of_era_day [OF yoe(1) conjunct1 [OF leap] conjunct2 [OF leap]]
  define doe where "doe = year_start yoe + doy"
  have "days_from_civil y m d = era * 146097 + int (year_start yoe + (153 * mp + 2) div 5) + int d - 719469"
    using days_from_march [OF mp(1) yoe(1) mp(2), of era d] by (simp only: y [symmetric])
  then have z: "int z + 719468 = era * 146097 + int doe" using assms(2) mr(3) by (simp add: doe_def doy_def)
  have era: "era = int (z + 719468) div 146097" "int doe = int (z + 719468) mod 146097"
    using yd(2) [folded doe_def] z by simp_all
  then have era': "era = int ((z + 719468) div 146097)" "(z + 719468) mod 146097 = doe" by (simp add: zdiv_int) (metis era(2) of_nat_eq_iff of_nat_numeral zmod_int)
  have y': "400 * int ((z + 719468) div 146097) + int yoe + (if m \<le> 2 then 1 else 0) = y" using y era'(1) by simp
  have yd': "year_of_era doe = yoe" "doe - year_start yoe = doy" using yd(1) by (simp_all add: doe_def)
  have d: "doy - (153 * mp + 2) div 5 + 1 = d" using mr(3) by (simp add: doy_def)
  show ?thesis
    unfolding civil_from_days_eq Let_def
    by (simp only: era'(2) yd' mo mp(2) [symmetric] y' d assms(3) if_True)
qed

text \<open>The copy on signed values agrees.\<close>

lemma civil_copies_agree:
  "civil_from_days z = (case civil_from_days_i64 (int z) of (y, m, d) \<Rightarrow> if y \<le> I32_MAX then Some (y, nat m, nat d) else None)"
proof -
  define era where "era = (z + 719468) div 146097"
  define doe where "doe = (z + 719468) mod 146097"
  define yoe where "yoe = year_of_era doe"
  define doy where "doy = doe - year_start yoe"
  define mp where "mp = (5 * doy + 2) div 153"
  define m where "m = (if mp < 10 then mp + 3 else mp - 9)"
  have doe: "doe < 146097" by (simp add: doe_def)
  note ys = year_of_era_start [OF doe, folded yoe_def]
  have doy: "doy \<le> 365" "year_start yoe \<le> doe" using ys by (simp_all add: doy_def)
  note mo = month_of_day [OF doy(1) mp_def]
  have 1: "int z + 719468 = int (z + 719468)" "int (z + 719468) \<ge> 0" "int (z + 719468) div 146097 = int era"
    by (simp_all add: era_def zdiv_int)
  have "era * 146097 + doe = z + 719468" by (simp add: era_def doe_def)
  then have 2: "int (z + 719468) - int era * 146097 = int doe" by linarith
  have "doe div 1460 \<le> doe" "doe div 146096 \<le> doe div 36524" by (simp_all add: div_le_mono2)
  then have 3: "(int doe - int doe div 1460 + int doe div 36524 - int doe div 146096) div 365 = int yoe"
    by (simp add: yoe_def year_of_era_def zdiv_int algebra_simps)
  have "yoe div 100 \<le> yoe div 4" by (simp add: div_le_mono2)
  then have 4: "int doe - (365 * int yoe + int yoe div 4 - int yoe div 100) = int doy"
    using doy(2) by (simp add: doy_def year_start_def zdiv_int of_nat_diff)
  have 5: "(5 * int doy + 2) div 153 = int mp" by (simp add: mp_def zdiv_int)
  define d where "d = doy - (153 * mp + 2) div 5 + 1"
  have 6: "int doy - (153 * int mp + 2) div 5 + 1 = int d"
    using mo(2) by (simp add: d_def zdiv_int of_nat_diff)
  have 7: "int mp + (if int mp < 10 then 3 else - 9) = int m" using mo(1) by (simp add: m_def)
  have "civil_from_days_i64 (int z) = (int yoe + int era * 400 + (if int m \<le> 2 then 1 else 0), int m, int d)"
    unfolding civil_from_days_i64_def Let_def by (simp only: 1 if_True 2 3 4 5 6 7)
  then show ?thesis
    unfolding civil_from_days_eq Let_def era_def [symmetric] doe_def [symmetric] yoe_def [symmetric] doy_def [symmetric]
      mp_def [symmetric] m_def [symmetric] d_def [symmetric]
    by (simp add: ac_simps)
qed

section \<open>Round trips\<close>

definition time_ok :: "NetworkTime \<Rightarrow> bool" where
  "time_ok t \<longleftrightarrow> date_ok (nt_year t) (nt_month t) (nt_day t) \<and> nt_year t \<le> I32_MAX \<and> nt_hour t \<le> 23 \<and>
    nt_minute t \<le> 59 \<and> nt_second t \<le> 59 \<and> nt_nanosecond t < 1000000000"

lemma seconds_of_day:
  fixes secs :: nat
  defines "sod \<equiv> secs mod 86400"
  shows "sod div 3600 \<le> 23" "sod mod 3600 div 60 \<le> 59" "sod mod 60 \<le> 59"
    "sod div 3600 * 3600 + sod mod 3600 div 60 * 60 + sod mod 60 = sod"
proof -
  have "sod < 86400" by (simp add: sod_def)
  then show "sod div 3600 \<le> 23" by simp
  have "sod mod 3600 < 3600" "sod mod 60 < 60" by simp_all
  then show "sod mod 3600 div 60 \<le> 59" "sod mod 60 \<le> 59" by simp_all
  have "sod mod 3600 mod 60 = sod mod 60" by (rule mod_mod_cancel) simp
  then show "sod div 3600 * 3600 + sod mod 3600 div 60 * 60 + sod mod 60 = sod"
    by (metis add.assoc div_mult_mod_eq)
qed

lemma time_of_day_cut:
  assumes "h \<le> (23::nat)" "mi \<le> 59" "s \<le> 59"
  defines "sod \<equiv> h * 3600 + mi * 60 + s"
  shows "sod < 86400" "sod div 3600 = h" "sod mod 3600 div 60 = mi" "sod mod 60 = s"
proof -
  have r: "sod = 3600 * h + (60 * mi + s)" "60 * mi + s < 3600" using assms by (simp_all add: sod_def)
  show "sod < 86400" using assms by (simp add: sod_def)
  show "sod div 3600 = h" using r by simp
  have "sod mod 3600 = 60 * mi + s" using r by simp
  then show "sod mod 3600 div 60 = mi" using assms(3) by simp
  have "sod = s + (60 * h + mi) * 60" by (simp add: sod_def)
  then show "sod mod 60 = s" using assms(3) by (simp only: mod_mult_self1) simp
qed

lemma civil_bound: "civil_from_days z = Some (y, m, d) \<Longrightarrow> z < 2 ^ 40"
proof -
  assume "civil_from_days z = Some (y, m, d)"
  then have "400 * int ((z + 719468) div 146097) \<le> I32_MAX"
    using civil_of_days(3, 4) [of z y m d] by linarith
  then have "(z + 719468) div 146097 < 5368710" by simp
  then have "z + 719468 < 5368710 * 146097" by (simp add: div_less_iff_less_mult)
  then show ?thesis by simp
qed

lemma from_unix_ns_Some:
  "from_unix_ns ns = Some t \<longleftrightarrow>
    0 \<le> ns \<and> ns div 1000000000 < 2 ^ 64 \<and>
    (\<exists>days sod. nat (ns div 1000000000) = days * 86400 + sod \<and> sod < 86400 \<and>
      civil_from_days days = Some (nt_year t, nt_month t, nt_day t) \<and> nt_hour t = sod div 3600 \<and>
      nt_minute t = sod mod 3600 div 60 \<and> nt_second t = sod mod 60) \<and> int (nt_nanosecond t) = ns mod 1000000000"
proof -
  have cut: "(n = days * 86400 + sod \<and> sod < 86400) \<longleftrightarrow> (days = n div 86400 \<and> sod = n mod 86400)" for n days sod :: nat
    by auto
  show ?thesis
    unfolding from_unix_ns_def Let_def conj_assoc [symmetric] cut
    by (cases t) (auto simp: nat_less_iff not_le split: Option.bind_splits prod.splits)
qed

text \<open>The day of the month is only compared with 31: the day after the last of a month is read as the first of the next.\<close>

lemma as_unix_ns_rolls_over:
  "as_unix_ns (t\<lparr>nt_year := 2023, nt_month := 2, nt_day := 31\<rparr>) = as_unix_ns (t\<lparr>nt_year := 2023, nt_month := 3, nt_day := 3\<rparr>)"
  "as_unix_ns (t\<lparr>nt_year := 2024, nt_month := 2, nt_day := 31\<rparr>) = as_unix_ns (t\<lparr>nt_year := 2024, nt_month := 3, nt_day := 2\<rparr>)"
  by (simp_all add: as_unix_ns_def days_from_civil_def Let_def)

text \<open>C40: the two conversions between Unix nanoseconds and calendar time are inverse to each other, on exactly the
  timestamps from 1970 on and the dates of the Gregorian calendar: a timestamp converts to a reading if and only if
  it is not negative, the reading is a real date and time of day with a year that fits, and converting the reading
  back gives the timestamp.  The copy of the day conversion that prints packet headers gives the same dates.\<close>

theorem network_time_roundtrip:
  "(from_unix_ns ns = Some t) = (0 \<le> ns \<and> time_ok t \<and> as_unix_ns t = Some ns) \<and>
   civil_from_days z = (case civil_from_days_i64 (int z) of (y, m, d) \<Rightarrow> if y \<le> I32_MAX then Some (y, nat m, nat d) else None)"
proof -
  have "from_unix_ns ns = Some t \<longleftrightarrow> 0 \<le> ns \<and> time_ok t \<and> as_unix_ns t = Some ns"
  proof
    assume "from_unix_ns ns = Some t"
    then obtain days sod where ns: "0 \<le> ns" "nat (ns div 1000000000) = days * 86400 + sod" "sod < 86400"
      and c: "civil_from_days days = Some (nt_year t, nt_month t, nt_day t)"
      and s: "nt_hour t = sod div 3600" "nt_minute t = sod mod 3600 div 60" "nt_second t = sod mod 60"
      and n: "int (nt_nanosecond t) = ns mod 1000000000"
      unfolding from_unix_ns_Some by blast
    note cd = civil_of_days [OF c]
    note sd = seconds_of_day [of sod]
    have "nt_nanosecond t < 1000000000" using n by simp
    then have ok: "time_ok t" using cd(2, 3) sd s ns(3) by (simp add: time_ok_def)
    have "nt_day t \<le> 31" using cd(2) by (auto simp: date_ok_def days_in_month_def split: if_splits)
    then have a: "as_unix_ns t = Some ((int days * 86400 + int (sod div 3600 * 3600 + sod mod 3600 div 60 * 60 + sod mod 60)) * 1000000000
        + int (nt_nanosecond t))"
      using ok unfolding as_unix_ns_def time_ok_def date_ok_def by (simp add: cd(1) s)
    have e: "int days * 86400 + int sod = ns div 1000000000" using ns by linarith
    have sd4: "sod div 3600 * 3600 + sod mod 3600 div 60 * 60 + sod mod 60 = sod" using sd(4) ns(3) by simp
    show "0 \<le> ns \<and> time_ok t \<and> as_unix_ns t = Some ns"
      unfolding a sd4 e n div_mult_mod_eq using ns(1) ok by blast
  next
    assume a: "0 \<le> ns \<and> time_ok t \<and> as_unix_ns t = Some ns"
    then have ok: "date_ok (nt_year t) (nt_month t) (nt_day t)" "nt_year t \<le> I32_MAX" "nt_hour t \<le> 23" "nt_minute t \<le> 59"
        "nt_second t \<le> 59" "nt_nanosecond t < 1000000000" by (simp_all add: time_ok_def)
    define sod where "sod = nt_hour t * 3600 + nt_minute t * 60 + nt_second t"
    note sod = time_of_day_cut [OF ok(3-5), folded sod_def]
    define days where "days = days_from_civil (nt_year t) (nt_month t) (nt_day t)"
    have ns: "ns = (days * 86400 + int sod) * 1000000000 + int (nt_nanosecond t)"
      using a by (auto simp: as_unix_ns_def Let_def days_def sod_def algebra_simps split: if_splits)
    then have q: "ns div 1000000000 = days * 86400 + int sod" "ns mod 1000000000 = int (nt_nanosecond t)"
      using ok(6) by (simp_all only: div_mult_self3 mod_mult_self3) simp_all
    have "0 \<le> days * 86400 + int sod" using a q(1) by (metis pos_imp_zdiv_nonneg_iff zero_less_numeral)
    then have "0 \<le> days" using sod(1) by linarith
    then have d: "days = int (nat days)" by simp
    have c: "civil_from_days (nat days) = Some (nt_year t, nt_month t, nt_day t)"
      by (rule days_of_civil [OF ok(1) _ ok(2)]) (use d in \<open>simp add: days_def\<close>)
    have "nat days < 2 ^ 40" by (rule civil_bound [OF c])
    then have lt: "ns div 1000000000 < 2 ^ 64" using q(1) sod(1) by simp
    have "nat (ns div 1000000000) = nat days * 86400 + sod" unfolding q(1) using d by linarith
    then have "\<exists>days sod. nat (ns div 1000000000) = days * 86400 + sod \<and> sod < 86400 \<and>
      civil_from_days days = Some (nt_year t, nt_month t, nt_day t) \<and> nt_hour t = sod div 3600 \<and>
      nt_minute t = sod mod 3600 div 60 \<and> nt_second t = sod mod 60"
      using sod c by metis
    then show "from_unix_ns ns = Some t" unfolding from_unix_ns_Some using a lt q(2) [symmetric] by blast
  qed
  then show ?thesis using civil_copies_agree by blast
qed

end
