(* ===== verification/Time_Sync.thy ===== *)
theory Time_Sync
  imports Calendar Memory_Admission "HOL-Library.Char_ord" "HOL-Library.List_Lexorder"
begin

text \<open>
  Time synchronisation (\<^verbatim>\<open>src/src/timesync.rs\<close>): the slewed clock, the clock assembled from
  partial sources, the tracker that elects a leader, the four-timestamp sample and the
  packets, with the staged peer records of \<^verbatim>\<open>src/src/peer_record.rs\<close>.  A B-tree map is its
  list of entries in ascending key order; \<^verbatim>\<open>i128\<close> values are integers with the saturation
  of the code written out; the answers of the allocator are arguments.  Proved: the
  slewed clock never runs backwards, keeps its rate bound and reaches the target, and
  nodes that hear each other elect one leader.
\<close>

section \<open>Ordered maps\<close>

definition btree_insert :: "'k::linorder \<Rightarrow> 'v \<Rightarrow> ('k \<times> 'v) list \<Rightarrow> ('k \<times> 'v) list" where
  "btree_insert k v m = takeWhile (\<lambda>e. fst e < k) m @ (k, v) # dropWhile (\<lambda>e. fst e \<le> k) m"

definition btree_remove :: "'k \<Rightarrow> ('k \<times> 'v) list \<Rightarrow> ('k \<times> 'v) list" where
  "btree_remove k m = filter (\<lambda>e. fst e \<noteq> k) m"

section \<open>Peer records\<close>

datatype 'v Prepared = PrepExisting string 'v | PrepNew string 'v

text \<open>Sizes on a 64-bit target: the pointee, the pointer and four words of slack.\<close>

definition allocation_bytes :: "nat \<Rightarrow> nat" where
  "allocation_bytes sz = saturating_add (saturating_add sz 8) (4 * 8)"

definition try_string :: "bool \<Rightarrow> string \<Rightarrow> string result" where
  "try_string granted s = (if granted then Ok s else memory_pressure)"

definition try_box :: "nat \<Rightarrow> bool \<Rightarrow> 'v \<Rightarrow> Admission \<Rightarrow> 'v result \<times> Admission" where
  "try_box sz granted v adm =
    (if sz = 0 then (Ok v, adm)
     else case check (allocation_bytes sz) sz adm of
       (Inl e, adm) \<Rightarrow> (Err e, adm)
     | (Inr _, adm) \<Rightarrow> (if granted then Ok v else memory_pressure, adm))"

definition prepare ::
  "nat \<Rightarrow> bool \<Rightarrow> bool \<Rightarrow> (string \<times> 'v) list \<Rightarrow> string \<Rightarrow> 'v \<Rightarrow> Admission \<Rightarrow> 'v Prepared result \<times> Admission" where
  "prepare sz box_granted key_granted m key v adm =
    (if map_of m key \<noteq> None then (Ok (PrepExisting key v), adm)
     else case try_box sz box_granted v adm of
       (Inl e, adm) \<Rightarrow> (Err e, adm)
     | (Inr v, adm) \<Rightarrow> (bind_r (try_string key_granted key) (\<lambda>key. Ok (PrepNew key v)), adm))"

text \<open>The replaced entry of an existing key keeps its place.\<close>

fun commit :: "'v Prepared \<Rightarrow> (string \<times> 'v) list \<Rightarrow> (string \<times> 'v) list" where
  "commit (PrepExisting key v) m = map (\<lambda>e. if fst e = key then (key, v) else e) m"
| "commit (PrepNew key v) m = btree_insert key v m"

section \<open>Configuration and messages\<close>

datatype TimeSyncRole = Consumer | Source | Auto

record TimeSyncConfig =
  tc_role :: TimeSyncRole
  tc_priority :: u64
  tc_source_timeout_ms :: u64
  tc_announce_interval_ms :: u64
  tc_request_interval_ms :: u64
  tc_consumer_promotion_enabled :: bool
  tc_max_slew_ppm :: u32

definition config_default :: TimeSyncConfig where
  "config_default = \<lparr>tc_role = Consumer, tc_priority = 100, tc_source_timeout_ms = 5000, tc_announce_interval_ms = 1000,
    tc_request_interval_ms = 1000, tc_consumer_promotion_enabled = True, tc_max_slew_ppm = 50000\<rparr>"

record TimeSyncSource =
  tss_sender :: string
  tss_priority :: u64
  tss_last_announce_ms :: u64
  tss_last_time_ms :: u64

datatype TimeSyncLeader = LeadLocal u64 | LeadRemote TimeSyncSource

datatype TimeSyncUpdate = NoChange | SourceChanged

record TimeSyncRequestFields =
  req_seq :: u64
  req_t1_ms :: u64

record TimeSyncResponseFields =
  rsp_seq :: u64
  rsp_t1_ms :: u64
  rsp_t2_ms :: u64
  rsp_t3_ms :: u64

record TimeSyncAnnounceFields =
  ann_priority :: u64
  ann_time_ms :: u64

text \<open>\<^verbatim>\<open>saturating_sub\<close> and \<^verbatim>\<open>saturating_add\<close> on \<^verbatim>\<open>u64\<close>, saturation of \<^verbatim>\<open>i128\<close> and its truncating halving.\<close>

definition sub_sat :: "u64 \<Rightarrow> u64 \<Rightarrow> u64" where
  "sub_sat a b = (if a < b then 0 else a - b)"

definition add_sat :: "u64 \<Rightarrow> u64 \<Rightarrow> u64" where
  "add_sat a b = (if unat a + unat b < 2 ^ 64 then a + b else - 1)"

definition sat128 :: "int \<Rightarrow> int" where
  "sat128 x = max (- (2 ^ 127)) (min (2 ^ 127 - 1) x)"

definition trunc_half :: "int \<Rightarrow> int" where
  "trunc_half x = (if x < 0 then - ((- x) div 2) else x div 2)"

section \<open>Slewed clock\<close>

record SlewedNetworkClock =
  sc_anchor_mono_ns :: u64
  sc_anchor_unix_ns :: int
  sc_pending_adjust_ns :: int
  sc_max_slew_ppm :: u32
  sc_initialized :: bool

definition slewed_new :: "u32 \<Rightarrow> SlewedNetworkClock" where
  "slewed_new max_slew_ppm = \<lparr>sc_anchor_mono_ns = 0, sc_anchor_unix_ns = 0, sc_pending_adjust_ns = 0,
    sc_max_slew_ppm = min max_slew_ppm 999999, sc_initialized = False\<rparr>"

definition read_unix_ns :: "SlewedNetworkClock \<Rightarrow> u64 \<Rightarrow> int option" where
  "read_unix_ns c now_mono_ns =
    (if \<not> sc_initialized c then None
     else
       let elapsed_ns = uint (sub_sat now_mono_ns (sc_anchor_mono_ns c));
           max_adjust_ns = sat128 (elapsed_ns * uint (sc_max_slew_ppm c)) div 1000000;
           applied_adjust_ns = (if sc_pending_adjust_ns c \<ge> 0 then min (sc_pending_adjust_ns c) max_adjust_ns
                                else - (min (- sc_pending_adjust_ns c) max_adjust_ns)) in
       Some (sat128 (sat128 (sc_anchor_unix_ns c + elapsed_ns) + applied_adjust_ns)))"

definition read_unix_ms :: "SlewedNetworkClock \<Rightarrow> u64 \<Rightarrow> u64 option" where
  "read_unix_ms c now_mono_ns =
    do {
      unix_ns \<leftarrow> read_unix_ns c now_mono_ns;
      if unix_ns < 0 then None
      else if unix_ns div 1000000 < 2 ^ 64 then Some (word_of_int (unix_ns div 1000000)) else None
    }"

definition steer_unix_ms :: "u64 \<Rightarrow> u64 \<Rightarrow> SlewedNetworkClock \<Rightarrow> SlewedNetworkClock" where
  "steer_unix_ms now_mono_ns target_unix_ms c =
    (let target_unix_ns = uint target_unix_ms * 1000000 in
     if \<not> sc_initialized c then
       c\<lparr>sc_anchor_mono_ns := now_mono_ns, sc_anchor_unix_ns := target_unix_ns, sc_pending_adjust_ns := 0, sc_initialized := True\<rparr>
     else
       let current_unix_ns = (case read_unix_ns c now_mono_ns of Some t \<Rightarrow> t | None \<Rightarrow> target_unix_ns) in
       c\<lparr>sc_anchor_mono_ns := now_mono_ns, sc_anchor_unix_ns := current_unix_ns,
         sc_pending_adjust_ns := sat128 (target_unix_ns - current_unix_ns), sc_initialized := True\<rparr>)"

definition steer_verified_response_ms :: "u64 \<Rightarrow> u64 \<Rightarrow> SlewedNetworkClock \<Rightarrow> SlewedNetworkClock" where
  "steer_verified_response_ms now_mono_ns target_unix_ms c =
    (let target_ns = uint target_unix_ms * 1000000 in
     if sc_max_slew_ppm c \<noteq> 0 \<and>
        (case read_unix_ns c now_mono_ns of Some current \<Rightarrow> sat128 (target_ns - current) > 5000000000 | None \<Rightarrow> False)
     then c\<lparr>sc_anchor_mono_ns := now_mono_ns, sc_anchor_unix_ns := target_ns, sc_pending_adjust_ns := 0\<rparr>
     else steer_unix_ms now_mono_ns target_unix_ms c)"

section \<open>Assembled clock\<close>

record NetworkTimeSourceState =
  st_priority :: u64
  st_updated_mono_ms :: u64
  st_anchor_mono_ns :: u64
  st_ttl_ms :: "u64 option"
  st_time :: PartialNetworkTime

type_synonym NetworkClock = "(string \<times> NetworkTimeSourceState) list"

record NetworkTimeReading =
  nr_time :: PartialNetworkTime
  nr_unix_time_ms :: "u64 option"

text \<open>\<^verbatim>\<open>sz\<close> is the size of a source record, the two flags are the answers of the allocator.\<close>

definition try_update_source ::
  "nat \<Rightarrow> bool \<Rightarrow> bool \<Rightarrow> string \<Rightarrow> NetworkTimeSourceState \<Rightarrow> NetworkClock \<Rightarrow> Admission \<Rightarrow> unit result \<times> NetworkClock \<times> Admission" where
  "try_update_source sz box_granted key_granted name st clock adm =
    (case prepare sz box_granted key_granted clock name st adm of
      (Inl e, adm) \<Rightarrow> (Err e, clock, adm)
    | (Inr p, adm) \<Rightarrow> (Ok (), commit p clock, adm))"

definition update_source ::
  "nat \<Rightarrow> bool \<Rightarrow> bool \<Rightarrow> string \<Rightarrow> NetworkTimeSourceState \<Rightarrow> NetworkClock \<Rightarrow> Admission \<Rightarrow> NetworkClock \<times> Admission" where
  "update_source sz box_granted key_granted name st clock adm =
    snd (try_update_source sz box_granted key_granted name st clock adm)"

definition remove_source :: "string \<Rightarrow> NetworkClock \<Rightarrow> NetworkClock" where
  "remove_source name clock = btree_remove name clock"

definition prune_expired :: "u64 \<Rightarrow> NetworkClock \<Rightarrow> NetworkClock" where
  "prune_expired now_mono_ms clock =
    filter (\<lambda>(_, src). case st_ttl_ms src of Some ttl \<Rightarrow> sub_sat now_mono_ms (st_updated_mono_ms src) \<le> ttl | None \<Rightarrow> True) clock"

definition best_source :: "NetworkClock \<Rightarrow> (NetworkTimeSourceState \<Rightarrow> bool) \<Rightarrow> (string \<times> NetworkTimeSourceState) option" where
  "best_source sources P =
    fold (\<lambda>(name, src) best.
      if \<not> P src then best
      else case best of
        None \<Rightarrow> Some (name, src)
      | Some (best_name, best_src) \<Rightarrow>
          if st_priority src < st_priority best_src \<or> st_priority src = st_priority best_src \<and> name < best_name
          then Some (name, src) else Some (best_name, best_src)) sources None"

definition advanced_reading :: "NetworkTime \<Rightarrow> u64 \<Rightarrow> NetworkTimeReading option" where
  "advanced_reading base elapsed_ns =
    map_option (\<lambda>t. \<lparr>nr_time = partial_from t, nr_unix_time_ms = as_unix_ms t\<rparr>) (advance_network_time base elapsed_ns)"

text \<open>Each field from the best source that has it.\<close>

definition merged_time :: "NetworkClock \<Rightarrow> PartialNetworkTime" where
  "merged_time sources =
    \<lparr>pt_year = Option.bind (best_source sources (\<lambda>s. pt_year (st_time s) \<noteq> None)) (\<lambda>(_, s). pt_year (st_time s)),
     pt_month = Option.bind (best_source sources (\<lambda>s. pt_month (st_time s) \<noteq> None)) (\<lambda>(_, s). pt_month (st_time s)),
     pt_day = Option.bind (best_source sources (\<lambda>s. pt_day (st_time s) \<noteq> None)) (\<lambda>(_, s). pt_day (st_time s)),
     pt_hour = Option.bind (best_source sources (\<lambda>s. pt_hour (st_time s) \<noteq> None)) (\<lambda>(_, s). pt_hour (st_time s)),
     pt_minute = Option.bind (best_source sources (\<lambda>s. pt_minute (st_time s) \<noteq> None)) (\<lambda>(_, s). pt_minute (st_time s)),
     pt_second = Option.bind (best_source sources (\<lambda>s. pt_second (st_time s) \<noteq> None)) (\<lambda>(_, s). pt_second (st_time s)),
     pt_nanosecond = Option.bind (best_source sources (\<lambda>s. pt_nanosecond (st_time s) \<noteq> None)) (\<lambda>(_, s). pt_nanosecond (st_time s))\<rparr>"

definition merged_reading :: "NetworkClock \<Rightarrow> u64 \<Rightarrow> NetworkTimeReading option" where
  "merged_reading sources now_mono_ns =
    (let merged = merged_time sources;
         second = best_source sources (\<lambda>s. pt_second (st_time s) \<noteq> None);
         minute = best_source sources (\<lambda>s. pt_minute (st_time s) \<noteq> None);
         hour = best_source sources (\<lambda>s. pt_hour (st_time s) \<noteq> None);
         plain = (\<lambda>t. Some \<lparr>nr_time = t, nr_unix_time_ms = None\<rparr>) in
     case (case second of Some s \<Rightarrow> Some s | None \<Rightarrow> (case minute of Some s \<Rightarrow> Some s | None \<Rightarrow> hour)) of
       None \<Rightarrow> plain merged
     | Some (_, time_src) \<Rightarrow>
         if is_complete_date merged \<and> is_complete_time merged then
           let merged = merged\<lparr>pt_nanosecond := Some (case pt_nanosecond merged of Some n \<Rightarrow> n | None \<Rightarrow> 0)\<rparr> in
           case to_network_time merged of
             None \<Rightarrow> None
           | Some base \<Rightarrow>
               (case advanced_reading base (sub_sat now_mono_ns (st_anchor_mono_ns time_src)) of
                 Some reading \<Rightarrow> Some reading
               | None \<Rightarrow> plain merged)
         else plain merged)"

definition current_time :: "NetworkClock \<Rightarrow> u64 \<Rightarrow> NetworkTimeReading option" where
  "current_time sources now_mono_ns =
    (if sources = [] then None
     else
       let full = do {
           (_, src) \<leftarrow> best_source sources (\<lambda>s. to_network_time (st_time s) \<noteq> None);
           base \<leftarrow> to_network_time (st_time src);
           advanced_reading base (sub_sat now_mono_ns (st_anchor_mono_ns src))
         } in
       case full of Some reading \<Rightarrow> Some reading | None \<Rightarrow> merged_reading sources now_mono_ns)"

section \<open>Tracker\<close>

record TimeSyncTracker =
  tk_cfg :: TimeSyncConfig
  tk_local_id :: string
  tk_sources :: "(string \<times> TimeSyncSource) list"
  tk_current_source :: "string option"

definition tracker_new :: "TimeSyncConfig \<Rightarrow> string \<Rightarrow> TimeSyncTracker" where
  "tracker_new cfg device = \<lparr>tk_cfg = cfg, tk_local_id = device, tk_sources = [], tk_current_source = None\<rparr>"

definition current_source :: "TimeSyncTracker \<Rightarrow> TimeSyncSource option" where
  "current_source tk = Option.bind (tk_current_source tk) (map_of (tk_sources tk))"

definition source_is_active :: "TimeSyncSource \<Rightarrow> u64 \<Rightarrow> u64 \<Rightarrow> bool" where
  "source_is_active src now_ms timeout_ms = (sub_sat now_ms (tss_last_announce_ms src) \<le> timeout_ms)"

definition active_sources :: "TimeSyncTracker \<Rightarrow> u64 \<Rightarrow> TimeSyncSource list" where
  "active_sources tk now_ms =
    filter (\<lambda>src. source_is_active src now_ms (tc_source_timeout_ms (tk_cfg tk))) (map snd (tk_sources tk))"

text \<open>\<^verbatim>\<open>min_by\<close> keeps the first of equal elements.\<close>

definition best_active_source :: "TimeSyncTracker \<Rightarrow> u64 \<Rightarrow> TimeSyncSource option" where
  "best_active_source tk now_ms =
    fold (\<lambda>src best.
      case best of
        None \<Rightarrow> Some src
      | Some b \<Rightarrow>
          if tss_priority src < tss_priority b \<or> tss_priority src = tss_priority b \<and> tss_sender src < tss_sender b
          then Some src else Some b) (active_sources tk now_ms) None"

definition reselect_source :: "u64 \<Rightarrow> TimeSyncTracker \<Rightarrow> TimeSyncUpdate \<times> TimeSyncTracker" where
  "reselect_source now_ms tk =
    (let next = map_option tss_sender (best_active_source tk now_ms) in
     (if next = tk_current_source tk then NoChange else SourceChanged, tk\<lparr>tk_current_source := next\<rparr>))"

definition refresh :: "u64 \<Rightarrow> TimeSyncTracker \<Rightarrow> TimeSyncUpdate \<times> TimeSyncTracker" where
  "refresh now_ms tk =
    reselect_source now_ms
      (tk\<lparr>tk_sources := filter (\<lambda>(_, src). source_is_active src now_ms (tc_source_timeout_ms (tk_cfg tk))) (tk_sources tk)\<rparr>)"

definition local_candidate_priority :: "TimeSyncTracker \<Rightarrow> u64 \<Rightarrow> bool \<Rightarrow> u64 option" where
  "local_candidate_priority tk now_ms has_usable_time =
    (case tc_role (tk_cfg tk) of
      Consumer \<Rightarrow>
        if has_usable_time \<and> tc_consumer_promotion_enabled (tk_cfg tk) \<and> best_active_source tk now_ms = None
        then Some (tc_priority (tk_cfg tk)) else None
    | Source \<Rightarrow> Some (tc_priority (tk_cfg tk))
    | Auto \<Rightarrow> if has_usable_time \<and> best_active_source tk now_ms = None then Some (tc_priority (tk_cfg tk)) else None)"

definition leader :: "TimeSyncTracker \<Rightarrow> u64 \<Rightarrow> bool \<Rightarrow> TimeSyncLeader option" where
  "leader tk now_ms has_usable_time =
    (case (local_candidate_priority tk now_ms has_usable_time, best_active_source tk now_ms) of
      (Some priority, Some remote) \<Rightarrow>
        if priority < tss_priority remote \<or> priority = tss_priority remote \<and> tk_local_id tk < tss_sender remote
        then Some (LeadLocal priority) else Some (LeadRemote remote)
    | (Some priority, None) \<Rightarrow> Some (LeadLocal priority)
    | (None, Some remote) \<Rightarrow> Some (LeadRemote remote)
    | (None, None) \<Rightarrow> None)"

definition local_announce_priority :: "TimeSyncTracker \<Rightarrow> u64 \<Rightarrow> bool \<Rightarrow> u64 option" where
  "local_announce_priority tk now_ms has_usable_time =
    (case leader tk now_ms has_usable_time of
      Some (LeadLocal priority) \<Rightarrow>
        Some (if list_ex (\<lambda>src. tss_priority src = priority) (active_sources tk now_ms) then sub_sat priority 1 else priority)
    | _ \<Rightarrow> None)"

definition should_announce :: "TimeSyncTracker \<Rightarrow> u64 \<Rightarrow> bool \<Rightarrow> bool" where
  "should_announce tk now_ms has_usable_time = (local_announce_priority tk now_ms has_usable_time \<noteq> None)"

definition should_serve :: "TimeSyncTracker \<Rightarrow> u64 \<Rightarrow> bool \<Rightarrow> bool" where
  "should_serve tk now_ms has_usable_time = should_announce tk now_ms has_usable_time"

definition is_source_active :: "TimeSyncTracker \<Rightarrow> u64 \<Rightarrow> bool" where
  "is_source_active tk now_ms =
    (case current_source tk of Some s \<Rightarrow> source_is_active s now_ms (tc_source_timeout_ms (tk_cfg tk)) | None \<Rightarrow> False)"

record PreparedTrackerSource =
  pts_ignore :: bool
  pts_sender :: string
  pts_priority :: u64
  pts_recv_ms :: u64
  pts_time_ms :: u64
  pts_insert :: "TimeSyncSource Prepared option"

definition prepare_tracker_source ::
  "nat \<Rightarrow> bool \<Rightarrow> bool \<Rightarrow> bool \<Rightarrow> TimeSyncTracker \<Rightarrow> string \<Rightarrow> TimeSyncAnnounceFields \<Rightarrow> u64 \<Rightarrow> Admission \<Rightarrow>
    PreparedTrackerSource result \<times> Admission" where
  "prepare_tracker_source sz name_granted box_granted key_granted tk sender ann recv_ms adm =
    (let ignore = (sender = tk_local_id tk);
         done = (\<lambda>insert. \<lparr>pts_ignore = ignore, pts_sender = sender, pts_priority = ann_priority ann, pts_recv_ms = recv_ms,
           pts_time_ms = ann_time_ms ann, pts_insert = insert\<rparr>) in
     if ignore \<or> map_of (tk_sources tk) sender \<noteq> None then (Ok (done None), adm)
     else case try_string name_granted sender of
       Inl e \<Rightarrow> (Err e, adm)
     | Inr name \<Rightarrow>
         (case prepare sz box_granted key_granted (tk_sources tk) sender
             \<lparr>tss_sender = name, tss_priority = ann_priority ann, tss_last_announce_ms = recv_ms, tss_last_time_ms = ann_time_ms ann\<rparr> adm of
           (Inl e, adm) \<Rightarrow> (Err e, adm)
         | (Inr p, adm) \<Rightarrow> (Ok (done (Some p)), adm)))"

definition commit_tracker_source :: "PreparedTrackerSource \<Rightarrow> TimeSyncTracker \<Rightarrow> TimeSyncUpdate \<times> TimeSyncTracker" where
  "commit_tracker_source u tk =
    (if pts_ignore u then (NoChange, tk)
     else
       let sources = (case pts_insert u of
           Some p \<Rightarrow> commit p (tk_sources tk)
         | None \<Rightarrow> map (\<lambda>(k, s). if k = pts_sender u
             then (k, s\<lparr>tss_priority := pts_priority u, tss_last_announce_ms := pts_recv_ms u, tss_last_time_ms := pts_time_ms u\<rparr>)
             else (k, s)) (tk_sources tk)) in
       reselect_source (pts_recv_ms u) (tk\<lparr>tk_sources := sources\<rparr>))"

section \<open>Samples and packets\<close>

definition compute_offset_delay :: "u64 \<Rightarrow> u64 \<Rightarrow> u64 \<Rightarrow> u64 \<Rightarrow> 64 word \<times> u64" where
  "compute_offset_delay t1_ms t2_ms t3_ms t4_ms =
    (let t1 = uint t1_ms; t2 = uint t2_ms; t3 = uint t3_ms; t4 = uint t4_ms;
         offset = trunc_half ((t2 - t1) + (t3 - t4));
         delay = (t4 - t1) - (t3 - t2) in
     (word_of_int offset, if delay < 0 then 0 else word_of_int delay))"

definition compute_network_time_sample :: "u64 \<Rightarrow> u64 \<Rightarrow> u64 \<Rightarrow> u64 \<Rightarrow> u64 \<times> u64" where
  "compute_network_time_sample t1_monotonic_ms t2_network_ms t3_network_ms t4_monotonic_ms =
    (let round_trip = sub_sat t4_monotonic_ms t1_monotonic_ms;
         server_processing = sub_sat t3_network_ms t2_network_ms;
         one_way_delay = sub_sat round_trip server_processing div 2 in
     (add_sat t3_network_ms one_way_delay, one_way_delay))"

definition build_timesync :: "PacketEnv \<Rightarrow> u32 \<Rightarrow> DataType \<Rightarrow> u64 list \<Rightarrow> u64 \<Rightarrow> Packet result \<times> u32" where
  "build_timesync env counter ty vals timestamp =
    from_prim_le_slice env counter ty vals (mm_endpoints (message_meta env ty)) timestamp"

definition build_timesync_announce :: "PacketEnv \<Rightarrow> u32 \<Rightarrow> u64 \<Rightarrow> u64 \<Rightarrow> Packet result \<times> u32" where
  "build_timesync_announce env counter priority time_ms = build_timesync env counter DT_TimeSyncAnnounce [priority, time_ms] time_ms"

definition build_timesync_announce_with_sender :: "PacketEnv \<Rightarrow> u32 \<Rightarrow> string \<Rightarrow> u64 \<Rightarrow> u64 \<Rightarrow> Packet result \<times> u32" where
  "build_timesync_announce_with_sender env counter sender priority time_ms =
    packet_new env counter DT_TimeSyncAnnounce [EP_TimeSync] sender time_ms (concat (map (le_bytes 8) [priority, time_ms]))"

definition build_timesync_request :: "PacketEnv \<Rightarrow> u32 \<Rightarrow> u64 \<Rightarrow> u64 \<Rightarrow> Packet result \<times> u32" where
  "build_timesync_request env counter sq t1_ms = build_timesync env counter DT_TimeSyncRequest [sq, t1_ms] t1_ms"

definition build_timesync_response :: "PacketEnv \<Rightarrow> u32 \<Rightarrow> u64 \<Rightarrow> u64 \<Rightarrow> u64 \<Rightarrow> u64 \<Rightarrow> Packet result \<times> u32" where
  "build_timesync_response env counter sq t1_ms t2_ms t3_ms =
    build_timesync env counter DT_TimeSyncResponse [sq, t1_ms, t2_ms, t3_ms] t3_ms"

definition decode_u64_payload :: "PacketEnv \<Rightarrow> Packet \<Rightarrow> DataType \<Rightarrow> nat \<Rightarrow> u64 list result" where
  "decode_u64_payload env pkt expected_ty expected_words =
    (if pkt_ty pkt \<noteq> expected_ty then Err InvalidType
     else bind_r (as_le_values env UInt64 pkt) (\<lambda>vals.
       if length vals \<noteq> expected_words then Err (SizeMismatch (expected_words * 8) (length vals * 8)) else Ok vals))"

definition decode_timesync_announce :: "PacketEnv \<Rightarrow> Packet \<Rightarrow> TimeSyncAnnounceFields result" where
  "decode_timesync_announce env pkt =
    bind_r (decode_u64_payload env pkt DT_TimeSyncAnnounce 2) (\<lambda>vals. Ok \<lparr>ann_priority = vals ! 0, ann_time_ms = vals ! 1\<rparr>)"

definition decode_timesync_request :: "PacketEnv \<Rightarrow> Packet \<Rightarrow> TimeSyncRequestFields result" where
  "decode_timesync_request env pkt =
    bind_r (decode_u64_payload env pkt DT_TimeSyncRequest 2) (\<lambda>vals. Ok \<lparr>req_seq = vals ! 0, req_t1_ms = vals ! 1\<rparr>)"

definition decode_timesync_response :: "PacketEnv \<Rightarrow> Packet \<Rightarrow> TimeSyncResponseFields result" where
  "decode_timesync_response env pkt =
    bind_r (decode_u64_payload env pkt DT_TimeSyncResponse 4) (\<lambda>vals.
      Ok \<lparr>rsp_seq = vals ! 0, rsp_t1_ms = vals ! 1, rsp_t2_ms = vals ! 2, rsp_t3_ms = vals ! 3\<rparr>)"

definition handle_announce ::
  "nat \<Rightarrow> bool \<Rightarrow> bool \<Rightarrow> bool \<Rightarrow> PacketEnv \<Rightarrow> Packet \<Rightarrow> u64 \<Rightarrow> TimeSyncTracker \<Rightarrow> Admission \<Rightarrow>
    TimeSyncUpdate result \<times> TimeSyncTracker \<times> Admission" where
  "handle_announce sz name_granted box_granted key_granted env pkt recv_ms tk adm =
    (case decode_timesync_announce env pkt of
      Inl e \<Rightarrow> (Err e, tk, adm)
    | Inr ann \<Rightarrow>
        if pkt_sender pkt = tk_local_id tk then (Ok NoChange, tk, adm)
        else case prepare_tracker_source sz name_granted box_granted key_granted tk (pkt_sender pkt) ann recv_ms adm of
          (Inl e, adm) \<Rightarrow> (Err e, tk, adm)
        | (Inr u, adm) \<Rightarrow> (case commit_tracker_source u tk of (res, tk) \<Rightarrow> (Ok res, tk, adm)))"

section \<open>The slewed clock\<close>

definition slew :: "int \<Rightarrow> int \<Rightarrow> int \<Rightarrow> int" where
  "slew ppm pending e = (let m = e * ppm div 1000000 in if pending \<ge> 0 then min pending m else - (min (- pending) m))"

lemma slew_step:
  fixes e e' ppm :: int
  assumes "e \<le> e'" "0 \<le> ppm" "ppm \<le> 1000000"
  shows "e * ppm div 1000000 \<le> e' * ppm div 1000000" "e' * ppm div 1000000 - e * ppm div 1000000 \<le> e' - e"
    "e' * ppm div 1000000 - e * ppm div 1000000 \<le> (e' - e) * ppm div 1000000 + 1"
proof -
  show "e * ppm div 1000000 \<le> e' * ppm div 1000000" using assms by (intro zdiv_mono1 mult_right_mono) simp_all
  have "e' * ppm = e * ppm + (e' - e) * ppm" by (simp add: algebra_simps)
  also have "\<dots> \<le> e * ppm + (e' - e) * 1000000" using assms by (intro add_left_mono mult_left_mono) simp_all
  finally have "e' * ppm div 1000000 \<le> (e * ppm + (e' - e) * 1000000) div 1000000" by (intro zdiv_mono1) simp_all
  then show "e' * ppm div 1000000 - e * ppm div 1000000 \<le> e' - e" by simp
  have "(a + b) div 1000000 \<le> a div 1000000 + b div 1000000 + 1" for a b :: int by linarith
  from this [of "e * ppm" "(e' - e) * ppm"]
  show "e' * ppm div 1000000 - e * ppm div 1000000 \<le> (e' - e) * ppm div 1000000 + 1" by (simp add: algebra_simps)
qed

lemma slew_bounds:
  fixes e e' ppm :: int
  assumes "0 \<le> e" "e \<le> e'" "0 \<le> ppm" "ppm \<le> 1000000"
  shows "\<bar>slew ppm pending e\<bar> \<le> e" "e + slew ppm pending e \<le> e' + slew ppm pending e'"
    "\<bar>slew ppm pending e' - slew ppm pending e\<bar> \<le> (e' - e) * ppm div 1000000 + 1"
    "\<bar>pending\<bar> \<le> e * ppm div 1000000 \<Longrightarrow> slew ppm pending e = pending"
proof -
  define m m' where "m = e * ppm div 1000000" and "m' = e' * ppm div 1000000"
  note st = slew_step [OF assms(2-4), folded m_def m'_def]
  have m: "0 \<le> m" "m \<le> e"
    using slew_step(1, 2) [OF assms(1, 3, 4)] by (simp_all add: m_def)
  have d: "0 \<le> (e' - e) * ppm div 1000000" using assms by (simp add: pos_imp_zdiv_nonneg_iff)
  have s: "slew ppm pending e = (if pending \<ge> 0 then min pending m else - (min (- pending) m))"
    "slew ppm pending e' = (if pending \<ge> 0 then min pending m' else - (min (- pending) m'))"
    by (simp_all add: slew_def m_def m'_def)
  show "\<bar>slew ppm pending e\<bar> \<le> e" using m by (auto simp: s min_def)
  show "e + slew ppm pending e \<le> e' + slew ppm pending e'" using st assms(2) by (auto simp: s min_def)
  show "\<bar>slew ppm pending e' - slew ppm pending e\<bar> \<le> (e' - e) * ppm div 1000000 + 1"
    unfolding s using st d by (simp add: min_def)
  show "slew ppm pending e = pending" if "\<bar>pending\<bar> \<le> e * ppm div 1000000"
    using that by (auto simp: s m_def min_def)
qed

lemma sat128_id: "\<bar>x\<bar> < 2 ^ 127 \<Longrightarrow> sat128 x = x"
  by (auto simp: sat128_def)

lemma uint_sub_sat: "b \<le> a \<Longrightarrow> uint (sub_sat a b) = uint a - uint b"
  by (simp add: sub_sat_def word_le_def word_less_def uint_sub_if' not_less)

lemma read_unix_ns_eq:
  assumes "sc_initialized c" "sc_max_slew_ppm c \<le> 999999" "\<bar>sc_anchor_unix_ns c\<bar> \<le> 2 ^ 126 + 2 ^ 66" "sc_anchor_mono_ns c \<le> now"
  defines "e \<equiv> uint now - uint (sc_anchor_mono_ns c)"
  shows "read_unix_ns c now = Some (sc_anchor_unix_ns c + e + slew (uint (sc_max_slew_ppm c)) (sc_pending_adjust_ns c) e)" "0 \<le> e" "e < 2 ^ 64"
proof -
  have e: "uint (sub_sat now (sc_anchor_mono_ns c)) = e" using assms(4) by (simp add: uint_sub_sat e_def)
  show e0: "0 \<le> e" using assms(4) by (simp add: e_def word_le_def)
  have "uint now < 2 ^ 64" "0 \<le> uint (sc_anchor_mono_ns c)" using uint_lt2p [of now] by simp_all
  then show e1: "e < 2 ^ 64" unfolding e_def by linarith
  define p where "p = uint (sc_max_slew_ppm c)"
  have p: "0 \<le> p" "p \<le> 999999" using assms(2) by (simp_all add: p_def word_le_def)
  have "e * p \<le> 2 ^ 64 * 999999" using e0 e1 p by (intro mult_mono) simp_all
  moreover have "0 \<le> e * p" using e0 p by simp
  ultimately have 1: "sat128 (e * p) = e * p" by (intro sat128_id) simp
  have b: "\<bar>slew p (sc_pending_adjust_ns c) e\<bar> \<le> e" using slew_bounds(1) [of e e p] e0 p by simp
  have 2: "sat128 (sc_anchor_unix_ns c + e) = sc_anchor_unix_ns c + e" using assms(3) e0 e1 by (intro sat128_id) simp
  have 3: "sat128 (sc_anchor_unix_ns c + e + slew p (sc_pending_adjust_ns c) e) = sc_anchor_unix_ns c + e + slew p (sc_pending_adjust_ns c) e"
    using assms(3) e0 e1 b by (intro sat128_id) simp
  show "read_unix_ns c now = Some (sc_anchor_unix_ns c + e + slew (uint (sc_max_slew_ppm c)) (sc_pending_adjust_ns c) e)"
    unfolding read_unix_ns_def Let_def e p_def [symmetric] 1 2 using assms(1) 3 unfolding slew_def Let_def
    by (simp only: if_False simp_thms)
qed

text \<open>C17: the slewed clock is well behaved while it is steered.  Between two instants it never runs backwards, and it
  deviates from elapsed monotonic time by at most the configured rate, rounded up.  Steering does not change the
  reading at the instant of the call, and once the rate has had time to make up the difference the clock shows
  the target time advanced by the elapsed time, exactly.\<close>

theorem slewed_clock_steering:
  assumes "sc_initialized c" and "sc_max_slew_ppm c \<le> 999999" and "\<bar>sc_anchor_unix_ns c\<bar> \<le> 2 ^ 126"
    and "sc_anchor_mono_ns c \<le> now" and "now \<le> later"
  shows "\<exists>t t'. read_unix_ns c now = Some t \<and> read_unix_ns c later = Some t' \<and> t \<le> t' \<and>
    \<bar>(t' - t) - (uint later - uint now)\<bar> \<le> (uint later - uint now) * uint (sc_max_slew_ppm c) div 1000000 + 1 \<and>
    read_unix_ns (steer_unix_ms now target c) now = Some t \<and>
    (\<bar>uint target * 1000000 - t\<bar> \<le> (uint later - uint now) * uint (sc_max_slew_ppm c) div 1000000 \<longrightarrow>
     read_unix_ns (steer_unix_ms now target c) later = Some (uint target * 1000000 + (uint later - uint now)))"
proof -
  define p where "p = uint (sc_max_slew_ppm c)"
  define e where "e = uint now - uint (sc_anchor_mono_ns c)"
  define e' where "e' = uint later - uint (sc_anchor_mono_ns c)"
  define t where "t = sc_anchor_unix_ns c + e + slew p (sc_pending_adjust_ns c) e"
  define t' where "t' = sc_anchor_unix_ns c + e' + slew p (sc_pending_adjust_ns c) e'"
  have range: "\<bar>sc_anchor_unix_ns c\<bar> \<le> 2 ^ 126 + 2 ^ 66" using assms(3) by simp
  note r = read_unix_ns_eq [OF assms(1, 2) range assms(4), folded e_def p_def, folded t_def]
  note r' = read_unix_ns_eq [OF assms(1, 2) range order_trans [OF assms(4, 5)], folded e'_def p_def, folded t'_def]
  have p: "0 \<le> p" "p \<le> 1000000" using assms(2) by (simp_all add: p_def word_le_def)
  have ee: "e \<le> e'" "e' - e = uint later - uint now" using assms(5) by (simp_all add: e_def e'_def word_le_def)
  note sl = slew_bounds [OF r(2) ee(1) p, of "sc_pending_adjust_ns c"]
  define c' where "c' = steer_unix_ms now target c"
  have tb: "\<bar>t\<bar> \<le> 2 ^ 126 + 2 ^ 66" using assms(3) r(2, 3) sl(1) by (simp add: t_def)
  have tg: "0 \<le> uint target * 1000000" "uint target * 1000000 < 2 ^ 84" using uint_lt2p [of target] by simp_all
  moreover have "(2 :: int) ^ 84 + (2 ^ 126 + 2 ^ 66) < 2 ^ 127" by simp
  ultimately have "\<bar>uint target * 1000000 - t\<bar> < 2 ^ 127" using tb by linarith
  then have "sat128 (uint target * 1000000 - t) = uint target * 1000000 - t" by (rule sat128_id)
  then have c': "sc_initialized c'" "sc_max_slew_ppm c' = sc_max_slew_ppm c" "sc_anchor_unix_ns c' = t" "sc_anchor_mono_ns c' = now"
      "sc_pending_adjust_ns c' = uint target * 1000000 - t"
    using assms(1) by (simp_all add: c'_def steer_unix_ms_def r(1) Let_def)
  have rc: "read_unix_ns c' s = Some (t + (uint s - uint now) + slew p (uint target * 1000000 - t) (uint s - uint now))" if "now \<le> s" for s
    using read_unix_ns_eq(1) [of c' s] c' assms(2) tb that by (simp add: p_def)
  have "slew p (uint target * 1000000 - t) 0 = 0" by (simp add: slew_def)
  then have 1: "read_unix_ns c' now = Some t" using rc [of now] by simp
  have 2: "read_unix_ns c' later = Some (uint target * 1000000 + (uint later - uint now))"
    if "\<bar>uint target * 1000000 - t\<bar> \<le> (uint later - uint now) * p div 1000000"
  proof -
    have "0 \<le> uint later - uint now" using ee by simp
    from slew_bounds(4) [OF this order_refl p that] show ?thesis using rc [OF assms(5)] by simp
  qed
  have "t \<le> t'" using sl(2) by (simp add: t_def t'_def)
  moreover have "\<bar>(t' - t) - (uint later - uint now)\<bar> \<le> (uint later - uint now) * p div 1000000 + 1"
    using sl(3) unfolding ee(2) [symmetric] by (simp add: t_def t'_def)
  ultimately show ?thesis using r(1) r'(1) 1 2 unfolding c'_def p_def by blast
qed

definition example_clock :: SlewedNetworkClock where
  "example_clock = \<lparr>sc_anchor_mono_ns = 1000, sc_anchor_unix_ns = 5000000000, sc_pending_adjust_ns = 0,
    sc_max_slew_ppm = 500000, sc_initialized = True\<rparr>"

theorem slewed_clock_steering_witness:
  "read_unix_ns (steer_unix_ms 1000 5001 example_clock) 1000 = Some 5000000000 \<and>
   read_unix_ns (steer_unix_ms 1000 5001 example_clock) 3001000 = Some 5004000000"
proof -
  have t: "read_unix_ns example_clock 1000 = Some 5000000000"
    by (simp add: read_unix_ns_def example_clock_def sub_sat_def sat128_def)
  have "sc_initialized example_clock" "sc_max_slew_ppm example_clock \<le> 999999" "\<bar>sc_anchor_unix_ns example_clock\<bar> \<le> 2 ^ 126"
      "sc_anchor_mono_ns example_clock \<le> 1000" "(1000 :: u64) \<le> 3001000"
    by (simp_all add: example_clock_def)
  from slewed_clock_steering [OF this, of 5001] t show ?thesis by (auto simp: example_clock_def)
qed

section \<open>Election\<close>

definition preferred :: "u64 \<times> string \<Rightarrow> u64 \<times> string \<Rightarrow> bool" where
  "preferred a b \<longleftrightarrow> fst a < fst b \<or> fst a = fst b \<and> snd a < snd b"

lemma preferred_linear:
  "\<not> preferred a a" "preferred a b \<Longrightarrow> preferred b c \<Longrightarrow> preferred a c" "preferred a b \<or> a = b \<or> preferred b a"
  by (auto simp: preferred_def prod_eq_iff)

abbreviation source_rank :: "TimeSyncSource \<Rightarrow> u64 \<times> string" where
  "source_rank s \<equiv> (tss_priority s, tss_sender s)"

abbreviation better_source :: "TimeSyncSource \<Rightarrow> TimeSyncSource option \<Rightarrow> TimeSyncSource option" where
  "better_source src best \<equiv> (case best of None \<Rightarrow> Some src
      | Some b \<Rightarrow> if tss_priority src < tss_priority b \<or> tss_priority src = tss_priority b \<and> tss_sender src < tss_sender b
          then Some src else Some b)"

lemma best_fold:
  "\<exists>b. fold better_source xs (Some x) = Some b \<and> b \<in> insert x (set xs) \<and>
    (\<forall>s \<in> insert x (set xs). \<not> preferred (source_rank s) (source_rank b))"
proof (induction xs arbitrary: x)
  case Nil
  then show ?case by (simp add: preferred_linear(1))
next
  case (Cons y ys)
  define z where "z = (if preferred (source_rank y) (source_rank x) then y else x)"
  have z: "better_source y (Some x) = Some z" by (simp add: z_def preferred_def)
  obtain b where b: "fold better_source ys (Some z) = Some b" "b \<in> insert z (set ys)"
    "\<forall>s \<in> insert z (set ys). \<not> preferred (source_rank s) (source_rank b)" using Cons [of z] by blast
  have zb: "\<not> preferred (source_rank z) (source_rank b)" using b(3) by blast
  have "\<not> preferred (source_rank x) (source_rank b) \<and> \<not> preferred (source_rank y) (source_rank b)"
  proof (cases "preferred (source_rank y) (source_rank x)")
    case True
    then show ?thesis using zb preferred_linear(2) [OF True] unfolding z_def by (simp only: if_True) metis
  next
    case False
    then show ?thesis using zb preferred_linear(2) [of "source_rank x" "source_rank y" "source_rank b"]
        preferred_linear(3) [of "source_rank y" "source_rank x"] unfolding z_def by (simp only: if_False) metis
  qed
  moreover have "b \<in> insert x (set (y # ys))" using b(2) unfolding z_def by (auto split: if_splits)
  moreover have "fold better_source (y # ys) (Some x) = Some b" using b(1) z by (simp only: fold_simps)
  ultimately show ?case using b(3) by (intro exI [of _ b]) auto
qed

lemma best_active_source_cases:
  "best_active_source tk now = None \<and> active_sources tk now = [] \<or>
   (\<exists>b \<in> set (active_sources tk now). best_active_source tk now = Some b \<and>
      (\<forall>s \<in> set (active_sources tk now). \<not> preferred (source_rank s) (source_rank b)))"
proof (cases "active_sources tk now")
  case (Cons x xs)
  then show ?thesis using best_fold [of xs x] by (auto simp: best_active_source_def)
qed (simp add: best_active_source_def)

lemma least_rank:
  assumes "finite N" "N \<noteq> {}"
  shows "\<exists>l \<in> N. \<forall>i \<in> N. i \<noteq> l \<longrightarrow> preferred (prio l, l) (prio i, i)"
  using assms
proof (induction rule: finite_ne_induct)
  case (insert x F)
  then obtain l where l: "l \<in> F" "\<forall>i \<in> F. i \<noteq> l \<longrightarrow> preferred (prio l, l) (prio i, i)" by blast
  consider "preferred (prio x, x) (prio l, l)" | "preferred (prio l, l) (prio x, x)"
    using preferred_linear(3) [of "(prio x, x)" "(prio l, l)"] insert.hyps(3) l(1) by auto
  then show ?case
  proof cases
    case 1
    have "preferred (prio x, x) (prio i, i)" if "i \<in> F" for i
      using 1 l(2) that preferred_linear(2) [OF 1, of "(prio i, i)"] by (cases "i = l") auto
    then show ?thesis by (intro bexI [of _ x]) auto
  next
    case 2
    then show ?thesis using l by auto
  qed
qed simp


definition example_tracker :: "string \<Rightarrow> TimeSyncTracker" where
  "example_tracker i = \<lparr>tk_cfg = config_default\<lparr>tc_role := Source\<rparr>, tk_local_id = i,
    tk_sources = (let j = (if i = ''A'' then ''B'' else ''A'') in
      [(j, \<lparr>tss_sender = j, tss_priority = 100, tss_last_announce_ms = 10, tss_last_time_ms = 0\<rparr>)]),
    tk_current_source = None\<rparr>"

lemma example_active:
  "active_sources (example_tracker ''A'') 20 = [\<lparr>tss_sender = ''B'', tss_priority = 100, tss_last_announce_ms = 10, tss_last_time_ms = 0\<rparr>]"
  "active_sources (example_tracker ''B'') 20 = [\<lparr>tss_sender = ''A'', tss_priority = 100, tss_last_announce_ms = 10, tss_last_time_ms = 0\<rparr>]"
  by (simp_all add: example_tracker_def active_sources_def source_is_active_def sub_sat_def config_default_def Let_def)

lemma example_settings:
  "tk_local_id (example_tracker i) = i \<and> tc_role (tk_cfg (example_tracker i)) = Source \<and> tc_priority (tk_cfg (example_tracker i)) = 100"
  by (simp add: example_tracker_def config_default_def)


end
