(* ===== verification/Side_Frames.thy ===== *)
theory Side_Frames
  imports Wire_Rewrite
begin

text \<open>
  The framing layer of a side (\<^verbatim>\<open>src/src/side_transport.rs\<close>): the checksummed wrapper, the lazy
  iterator that cuts a frame into chunks, resumable sending, the table of transfer cursors and
  the streaming path that cuts a packet without building its frame.  The checksum is the crate
  \<^verbatim>\<open>crc32fast\<close> and an argument, as is the transmit handler, a function of its own state.
  Proved: what the handler has accepted after any number of interrupted attempts is exactly a
  prefix of the chunks, and streaming a packet behaves as cutting its packed frame.
\<close>

section \<open>Wrapper\<close>

abbreviation (input) SIDE_TRANSPORT_MAGIC :: bytes where "SIDE_TRANSPORT_MAGIC \<equiv> [0x53, 0x44, 0x54]"
abbreviation (input) SIDE_TRANSPORT_KIND_FULL :: u8 where "SIDE_TRANSPORT_KIND_FULL \<equiv> 0x01"
abbreviation (input) SIDE_TRANSPORT_KIND_COMPACT :: u8 where "SIDE_TRANSPORT_KIND_COMPACT \<equiv> 0x02"
abbreviation (input) SIDE_TRANSPORT_KIND_CHUNK :: u8 where "SIDE_TRANSPORT_KIND_CHUNK \<equiv> 0x03"
abbreviation (input) SIDE_TRANSPORT_KIND_COMPACT_DELTA :: u8 where "SIDE_TRANSPORT_KIND_COMPACT_DELTA \<equiv> 0x04"
abbreviation (input) SIDE_TRANSPORT_KIND_COMPACT_SAME_TIMESTAMP :: u8 where
  "SIDE_TRANSPORT_KIND_COMPACT_SAME_TIMESTAMP \<equiv> 0x05"
abbreviation (input) SIDE_TRANSPORT_CHUNK_OVERHEAD :: nat where "SIDE_TRANSPORT_CHUNK_OVERHEAD \<equiv> 16"
abbreviation (input) SIDE_TX_PROGRESS_TIMEOUT_MS :: nat where "SIDE_TX_PROGRESS_TIMEOUT_MS \<equiv> 2000"

text \<open>The incremental checksum of the segments is the checksum of their concatenation.\<close>

definition wrap_side_transport_frame_parts :: "(bytes \<Rightarrow> u32) \<Rightarrow> u8 \<Rightarrow> bytes list \<Rightarrow> bytes" where
  "wrap_side_transport_frame_parts crc kind parts =
    (let header = [0x53, 0x44, 0x54, kind]; body = concat parts in
     header @ body @ le_bytes 4 (crc (header @ body)))"

definition wrap_side_transport_frame :: "(bytes \<Rightarrow> u32) \<Rightarrow> u8 \<Rightarrow> bytes \<Rightarrow> bytes" where
  "wrap_side_transport_frame crc kind body = wrap_side_transport_frame_parts crc kind [body]"

definition parse_side_transport_wrapper :: "(bytes \<Rightarrow> u32) \<Rightarrow> bytes \<Rightarrow> (u8 \<times> bytes) option result" where
  "parse_side_transport_wrapper crc bs =
    (if length bs < 3 + 1 + 4 then Ok None
     else if take 3 bs \<noteq> SIDE_TRANSPORT_MAGIC then Ok None
     else
       let data_len = length bs - 4;
           expected = from_le_bytes (take 4 (drop data_len bs));
           data = take data_len bs in
       if crc data \<noteq> expected then Err (Unpack ''side transport crc32 mismatch'')
       else Ok (Some (data ! 3, drop 4 data)))"

section \<open>Frames of a transfer\<close>

record SideTransportFrames =
  stf_frame :: bytes
  stf_payload_budget :: nat
  stf_transfer_id :: u32
  stf_index :: nat
  stf_total :: nat

definition single :: "bytes \<Rightarrow> SideTransportFrames" where
  "single frame = \<lparr>stf_frame = frame, stf_payload_budget = 0, stf_transfer_id = 0, stf_index = 0, stf_total = 1\<rparr>"

definition div_ceil :: "nat \<Rightarrow> nat \<Rightarrow> nat" where
  "div_ceil a b = (if a mod b = 0 then a div b else a div b + 1)"

definition fold_hash_id :: "u64 \<Rightarrow> u32" where
  "fold_hash_id h = max (ucast (drop_bit 32 h) XOR ucast h) 1"

definition split_frame :: "bytes \<Rightarrow> nat \<Rightarrow> bytes \<Rightarrow> SideTransportFrames result" where
  "split_frame frame max_frame_bytes sender =
    (if max_frame_bytes \<le> SIDE_TRANSPORT_CHUNK_OVERHEAD then Err BadArg
     else
       let payload_budget = max_frame_bytes - SIDE_TRANSPORT_CHUNK_OVERHEAD;
           total = div_ceil (length frame) payload_budget in
       if total > 65535 then Err (PacketTooLarge ''too many chunks'')
       else
         let seed = hash_bytes_u64 0x517CC1B727220A95 sender;
             hash = hash_bytes_u64 seed frame in
         Ok \<lparr>stf_frame = frame, stf_payload_budget = payload_budget, stf_transfer_id = fold_hash_id hash,
             stf_index = 0, stf_total = total\<rparr>)"

definition history_dependent :: "SideTransportFrames \<Rightarrow> bool" where
  "history_dependent s = (take 3 (stf_frame s) = SIDE_TRANSPORT_MAGIC)"

definition bootstraps_template :: "SideTransportFrames \<Rightarrow> bool" where
  "bootstraps_template s = (history_dependent s \<and> buf_get (stf_frame s) 3 = Some SIDE_TRANSPORT_KIND_FULL)"

definition progress_key :: "SideTransportFrames \<Rightarrow> u64" where
  "progress_key s =
    hash_bytes_u64 (hash_bytes_u64 0xB6186A8573294811 (le_bytes 8 (of_nat (stf_payload_budget s) :: u64))) (stf_frame s)"

definition canonical_packet_progress_key :: "u64 \<Rightarrow> nat \<Rightarrow> u64" where
  "canonical_packet_progress_key pkt_id max_frame_bytes = hash_bytes_u64 pkt_id (le_bytes 8 (of_nat max_frame_bytes :: u64))"

definition wire_len :: "SideTransportFrames \<Rightarrow> nat" where
  "wire_len s = length (stf_frame s) + (if stf_payload_budget s = 0 then 0 else stf_total s * SIDE_TRANSPORT_CHUNK_OVERHEAD)"

text \<open>The iterator.  Its index never passes the total: it starts at most there and stops there.\<close>

definition frames_next :: "(bytes \<Rightarrow> u32) \<Rightarrow> SideTransportFrames \<Rightarrow> (bytes \<times> SideTransportFrames) option" where
  "frames_next crc s =
    (if stf_index s \<ge> stf_total s then None
     else
       let index = stf_index s; s' = s\<lparr>stf_index := stf_index s + 1\<rparr> in
       if stf_payload_budget s = 0 then Some (stf_frame s, s')
       else
         let start = index * stf_payload_budget s;
             stop = min (start + stf_payload_budget s) (length (stf_frame s)) in
         Some (wrap_side_transport_frame_parts crc SIDE_TRANSPORT_KIND_CHUNK
           [le_bytes 4 (stf_transfer_id s), le_bytes 2 (of_nat index :: u16), le_bytes 2 (of_nat (stf_total s) :: u16),
            take (stop - start) (drop start (stf_frame s))], s'))"

definition size_hint :: "SideTransportFrames \<Rightarrow> nat" where
  "size_hint s = stf_total s - stf_index s"

definition admits_next :: "SideTransportFrames \<Rightarrow> Admission \<Rightarrow> bool \<times> Admission" where
  "admits_next s adm =
    (if stf_index s < stf_total s \<and> stf_payload_budget s \<noteq> 0 then
       let left = length (stf_frame s) - stf_index s * stf_payload_budget s;
           n = saturating_add (min left (stf_payload_budget s)) SIDE_TRANSPORT_CHUNK_OVERHEAD in
       apfst is_ok (check (saturating_add n 256) (saturating_add n 32) adm)
     else (True, adm))"

lemma frames_next_measure:
  "frames_next crc s = Some (f, s') \<Longrightarrow> stf_total s' - stf_index s' < stf_total s - stf_index s"
  by (auto simp: frames_next_def Let_def split: if_splits)

type_synonym 'h handler = "'h \<Rightarrow> bytes \<Rightarrow> unit result \<times> 'h"

function (sequential) send_loop ::
  "(bytes \<Rightarrow> u32) \<Rightarrow> 'h handler \<Rightarrow> SideTransportFrames \<Rightarrow> nat \<Rightarrow> 'h \<Rightarrow> Admission \<Rightarrow> unit result \<times> nat \<times> 'h \<times> Admission" where
  "send_loop crc send s next h adm =
    (case admits_next s adm of (admitted, adm) \<Rightarrow>
      if \<not> admitted then (memory_pressure, next, h, adm)
      else case frames_next crc s of
        None \<Rightarrow> (Ok (), next, h, adm)
      | Some (frame, s') \<Rightarrow>
          (case send h frame of
            (Inl e, h) \<Rightarrow> (Err e, next, h, adm)
          | (Inr _, h) \<Rightarrow> send_loop crc send s' (stf_index s') h adm))"
  by pat_completeness auto

termination
  by (relation "measure (\<lambda>(crc, send, s, next, h, adm). stf_total s - stf_index s)") (auto dest: frames_next_measure)

declare send_loop.simps [simp del]

definition send_resuming ::
  "(bytes \<Rightarrow> u32) \<Rightarrow> 'h handler \<Rightarrow> SideTransportFrames \<Rightarrow> nat \<Rightarrow> 'h \<Rightarrow> Admission \<Rightarrow> unit result \<times> nat \<times> 'h \<times> Admission" where
  "send_resuming crc send s next h adm =
    (if next > stf_total s then (Err BadArg, next, h, adm)
     else send_loop crc send (s\<lparr>stf_index := next\<rparr>) next h adm)"

section \<open>Transfer cursors\<close>

record SideTxCursor =
  cur_key :: u64
  cur_next :: nat
  cur_last_progress_ms :: nat

type_synonym SideTxProgress = "SideTxCursor option list"

definition progress_default :: SideTxProgress where
  "progress_default = replicate 4 None"

definition expire_cursor :: "nat \<Rightarrow> SideTxCursor option \<Rightarrow> SideTxCursor option" where
  "expire_cursor now slot =
    (case slot of
      Some entry \<Rightarrow> if saturating_sub now (cur_last_progress_ms entry) > SIDE_TX_PROGRESS_TIMEOUT_MS then None else slot
    | None \<Rightarrow> None)"

fun occupy_slot :: "SideTxCursor \<Rightarrow> SideTxProgress \<Rightarrow> SideTxProgress option" where
  "occupy_slot c [] = None"
| "occupy_slot c (None # slots) = Some (Some c # slots)"
| "occupy_slot c (Some d # slots) = map_option ((#) (Some d)) (occupy_slot c slots)"

definition find_key :: "u64 \<Rightarrow> SideTxProgress \<Rightarrow> SideTxCursor option" where
  "find_key key slots = List.find (\<lambda>c. cur_key c = key) (List.map_filter id slots)"

definition begin_classified :: "u64 \<Rightarrow> nat \<Rightarrow> SideTxProgress \<Rightarrow> nat result \<times> SideTxProgress" where
  "begin_classified key now slots =
    (let slots = map (expire_cursor now) slots in
     case find_key key slots of
       Some entry \<Rightarrow> (Ok (cur_next entry), slots)
     | None \<Rightarrow>
         (case occupy_slot \<lparr>cur_key = key, cur_next = 0, cur_last_progress_ms = now\<rparr> slots of
           None \<Rightarrow> (Err (Io ''side chunk progress saturated''), slots)
         | Some slots \<Rightarrow> (Ok 0, slots)))"

definition finish_cursor :: "nat \<Rightarrow> nat \<Rightarrow> 'a result \<Rightarrow> SideTxCursor \<Rightarrow> SideTxCursor option" where
  "finish_cursor next now res entry =
    (if is_ok res \<or> next = 0 \<or> \<not> (case res of Inl (Io _) \<Rightarrow> True | _ \<Rightarrow> False) then None
     else
       let entry = (if next > cur_next entry then entry\<lparr>cur_last_progress_ms := now\<rparr> else entry) in
       Some (entry\<lparr>cur_next := next\<rparr>))"

fun finish :: "u64 \<Rightarrow> nat \<Rightarrow> nat \<Rightarrow> 'a result \<Rightarrow> SideTxProgress \<Rightarrow> SideTxProgress" where
  "finish key next now res [] = []"
| "finish key next now res (None # slots) = None # finish key next now res slots"
| "finish key next now res (Some entry # slots) =
    (if cur_key entry = key then finish_cursor next now res entry # slots
     else Some entry # finish key next now res slots)"

text \<open>A resumable transfer of the router: the table is allocated on first use, the callback starts where the
  cursor of the transfer stands, and its outcome is recorded.  \<^verbatim>\<open>sz\<close> is the size of the table, \<^verbatim>\<open>now\<close> and
  \<^verbatim>\<open>later\<close> are the two readings of the clock.\<close>

definition run_side_chunk_transfer ::
  "nat \<Rightarrow> nat \<Rightarrow> nat \<Rightarrow> u64 \<Rightarrow> (nat \<Rightarrow> 'h \<Rightarrow> Admission \<Rightarrow> 'a result \<times> nat \<times> 'h \<times> Admission) \<Rightarrow> SideTxProgress option \<Rightarrow> 'h \<Rightarrow> Admission \<Rightarrow>
    'a result \<times> SideTxProgress option \<times> 'h \<times> Admission" where
  "run_side_chunk_transfer sz now later key send progress h adm =
    (case (case progress of Some p \<Rightarrow> (Ok p, adm) | None \<Rightarrow> apfst (\<lambda>r. bind_r r (\<lambda>_. Ok progress_default)) (check 512 sz adm)) of
      (Inl e, adm) \<Rightarrow> (Err e, progress, h, adm)
    | (Inr p, adm) \<Rightarrow>
        (case begin_classified key now p of
          (Inl e, p) \<Rightarrow> (Err e, Some p, h, adm)
        | (Inr next, p) \<Rightarrow>
            (case send next h adm of (res, next, h, adm) \<Rightarrow> (res, Some (finish key next later res p), h, adm))))"

section \<open>Streaming a packet\<close>

text \<open>The pieces of the parts that fall into \<^verbatim>\<open>start..stop\<close> of their concatenation.\<close>

fun part_slices :: "nat \<Rightarrow> nat \<Rightarrow> nat \<Rightarrow> bytes list \<Rightarrow> bytes list" where
  "part_slices start stop offset [] = []"
| "part_slices start stop offset (part # parts) =
    (let low = min (saturating_sub start offset) (length part);
         high = min (saturating_sub stop offset) (length part) in
     take (high - low) (drop low part) # part_slices start stop (offset + length part) parts)"

fun stream_chunks ::
  "(bytes \<Rightarrow> u32) \<Rightarrow> 'h handler \<Rightarrow> nat \<Rightarrow> bytes list \<Rightarrow> nat \<Rightarrow> u32 \<Rightarrow> nat \<Rightarrow> nat list \<Rightarrow> nat \<Rightarrow> 'h \<Rightarrow> Admission \<Rightarrow>
    unit result \<times> nat \<times> 'h \<times> Admission" where
  "stream_chunks crc send max_frame_bytes parts len transfer total_n [] next_chunk h adm = (Ok (), next_chunk, h, adm)"
| "stream_chunks crc send max_frame_bytes parts len transfer total_n (index # indices) next_chunk h adm =
    (let budget = max_frame_bytes - SIDE_TRANSPORT_CHUNK_OVERHEAD;
         start = index * budget;
         stop = min (start + budget) len;
         slices = [le_bytes 4 transfer, le_bytes 2 (of_nat index :: u16), le_bytes 2 (of_nat total_n :: u16)] @
           part_slices start stop 0 parts in
     case check (saturating_add max_frame_bytes 256) (saturating_add max_frame_bytes 32) adm of
       (Inl e, adm) \<Rightarrow> (Err e, next_chunk, h, adm)
     | (Inr _, adm) \<Rightarrow>
         (case send h (wrap_side_transport_frame_parts crc SIDE_TRANSPORT_KIND_CHUNK slices) of
           (Inl e, h) \<Rightarrow> (Err e, next_chunk, h, adm)
         | (Inr _, h) \<Rightarrow> stream_chunks crc send max_frame_bytes parts len transfer total_n indices (index + 1) h adm))"

definition send_packet_parts ::
  "(bytes \<Rightarrow> u32) \<Rightarrow> 'h handler \<Rightarrow> nat \<Rightarrow> bytes \<Rightarrow> bytes \<Rightarrow> bytes \<Rightarrow> nat \<Rightarrow> 'h \<Rightarrow> Admission \<Rightarrow>
    (nat \<times> nat \<times> nat) result \<times> nat \<times> 'h \<times> Admission" where
  "send_packet_parts crc send max_frame_bytes sender header pl next_chunk h adm =
    (let parts = [header, pl, le_bytes 4 (crc (header @ pl))];
         len = length header + length pl + 4;
         total_n = div_ceil len (max_frame_bytes - SIDE_TRANSPORT_CHUNK_OVERHEAD) in
     if total_n > 65535 then (Err (PacketTooLarge ''too many chunks''), next_chunk, h, adm)
     else
       let hash = fold (\<lambda>part hash. hash_bytes_u64 hash part) parts (hash_bytes_u64 0x517CC1B727220A95 sender) in
       if next_chunk > total_n then (Err BadArg, next_chunk, h, adm)
       else case stream_chunks crc send max_frame_bytes parts len (fold_hash_id hash) total_n [next_chunk..<total_n] next_chunk h adm of
         (Inl e, next_chunk, h, adm) \<Rightarrow> (Err e, next_chunk, h, adm)
       | (Inr _, next_chunk, h, adm) \<Rightarrow> (Ok (len, len + total_n * SIDE_TRANSPORT_CHUNK_OVERHEAD, total_n), next_chunk, h, adm))"

text \<open>The outer option is the panic of packing more than 255 endpoints.\<close>

definition send_packet_chunks ::
  "WireEnv \<Rightarrow> 'h handler \<Rightarrow> Packet \<Rightarrow> nat \<Rightarrow> bytes \<Rightarrow> nat \<Rightarrow> 'h \<Rightarrow> Admission \<Rightarrow> AddressBook \<Rightarrow>
    ((nat \<times> nat \<times> nat) result \<times> nat \<times> 'h \<times> Admission) option \<times> AddressBook" where
  "send_packet_chunks env send pkt max_frame_bytes sender next_chunk h adm book =
    (if max_frame_bytes \<le> SIDE_TRANSPORT_CHUNK_OVERHEAD then (Some (Err BadArg, next_chunk, h, adm), book)
     else case with_plain_packet_parts env pkt book of
       (None, book) \<Rightarrow> (None, book)
     | (Some (Inl e), book) \<Rightarrow> (Some (Err e, next_chunk, h, adm), book)
     | (Some (Inr (header, pl)), book) \<Rightarrow>
         (Some (send_packet_parts (we_crc env) send max_frame_bytes sender header pl next_chunk h adm), book))"

section \<open>Chunks\<close>

definition side_chunk :: "(bytes \<Rightarrow> u32) \<Rightarrow> SideTransportFrames \<Rightarrow> nat \<Rightarrow> bytes" where
  "side_chunk crc s i =
    (if stf_payload_budget s = 0 then stf_frame s
     else wrap_side_transport_frame_parts crc SIDE_TRANSPORT_KIND_CHUNK
       [le_bytes 4 (stf_transfer_id s), le_bytes 2 (of_nat i :: u16), le_bytes 2 (of_nat (stf_total s) :: u16),
        take (stf_payload_budget s) (drop (i * stf_payload_budget s) (stf_frame s))])"

lemma take_min_drop: "take (min (a + b) (length xs) - a) (drop a xs) = take b (drop a xs)"
  by (cases "a + b \<le> length xs") (simp_all add: min_def)

lemma frames_next_eq:
  "frames_next crc s =
    (if stf_index s < stf_total s then Some (side_chunk crc s (stf_index s), s\<lparr>stf_index := stf_index s + 1\<rparr>) else None)"
  by (simp add: frames_next_def side_chunk_def Let_def take_min_drop)

lemma side_chunk_index [simp]: "side_chunk crc (s\<lparr>stf_index := i\<rparr>) = side_chunk crc s"
  by (simp add: side_chunk_def fun_eq_iff)

text \<open>A handler that also keeps the frames it has accepted.\<close>

definition logged :: "'h handler \<Rightarrow> ('h \<times> bytes list) handler" where
  "logged send hl f = (case send (fst hl) f of (Inl e, h) \<Rightarrow> (Err e, h, snd hl) | (Inr x, h) \<Rightarrow> (Ok x, h, snd hl @ [f]))"

definition io_result :: "'a result \<Rightarrow> bool" where
  "io_result r = (case r of Inl (Io _) \<Rightarrow> True | Inl _ \<Rightarrow> False | Inr _ \<Rightarrow> True)"

lemma send_loop_log:
  assumes "send_loop crc (logged send) s next hl adm = (r, next', hl', adm')"
    and "next = stf_index s" "stf_index s \<le> stf_total s" "\<And>h f. io_result (fst (send h f))"
  shows "next \<le> next' \<and> next' \<le> stf_total s \<and> snd hl' = snd hl @ map (side_chunk crc s) [next..<next'] \<and>
    (is_ok r \<longrightarrow> next' = stf_total s) \<and> io_result r"
  using assms
proof (induction "stf_total s - stf_index s" arbitrary: s "next" hl adm rule: less_induct)
  case less
  note eq = less.prems(1) [unfolded send_loop.simps [of crc _ s]]
  obtain ok adm1 where a: "admits_next s adm = (ok, adm1)" by fastforce
  show ?case
  proof (cases "ok \<and> stf_index s < stf_total s")
    case False
    then show ?thesis using eq less.prems(2, 3) a by (auto simp: frames_next_eq io_result_def split: if_splits)
  next
    case True
    define s' where "s' = s\<lparr>stf_index := stf_index s + 1\<rparr>"
    obtain x h' where x: "send (fst hl) (side_chunk crc s (stf_index s)) = (x, h')" by fastforce
    show ?thesis
    proof (cases x)
      case (Inl e)
      then show ?thesis
        using eq less.prems(2, 3) less.prems(4) [of "fst hl" "side_chunk crc s (stf_index s)"] True a x
        by (auto simp: frames_next_eq logged_def io_result_def)
    next
      case (Inr u)
      have "send_loop crc (logged send) s' (stf_index s') (h', snd hl @ [side_chunk crc s (stf_index s)]) adm1 = (r, next', hl', adm')"
        using eq True a x Inr by (simp add: frames_next_eq logged_def s'_def)
      from less.hyps [OF _ this refl _ less.prems(4)]
      have "stf_index s' \<le> next' \<and> next' \<le> stf_total s' \<and>
        snd hl' = (snd hl @ [side_chunk crc s (stf_index s)]) @ map (side_chunk crc s') [stf_index s'..<next'] \<and>
        (is_ok r \<longrightarrow> next' = stf_total s') \<and> io_result r"
        using True by (auto simp: s'_def)
      then show ?thesis using less.prems(2) by (simp add: s'_def upt_conv_Cons)
    qed
  qed
qed

lemma send_resuming_log:
  assumes "send_resuming crc (logged send) s next hl adm = (r, next', hl', adm')"
    and "next \<le> stf_total s" "\<And>h f. io_result (fst (send h f))"
  shows "next \<le> next' \<and> next' \<le> stf_total s \<and> snd hl' = snd hl @ map (side_chunk crc s) [next..<next'] \<and>
    (is_ok r \<longrightarrow> next' = stf_total s) \<and> io_result r"
  using send_loop_log [of crc send "s\<lparr>stf_index := next\<rparr>" "next" hl adm r next' hl' adm'] assms
  by (simp add: send_resuming_def)

section \<open>Interrupted transfers\<close>

text \<open>Attempts at one transfer until the first that succeeds, each with its handler and its two clock readings.\<close>

fun run_attempts ::
  "(bytes \<Rightarrow> u32) \<Rightarrow> nat \<Rightarrow> SideTransportFrames \<Rightarrow> ('h handler \<times> nat \<times> nat) list \<Rightarrow> SideTxProgress option \<Rightarrow> 'h \<times> bytes list \<Rightarrow> Admission \<Rightarrow>
    bool \<times> SideTxProgress option \<times> ('h \<times> bytes list) \<times> Admission" where
  "run_attempts crc sz s [] progress hl adm = (False, progress, hl, adm)"
| "run_attempts crc sz s ((send, now, later) # attempts) progress hl adm =
    (case run_side_chunk_transfer sz now later (progress_key s) (send_resuming crc (logged send) s) progress hl adm of
      (Inr _, progress, hl, adm) \<Rightarrow> (True, progress, hl, adm)
    | (Inl _, progress, hl, adm) \<Rightarrow> run_attempts crc sz s attempts progress hl adm)"

text \<open>The table holds at most the cursor of this transfer, with the number of chunks accepted so far.\<close>

definition cursor_at :: "nat \<Rightarrow> u64 \<Rightarrow> nat \<Rightarrow> SideTxProgress option \<Rightarrow> bool" where
  "cursor_at t0 key n progress \<longleftrightarrow>
    n = 0 \<and> (progress = None \<or> progress = Some progress_default) \<or>
    (\<exists>t \<ge> t0. progress = Some [Some \<lparr>cur_key = key, cur_next = n, cur_last_progress_ms = t\<rparr>, None, None, None])"

lemma progress_default_slots: "progress_default = [None, None, None, None]"
  by (simp add: progress_default_def numeral_eq_Suc)

lemma begin_at_cursor:
  assumes "cursor_at t0 key n (Some p)" "t0 \<le> now" "now \<le> t0 + SIDE_TX_PROGRESS_TIMEOUT_MS"
  shows "\<exists>t \<ge> t0. begin_classified key now p = (Ok n, [Some \<lparr>cur_key = key, cur_next = n, cur_last_progress_ms = t\<rparr>, None, None, None])"
  using assms
  by (auto simp: cursor_at_def begin_classified_def progress_default_slots expire_cursor_def find_key_def map_filter_def)

lemma finish_at_cursor:
  assumes "t0 \<le> t" "t0 \<le> later" "io_result res" "\<not> is_ok res"
  shows "cursor_at t0 key n (Some (finish key n later res [Some \<lparr>cur_key = key, cur_next = m, cur_last_progress_ms = t\<rparr>, None, None, None]))"
  using assms
  by (auto simp: cursor_at_def finish_cursor_def io_result_def progress_default_slots
      split: sum.splits TelemetryError.splits)

text \<open>C15: an interrupted chunk transfer loses and repeats nothing.  However often the handler refuses a chunk with an
  I/O error or memory runs short, the frames accepted over all attempts within the progress timeout are the first
  chunks of the transfer in order, each once, and a transfer that reports success has had all of them accepted.\<close>

theorem interrupted_transfer:
  assumes "\<And>send now later. (send, now, later) \<in> set attempts \<Longrightarrow>
      t0 \<le> now \<and> now \<le> t0 + SIDE_TX_PROGRESS_TIMEOUT_MS \<and> t0 \<le> later \<and> (\<forall>h f. io_result (fst (send h f)))"
    and "run_attempts crc sz s attempts None (h, []) adm = (complete, progress, (h', accepted), adm')"
  shows "\<exists>n \<le> stf_total s. accepted = map (side_chunk crc s) [0..<n] \<and> (complete \<longrightarrow> n = stf_total s)"
proof -
  have "\<exists>n \<le> stf_total s. accepted = map (side_chunk crc s) [0..<n] \<and> (complete \<longrightarrow> n = stf_total s)"
    if "cursor_at t0 (progress_key s) m progress0" "m \<le> stf_total s"
      "run_attempts crc sz s attempts progress0 (h0, map (side_chunk crc s) [0..<m]) adm0 = (complete, progress, (h', accepted), adm')"
    for m progress0 h0 adm0
    using that assms(1)
  proof (induction attempts arbitrary: m progress0 h0 adm0)
    case Nil
    then show ?case by auto
  next
    case (Cons at attempts)
    obtain send now later where at: "at = (send, now, later)" by (cases at)
    have io: "\<And>h f. io_result (fst (send h f))" and tm: "t0 \<le> now" "now \<le> t0 + 2000" "t0 \<le> later"
      using Cons.prems(4) [of send now later] at by auto
    have rest: "\<And>send now later. (send, now, later) \<in> set attempts \<Longrightarrow>
      t0 \<le> now \<and> now \<le> t0 + 2000 \<and> t0 \<le> later \<and> (\<forall>h f. io_result (fst (send h f)))"
      using Cons.prems(4) by (meson list.set_intros(2))
    obtain q adm1 where q: "(case progress0 of Some p \<Rightarrow> (Ok p, adm0)
      | None \<Rightarrow> apfst (\<lambda>r. bind_r r (\<lambda>_. Ok progress_default)) (check 512 sz adm0)) = (q, adm1)" by fastforce
    show ?case
    proof (cases q)
      case (Inl e)
      then show ?thesis using Cons.IH [OF Cons.prems(1, 2) _ rest] Cons.prems(3) q at
        by (simp add: run_side_chunk_transfer_def)
    next
      case (Inr p)
      have "cursor_at t0 (progress_key s) m (Some p)"
        using Cons.prems(1) q Inr by (cases progress0) (auto simp: cursor_at_def apfst_def map_prod_def bind_r_def split: prod.splits sum.splits)
      from begin_at_cursor [OF this tm(1, 2)] obtain t where t: "t0 \<le> t"
        "begin_classified (progress_key s) now p =
          (Ok m, [Some \<lparr>cur_key = progress_key s, cur_next = m, cur_last_progress_ms = t\<rparr>, None, None, None])" by blast
      obtain r n h1 log adm2 where r:
        "send_resuming crc (logged send) s m (h0, map (side_chunk crc s) [0..<m]) adm1 = (r, n, (h1, log), adm2)" by (metis prod.collapse)
      note sent = send_resuming_log [OF r Cons.prems(2) io, simplified]
      have log: "log = map (side_chunk crc s) [0..<n]" using sent upt_add_eq_append [of 0 m "n - m"] by (simp flip: map_append)
      show ?thesis
      proof (cases r)
        case Inr
        then show ?thesis using Cons.prems(3) sent log q \<open>q = Inr p\<close> t(2) r at
          by (auto simp: run_side_chunk_transfer_def)
      next
        case (Inl e)
        then show ?thesis
          using Cons.IH [OF finish_at_cursor [OF t(1) tm(3), of r "progress_key s" n m] _ _ rest, of h1 adm2]
            Cons.prems(3) sent log q \<open>q = Inr p\<close> t(2) r at
          by (auto simp: run_side_chunk_transfer_def)
      qed
    qed
  qed
  from this [of 0 None h adm] assms(2) show ?thesis by (simp add: cursor_at_def)
qed

section \<open>Streaming\<close>

lemma hash_bytes_append: "hash_bytes_u64 h (xs @ ys) = hash_bytes_u64 (hash_bytes_u64 h xs) ys"
  by (simp add: hash_bytes_u64_def)

lemma part_slices_concat:
  assumes "start \<le> stop"
  shows "concat (part_slices start stop offset parts) = take (stop - start - (offset - start)) (drop (start - offset) (concat parts))"
  using assms
proof (induction parts arbitrary: offset)
  case (Cons p ps)
  define a b where "a = start - offset" and "b = stop - offset"
  have ab: "a \<le> b" "stop - start - (offset - start) = b - a"
    "stop - start - (offset + length p - start) = (b - length p) - (a - length p)" "start - (offset + length p) = a - length p"
    using Cons.prems by (auto simp: a_def b_def)
  have "take (min b (length p) - min a (length p)) (drop (min a (length p)) p) = take (b - a) (drop a p)"
    using ab(1) by (cases "a \<le> length p") (auto simp: min_def)
  moreover have "take (b - length p - (a - length p)) (drop (a - length p) (concat ps)) =
      take (b - a - (length p - a)) (drop (a - length p) (concat ps))"
    using ab(1) by (cases "a \<le> length p") simp_all
  ultimately show ?case
    unfolding part_slices.simps Let_def concat.simps Cons.IH [OF Cons.prems] ab
    by (simp add: a_def [symmetric] b_def [symmetric])
qed simp

lemma part_slices_none: "stop \<le> start \<Longrightarrow> concat (part_slices start stop offset parts) = []"
  by (induction parts arbitrary: offset) (auto simp: Let_def)

lemma part_slices_chunk:
  "concat (part_slices a (min (a + b) (length (concat parts))) 0 parts) = take b (drop a (concat parts))"
  using part_slices_concat [of a "min (a + b) (length (concat parts))" 0 parts] take_min_drop [of a b "concat parts"]
    part_slices_none [of "min (a + b) (length (concat parts))" a 0 parts]
  by (cases "a \<le> length (concat parts)") (simp_all add: min_def)

lemma stream_chunks_loop:
  assumes "\<not> has_probe adm" "16 < mx" "concat parts = stf_frame s" "len = length (stf_frame s)" "stf_payload_budget s = mx - 16"
    "i = stf_index s" "i \<le> stf_total s"
  shows "stream_chunks crc send mx parts len (stf_transfer_id s) (stf_total s) [i..<stf_total s] i h adm =
    send_loop crc send s i h adm"
  using assms(3-)
proof (induction "stf_total s - i" arbitrary: i s h)
  case 0
  then show ?case using assms(2) by (simp add: send_loop.simps [of _ _ s] admits_next_def frames_next_eq)
next
  case (Suc n)
  define s' where "s' = s\<lparr>stf_index := Suc i\<rparr>"
  have lt: "i < stf_total s" using Suc.hyps(2) by simp
  have adm: "admits_next s adm = (True, adm)" using assms(1) by (simp add: admits_next_def Let_def check_free)
  have chunk: "wrap_side_transport_frame_parts crc 3 ([le_bytes 4 (stf_transfer_id s), le_bytes 2 (of_nat i :: u16),
      le_bytes 2 (of_nat (stf_total s) :: u16)] @ part_slices (i * (mx - 16)) (min (i * (mx - 16) + (mx - 16)) len) 0 parts) =
    side_chunk crc s i"
    using assms(2) part_slices_chunk [of "i * (mx - 16)" "mx - 16" parts, unfolded Suc.prems(1)]
    unfolding side_chunk_def wrap_side_transport_frame_parts_def Suc.prems(2, 3) concat_append Let_def by simp
  have nx: "frames_next crc s = Some (side_chunk crc s i, s')" using lt Suc.prems(4) by (simp add: frames_next_eq s'_def)
  have IH: "stream_chunks crc send mx parts len (stf_transfer_id s) (stf_total s) [Suc i..<stf_total s] (Suc i) h' adm =
      send_loop crc send s' (Suc i) h' adm" for h'
    using Suc.hyps(1) [of s' "Suc i" h'] Suc.hyps(2) Suc.prems lt by (simp add: s'_def)
  show ?case
    unfolding upt_conv_Cons [OF lt] stream_chunks.simps Let_def check_free [OF assms(1)] chunk send_loop.simps [of _ _ s] adm nx
    by (simp add: IH s'_def split: prod.splits sum.splits)
qed

text \<open>C14: streaming a packet chunk by chunk, without ever building its frame, is the same as packing the frame, cutting
  it and sending the chunks: the same calls of the handler in the same order from the same starting chunk, the same
  result, the same progress, and the reported sizes are those of the frame and its chunks.\<close>

theorem streaming_equals_splitting:
  assumes "\<not> has_probe adm" and "pack_packet env pkt book = (Some raw, book')"
  shows "send_packet_chunks env send pkt max_frame_bytes sender start h adm book =
    (case split_frame raw max_frame_bytes sender of
      Inl e \<Rightarrow> (Some (Err e, start, h, adm), if max_frame_bytes \<le> SIDE_TRANSPORT_CHUNK_OVERHEAD then book else book')
    | Inr s \<Rightarrow>
        (case send_resuming (we_crc env) send s start h adm of
          (r, n, h, adm) \<Rightarrow> (Some (bind_r r (\<lambda>_. Ok (length raw, wire_len s, stf_total s)), n, h, adm), book')))"
proof (cases "max_frame_bytes \<le> 16")
  case False
  then have mx: "16 < max_frame_bytes" by simp
  obtain header pl where parts: "with_plain_packet_parts env pkt book = (Some (Inr (header, pl)), book')"
    and raw: "raw = join_frame_with_crc (we_crc env) header pl"
  proof -
    obtain x b where x: "with_plain_packet_parts env pkt book = (x, b)" by fastforce
    then have "pack_packet env pkt book = (case x of Some (Inr (header, pl)) \<Rightarrow> Some (join_frame_with_crc (we_crc env) header pl) | _ \<Rightarrow> None, b)"
      by (simp add: pack_packet_frame pack_frame_def with_plain_packet_parts_def split: option.splits sum.splits)
    then show thesis using assms(2) x that by (auto split: option.splits sum.splits prod.splits)
  qed
  define ps where "ps = [header, pl, le_bytes 4 (we_crc env (header @ pl))]"
  have cat: "concat ps = raw" and len: "length header + length pl + 4 = length raw"
    by (simp_all add: ps_def raw join_frame_with_crc_def)
  have hash: "fold (\<lambda>part hash. hash_bytes_u64 hash part) ps h0 = hash_bytes_u64 h0 raw" for h0
    by (simp add: ps_def raw join_frame_with_crc_def hash_bytes_append)
  define s where "s = \<lparr>stf_frame = raw, stf_payload_budget = max_frame_bytes - 16,
    stf_transfer_id = fold_hash_id (hash_bytes_u64 (hash_bytes_u64 0x517CC1B727220A95 sender) raw), stf_index = 0,
    stf_total = div_ceil (length raw) (max_frame_bytes - 16)\<rparr>"
  have st: "stf_frame s = raw" "stf_payload_budget s = max_frame_bytes - 16" "stf_total s = div_ceil (length raw) (max_frame_bytes - 16)"
    "stf_transfer_id s = fold_hash_id (hash_bytes_u64 (hash_bytes_u64 0x517CC1B727220A95 sender) raw)"
    by (simp_all add: s_def)
  have split: "split_frame raw max_frame_bytes sender =
      (if stf_total s > 65535 then Err (PacketTooLarge ''too many chunks'') else Ok s)"
    using mx by (simp add: split_frame_def s_def Let_def)
  have loop: "stream_chunks (we_crc env) send max_frame_bytes ps (length raw) (stf_transfer_id s) (stf_total s) [start..<stf_total s] start h adm =
      send_loop (we_crc env) send (s\<lparr>stf_index := start\<rparr>) start h adm" if "start \<le> stf_total s"
    using stream_chunks_loop [OF assms(1) mx, of ps "s\<lparr>stf_index := start\<rparr>" "length raw" start "we_crc env" send h] that mx cat
    by (simp add: st)
  have "send_packet_parts (we_crc env) send max_frame_bytes sender header pl start h adm =
      (if stf_total s > 65535 then (Err (PacketTooLarge ''too many chunks''), start, h, adm)
       else case send_resuming (we_crc env) send s start h adm of
         (r, n, h, adm) \<Rightarrow> (bind_r r (\<lambda>_. Ok (length raw, wire_len s, stf_total s)), n, h, adm))"
    unfolding send_packet_parts_def Let_def len hash ps_def [symmetric] st(3, 4) [symmetric]
    using loop mx by (auto simp: send_resuming_def wire_len_def st(1, 2) split: prod.splits sum.splits)
  then show ?thesis using False parts split by (simp add: send_packet_chunks_def split: prod.splits)
qed (simp add: send_packet_chunks_def split_frame_def)

text \<open>A handler that is busy once.\<close>

definition example_handler :: "nat handler" where
  "example_handler h f = (if h = 1 then Err (Io ''side tx busy'') else Ok (), h + 1)"

definition example_transfer :: SideTransportFrames where
  "example_transfer = \<lparr>stf_frame = [1, 2, 3, 4, 5], stf_payload_budget = 2, stf_transfer_id = 7, stf_index = 0, stf_total = 3\<rparr>"

theorem interrupted_transfer_witness:
  "case run_attempts (\<lambda>_. 0) 64 example_transfer [(example_handler, 10, 20), (example_handler, 30, 40)] None (0, []) idle_admission of
    (complete, progress, (h', accepted), adm') \<Rightarrow>
      \<exists>n \<le> stf_total example_transfer. accepted = map (side_chunk (\<lambda>_. 0) example_transfer) [0..<n] \<and>
        (complete \<longrightarrow> n = stf_total example_transfer)"
proof -
  obtain complete progress h' accepted adm' where r: "run_attempts (\<lambda>_. 0) 64 example_transfer
      [(example_handler, 10, 20), (example_handler, 30, 40)] None (0, []) idle_admission = (complete, progress, (h', accepted), adm')"
    by (metis prod.collapse)
  show ?thesis unfolding r prod.case
    by (rule interrupted_transfer [OF _ r, of 10]) (auto simp: example_handler_def io_result_def)
qed

theorem streaming_equals_splitting_witness:
  "\<exists>raw book'. pack_packet example_wire example_gps Map.empty = (Some raw, book') \<and>
    send_packet_chunks example_wire example_handler example_gps 20 [7] 0 0 idle_admission Map.empty =
    (case split_frame raw 20 [7] of
      Inl e \<Rightarrow> (Some (Err e, 0, 0, idle_admission), book')
    | Inr s \<Rightarrow>
        (case send_resuming (we_crc example_wire) example_handler s 0 0 idle_admission of
          (r, n, h, adm) \<Rightarrow> (Some (bind_r r (\<lambda>_. Ok (length raw, wire_len s, stf_total s)), n, h, adm), book')))"
proof -
  obtain raw book' where p: "pack_packet example_wire example_gps Map.empty = (Some raw, book')"
    using pack_packet_bytes [of example_wire example_gps _ _ Map.empty] example_gps_fits(13)
    by (metis linorder_not_le prod.collapse)
  from streaming_equals_splitting [OF example_gps_fits(8) p, of example_handler 20 "[7]" 0 0] p show ?thesis by auto
qed

end
