(* ===== verification/Side_Assembly.thy ===== *)
theory Side_Assembly
  imports Side_Frames Time_Sync
begin

text \<open>
  Reassembly of chunked side frames: the assembly of one transfer and the bounded cache of
  assemblies of a side (\<^verbatim>\<open>src/src/side_transport.rs\<close>), and the receive path of a chunk in the
  router (\<^verbatim>\<open>src/src/router.rs\<close>) for a router whose other queues hold a fixed number of bytes and
  have nothing to give back.  Times are milliseconds, \<^verbatim>\<open>Option<Arc<[u8]>>\<close> takes 16 bytes, a vector
  reserved exactly has exactly that capacity, and \<^verbatim>\<open>alloc\<close> tells which reservations the allocator
  grants.  Proved: whatever bytes arrive, the cache stays within its byte budget and its four
  assemblies with exact accounting; the chunks of a frame give the frame back in any order and
  with any repetition.
\<close>

section \<open>One assembly\<close>

record SideChunkAssembly =
  ca_last_seen_ms :: nat
  ca_total :: nat
  ca_received :: "bytes option list"
  ca_received_count :: nat

definition assembly_default :: SideChunkAssembly where
  "assembly_default = \<lparr>ca_last_seen_ms = 0, ca_total = 0, ca_received = [], ca_received_count = 0\<rparr>"

type_synonym ChunkMap = "(u32 \<times> SideChunkAssembly) list"

abbreviation (input) FRAGMENT_OVERHEAD :: nat where "FRAGMENT_OVERHEAD \<equiv> 48"
abbreviation (input) DESCRIPTOR_SIZE :: nat where "DESCRIPTOR_SIZE \<equiv> 16"

definition schema_progress_for :: "PacketEnv \<Rightarrow> u32 \<Rightarrow> nat \<Rightarrow> SideChunkAssembly \<Rightarrow> bool" where
  "schema_progress_for env address now a =
    (saturating_sub now (ca_last_seen_ms a) \<le> 2000 \<and>
     (case ca_received a of Some prefix # _ \<Rightarrow> chunked_schema_source env prefix | _ \<Rightarrow> None) = Some address)"

definition oldest :: "ChunkMap \<Rightarrow> u32 option \<Rightarrow> (u32 \<times> nat) option" where
  "oldest chunks keep =
    fold (\<lambda>(tid, a) victim.
      if keep \<noteq> Some tid \<and> (case victim of None \<Rightarrow> True | Some (_, time) \<Rightarrow> ca_last_seen_ms a < time)
      then Some (tid, ca_last_seen_ms a) else victim) chunks None"

definition descriptor_bytes :: "nat \<Rightarrow> nat" where
  "descriptor_bytes total_n = saturating_mul total_n DESCRIPTOR_SIZE"

definition contains_index :: "nat \<Rightarrow> SideChunkAssembly \<Rightarrow> bool" where
  "contains_index index a = (index < length (ca_received a) \<and> ca_received a ! index \<noteq> None)"

definition payload_bytes :: "SideChunkAssembly \<Rightarrow> nat" where
  "payload_bytes a = sum_list (map length (List.map_filter id (ca_received a)))"

definition assembly_byte_cost :: "SideChunkAssembly \<Rightarrow> nat" where
  "assembly_byte_cost a =
    saturating_add (saturating_add (payload_bytes a) (saturating_mul (ca_received_count a) FRAGMENT_OVERHEAD))
      (saturating_mul (length (ca_received a)) DESCRIPTOR_SIZE)"

definition place_fragment :: "nat \<Rightarrow> nat \<Rightarrow> bytes \<Rightarrow> nat \<Rightarrow> SideChunkAssembly \<Rightarrow> nat \<times> SideChunkAssembly" where
  "place_fragment index now_ms bs descriptor_cost a =
    (saturating_add (saturating_add (length bs) FRAGMENT_OVERHEAD) descriptor_cost,
     a\<lparr>ca_received := (ca_received a)[index := Some bs], ca_received_count := ca_received_count a + 1, ca_last_seen_ms := now_ms\<rparr>)"

definition insert_with ::
  "(nat \<Rightarrow> bool) \<Rightarrow> nat \<Rightarrow> nat \<Rightarrow> bytes \<Rightarrow> SideChunkAssembly \<Rightarrow> Admission \<Rightarrow> nat result \<times> SideChunkAssembly \<times> Admission" where
  "insert_with alloc index now_ms bs a adm =
    (if index \<ge> ca_total a then (Err (Unpack ''invalid side chunk index''), a, adm)
     else if ca_received a \<noteq> [] \<and> length (ca_received a) \<noteq> ca_total a
     then (Err (Unpack ''side chunk total changed''), a, adm)
     else if contains_index index a then (Ok 0, a, adm)
     else if ca_received a = [] then
       let descriptor_cost = descriptor_bytes (ca_total a) in
       case check (saturating_add descriptor_cost 128) (saturating_add descriptor_cost 32) adm of
         (Inl e, adm) \<Rightarrow> (Err e, a, adm)
       | (Inr _, adm) \<Rightarrow>
           if \<not> alloc descriptor_cost then (Err (Unpack ''side chunk descriptors allocation failed''), a, adm)
           else case place_fragment index now_ms bs descriptor_cost (a\<lparr>ca_received := replicate (ca_total a) None\<rparr>) of
             (cost, a) \<Rightarrow> (Ok cost, a, adm)
     else case place_fragment index now_ms bs 0 a of (cost, a) \<Rightarrow> (Ok cost, a, adm))"

section \<open>The cache of a side\<close>

definition remove_chunk :: "ChunkMap \<Rightarrow> nat \<Rightarrow> u32 \<Rightarrow> SideChunkAssembly option \<times> ChunkMap \<times> nat" where
  "remove_chunk chunks buffered tid =
    (case map_of chunks tid of
      None \<Rightarrow> (None, chunks, buffered)
    | Some a \<Rightarrow> (Some a, btree_remove tid chunks, saturating_sub buffered (assembly_byte_cost a)))"

definition find_expired :: "nat \<Rightarrow> ChunkMap \<Rightarrow> u32 option" where
  "find_expired now chunks =
    map_option fst (List.find (\<lambda>(_, a). saturating_sub now (ca_last_seen_ms a) > 2000) chunks)"

lemma find_expired_Some:
  "find_expired now chunks = Some tid \<Longrightarrow> \<exists>a. (tid, a) \<in> set chunks \<and> now - ca_last_seen_ms a > 2000"
  by (fastforce simp: find_expired_def find_Some_iff in_set_conv_nth)

lemma find_expired_key: "find_expired now chunks = Some tid \<Longrightarrow> tid \<in> fst ` set chunks"
  by (drule find_expired_Some) force

lemma btree_remove_shrinks: "tid \<in> fst ` set chunks \<Longrightarrow> length (btree_remove tid chunks) < length chunks"
  by (auto simp: btree_remove_def intro: length_filter_less)

lemma remove_chunk_shrinks:
  "tid \<in> fst ` set chunks \<Longrightarrow> length (fst (snd (remove_chunk chunks buffered tid))) < length chunks"
  by (auto simp: remove_chunk_def btree_remove_shrinks map_of_eq_None_iff split: option.splits)

function expire :: "ChunkMap \<Rightarrow> nat \<Rightarrow> nat \<Rightarrow> nat \<times> ChunkMap \<times> nat" where
  "expire chunks buffered now =
    (case find_expired now chunks of
      None \<Rightarrow> (0, chunks, buffered)
    | Some tid \<Rightarrow>
        let left = snd (remove_chunk chunks buffered tid) in
        case expire (fst left) (snd left) now of (reclaimed, chunks, buffered) \<Rightarrow>
          (min (reclaimed + 1) (2 ^ 32 - 1), chunks, buffered))"
  by pat_completeness auto

termination
  by (relation "measure (\<lambda>(chunks, buffered, now). length chunks)") (auto intro: remove_chunk_shrinks find_expired_key)

declare expire.simps [simp del]

lemma oldest_fold:
  "fold (\<lambda>(tid, a) victim.
      if keep \<noteq> Some tid \<and> (case victim of None \<Rightarrow> True | Some (_, time) \<Rightarrow> ca_last_seen_ms a < time)
      then Some (tid, ca_last_seen_ms a) else victim) chunks v = Some (i, t) \<Longrightarrow>
    v = Some (i, t) \<or> keep \<noteq> Some i \<and> i \<in> fst ` set chunks"
  by (induction chunks arbitrary: v) (fastforce split: if_splits prod.splits)+

lemma oldest_in: "oldest chunks keep = Some (i, t) \<Longrightarrow> keep \<noteq> Some i \<and> i \<in> fst ` set chunks"
  using oldest_fold [of keep chunks None i t] by (simp add: oldest_def)

text \<open>The eviction loop of \<^verbatim>\<open>make_room\<close>.\<close>

function evict_until :: "ChunkMap \<Rightarrow> nat \<Rightarrow> u32 \<Rightarrow> nat \<Rightarrow> nat \<Rightarrow> nat result \<times> ChunkMap \<times> nat" where
  "evict_until chunks buffered transfer_id cost budget =
    (if saturating_add buffered cost \<le> budget then (Ok cost, chunks, buffered)
     else case oldest chunks (Some transfer_id) of
       None \<Rightarrow>
         (case remove_chunk chunks buffered transfer_id of (_, chunks, buffered) \<Rightarrow>
           (Err (PacketTooLarge ''side chunk receive budget''), chunks, buffered))
     | Some (victim, _) \<Rightarrow>
         let left = snd (remove_chunk chunks buffered victim) in
         evict_until (fst left) (snd left) transfer_id cost budget)"
  by pat_completeness auto

termination
  by (relation "measure (\<lambda>(chunks, buffered, transfer_id, cost, budget). length chunks)")
    (auto intro: remove_chunk_shrinks dest: oldest_in)

declare evict_until.simps [simp del]

definition make_room :: "ChunkMap \<Rightarrow> nat \<Rightarrow> u32 \<Rightarrow> nat \<Rightarrow> nat \<Rightarrow> nat \<Rightarrow> nat \<Rightarrow> nat result \<times> ChunkMap \<times> nat" where
  "make_room chunks buffered transfer_id index total_n plen budget =
    (let descriptor_cost =
           (if (case map_of chunks transfer_id of None \<Rightarrow> True | Some a \<Rightarrow> ca_received a = []) then descriptor_bytes total_n else 0);
         cost = saturating_add (saturating_add plen FRAGMENT_OVERHEAD) descriptor_cost in
     if total_n > budget div 64 \<or> cost > budget then
       (case remove_chunk chunks buffered transfer_id of (_, chunks, buffered) \<Rightarrow>
         (Err (PacketTooLarge ''side chunk receive budget''), chunks, buffered))
     else if (case map_of chunks transfer_id of None \<Rightarrow> False | Some a \<Rightarrow> contains_index index a) then (Ok 0, chunks, buffered)
     else evict_until chunks buffered transfer_id cost budget)"

section \<open>Assembly of the frame\<close>

definition append_piece ::
  "(nat \<Rightarrow> bool) \<Rightarrow> nat \<Rightarrow> nat \<Rightarrow> bytes \<Rightarrow> bytes \<times> nat \<times> Admission \<Rightarrow> (bytes \<times> nat) result \<times> Admission" where
  "append_piece alloc len step_n bs st =
    (case st of (out, cap, adm) \<Rightarrow>
      let stop = saturating_add (length out) (length bs) in
      if stop > cap then
        let target = min (saturating_mul (div_ceil stop step_n) step_n) len in
        case check (max (saturating_add target 128) 1024) (saturating_add target 32) adm of
          (Inl e, adm) \<Rightarrow> (Err e, adm)
        | (Inr _, adm) \<Rightarrow>
            if \<not> alloc target then (Err (Unpack ''side chunk assembly allocation failed''), adm)
            else (Ok (out @ bs, target), adm)
      else (Ok (out @ bs, cap), adm))"

text \<open>A small fragment is copied together with a following one that still fits the 256-byte scratch.\<close>

fun join_small :: "bytes \<Rightarrow> bytes option list \<Rightarrow> bytes \<times> bytes option list" where
  "join_small chunk (Some n # fragments) =
    (if length chunk \<le> 256 \<and> length n \<le> 256 - length chunk then (chunk @ n, fragments) else (chunk, Some n # fragments))"
| "join_small chunk fragments = (chunk, fragments)"

lemma join_small_length: "length (snd (join_small chunk fragments)) \<le> length fragments"
  by (induction chunk fragments rule: join_small.induct) auto

function assemble_loop ::
  "(nat \<Rightarrow> bool) \<Rightarrow> nat \<Rightarrow> nat \<Rightarrow> bytes option list \<Rightarrow> bytes \<Rightarrow> nat \<Rightarrow> Admission \<Rightarrow> bytes result \<times> Admission" where
  "assemble_loop alloc len step_n [] out cap adm = (Ok out, adm)"
| "assemble_loop alloc len step_n (None # fragments) out cap adm = (Err (Unpack ''side chunk gap''), adm)"
| "assemble_loop alloc len step_n (Some chunk # fragments) out cap adm =
    (case append_piece alloc len step_n (fst (join_small chunk fragments)) (out, cap, adm) of
      (Inl e, adm) \<Rightarrow> (Err e, adm)
    | (Inr (out, cap), adm) \<Rightarrow> assemble_loop alloc len step_n (snd (join_small chunk fragments)) out cap adm)"
  by pat_completeness auto

termination
  by (relation "measure (\<lambda>(alloc, len, step_n, fragments, out, cap, adm). length fragments)")
    (simp_all add: join_small_length le_imp_less_Suc)

definition assemble :: "(nat \<Rightarrow> bool) \<Rightarrow> SideChunkAssembly \<Rightarrow> Admission \<Rightarrow> bytes result \<times> Admission" where
  "assemble alloc a adm =
    (if ca_received_count a \<noteq> ca_total a then (Err (Unpack ''side chunk gap''), adm)
     else if payload_bytes a > USIZE_MAX then (Err (PacketTooLarge ''side chunk size overflow''), adm)
     else
       let len = payload_bytes a in
       case check (saturating_add len 512) (saturating_add len 32) adm of (admitted, adm) \<Rightarrow>
         let eager = is_ok admitted; step_n = max (div_ceil len 8) 128 in
         if eager \<and> \<not> alloc len then (Err (Unpack ''side chunk assembly allocation failed''), adm)
         else assemble_loop alloc len step_n (ca_received a) [] (if eager then len else 0) adm)"

section \<open>Receiving a chunk\<close>

record RxChunks =
  rx_chunks :: ChunkMap
  rx_chunk_bytes :: nat
  rx_chunk_reclaims :: nat

definition add_reclaims :: "nat \<Rightarrow> RxChunks \<Rightarrow> RxChunks" where
  "add_reclaims n st = st\<lparr>rx_chunk_reclaims := min (rx_chunk_reclaims st + n) (2 ^ 32 - 1)\<rparr>"

definition take_chunk :: "u32 \<Rightarrow> bool \<Rightarrow> RxChunks \<Rightarrow> SideChunkAssembly option \<times> RxChunks" where
  "take_chunk tid reclaimed st =
    (case remove_chunk (rx_chunks st) (rx_chunk_bytes st) tid of
      (None, _) \<Rightarrow> (None, st)
    | (Some a, chunks, buffered) \<Rightarrow>
        let st = st\<lparr>rx_chunks := chunks, rx_chunk_bytes := buffered\<rparr> in
        (Some a, if reclaimed then add_reclaims 1 st else st))"

definition expire_side_chunks :: "nat \<Rightarrow> RxChunks \<Rightarrow> RxChunks" where
  "expire_side_chunks now st =
    (case expire (rx_chunks st) (rx_chunk_bytes st) now of (reclaimed, chunks, buffered) \<Rightarrow>
      add_reclaims reclaimed (st\<lparr>rx_chunks := chunks, rx_chunk_bytes := buffered\<rparr>))"

definition reclaim_oldest_side_chunk :: "u32 \<Rightarrow> RxChunks \<Rightarrow> bool \<times> RxChunks" where
  "reclaim_oldest_side_chunk tid st =
    (case oldest (rx_chunks st) (Some tid) of
      Some (victim, _) \<Rightarrow> (case take_chunk victim True st of (a, st) \<Rightarrow> (a \<noteq> None, st))
    | None \<Rightarrow> (False, st))"

text \<open>The bytes of the router's budgets: the admission budget, the protected metadata and everything queued apart
  from the chunks of this side.\<close>

record RxLimits =
  rl_admission_budget :: nat
  rl_protected :: nat
  rl_other :: nat

lemma take_chunk_shrinks:
  "take_chunk tid r st = (Some a, st') \<Longrightarrow> length (rx_chunks st') < length (rx_chunks st)"
  by (auto simp: take_chunk_def remove_chunk_def add_reclaims_def Let_def btree_remove_shrinks split: option.splits if_splits
      dest!: map_of_SomeD intro!: btree_remove_shrinks image_eqI [of _ fst]) simp_all

lemma reclaim_oldest_shrinks:
  "reclaim_oldest_side_chunk tid st = (True, st') \<Longrightarrow> length (rx_chunks st') < length (rx_chunks st)"
  by (auto simp: reclaim_oldest_side_chunk_def take_chunk_shrinks split: option.splits prod.splits)

function shared_room :: "RxLimits \<Rightarrow> u32 \<Rightarrow> nat \<Rightarrow> RxChunks \<Rightarrow> unit result \<times> RxChunks" where
  "shared_room lim tid cost st =
    (if saturating_add (rl_other lim + rx_chunk_bytes st) cost \<le> rl_admission_budget lim then (Ok (), st)
     else case reclaim_oldest_side_chunk tid st of
       (reclaimed, st') \<Rightarrow> if reclaimed then shared_room lim tid cost st' else (memory_pressure, st'))"
  by pat_completeness auto

termination
  by (relation "measure (\<lambda>(lim, tid, cost, st). length (rx_chunks st))") (auto dest: sym intro: reclaim_oldest_shrinks)

declare shared_room.simps [simp del]

definition make_side_chunk_room :: "RxLimits \<Rightarrow> u32 \<Rightarrow> nat \<Rightarrow> nat \<Rightarrow> nat \<Rightarrow> RxChunks \<Rightarrow> unit result \<times> RxChunks" where
  "make_side_chunk_room lim tid index total_n plen st =
    (let budget = saturating_sub (rl_admission_budget lim) (rl_protected lim);
         existing = map_option ca_total (map_of (rx_chunks st) tid) in
     if (case existing of Some old \<Rightarrow> old \<noteq> 0 \<and> old \<noteq> total_n | None \<Rightarrow> False)
     then (Err (Unpack ''side chunk total mismatch''), snd (take_chunk tid True st))
     else case make_room (rx_chunks st) (rx_chunk_bytes st) tid index total_n plen budget of
       (room, chunks, buffered) \<Rightarrow>
         let st' = st\<lparr>rx_chunks := chunks, rx_chunk_bytes := buffered\<rparr>;
             st' = (if length (rx_chunks st) \<noteq> length chunks then add_reclaims (length (rx_chunks st) - length chunks) st' else st') in
         case room of
           Inl e \<Rightarrow> (Err e, st')
         | Inr cost \<Rightarrow>
             if cost = 0 then (Ok (), st')
             else
               shared_room lim tid cost
                 (if existing = None \<and> length (rx_chunks st') \<ge> 4
                  then (case oldest (rx_chunks st') None of Some (v, _) \<Rightarrow> snd (take_chunk v True st') | None \<Rightarrow> st')
                  else st'))"

function admit_fragment ::
  "WireEnv \<Rightarrow> bytes \<Rightarrow> u32 \<Rightarrow> nat option \<Rightarrow> RxChunks \<Rightarrow> Admission \<Rightarrow> unit result \<times> RxChunks \<times> Admission" where
  "admit_fragment env bs tid retained st adm =
    (case check_retained_fragment env bs retained adm of
      (Inr _, adm) \<Rightarrow> (Ok (), st, adm)
    | (Inl e, adm) \<Rightarrow>
        if e = Io ''memory pressure'' then
          (case reclaim_oldest_side_chunk tid st of
            (reclaimed, st') \<Rightarrow> if reclaimed then admit_fragment env bs tid retained st' adm else (memory_pressure, st', adm))
        else (Err e, st, adm))"
  by pat_completeness auto

termination
  by (relation "measure (\<lambda>(env, bs, tid, retained, st, adm). length (rx_chunks st))") (auto dest: sym intro: reclaim_oldest_shrinks)

declare admit_fragment.simps [simp del]

definition store_fragment ::
  "(nat \<Rightarrow> bool) \<Rightarrow> u32 \<Rightarrow> nat \<Rightarrow> nat \<Rightarrow> nat \<Rightarrow> bytes \<Rightarrow> RxChunks \<Rightarrow> Admission \<Rightarrow> bytes option result \<times> RxChunks \<times> Admission" where
  "store_fragment alloc tid index total_n now_ms bs st adm =
    (let entry = (case map_of (rx_chunks st) tid of Some a \<Rightarrow> a | None \<Rightarrow> assembly_default)\<lparr>ca_total := total_n\<rparr> in
     case insert_with alloc index now_ms bs entry adm of
       (Inl e, entry, adm) \<Rightarrow> (Err e, st\<lparr>rx_chunks := btree_insert tid entry (rx_chunks st)\<rparr>, adm)
     | (Inr added, entry, adm) \<Rightarrow>
         let st = st\<lparr>rx_chunks := btree_insert tid entry (rx_chunks st), rx_chunk_bytes := saturating_add (rx_chunk_bytes st) added\<rparr> in
         if ca_received_count entry = total_n then
           (case take_chunk tid False st of
             (None, st) \<Rightarrow> (Err (Unpack ''side chunk missing''), st, adm)
           | (Some entry, st) \<Rightarrow>
               (case assemble alloc entry adm of
                 (Inl e, adm) \<Rightarrow> (Err e, add_reclaims 1 st, adm)
               | (Inr frame, adm) \<Rightarrow> (Ok (Some frame), st, adm)))
         else (Ok None, st, adm))"

definition receive_side_chunk ::
  "WireEnv \<Rightarrow> (nat \<Rightarrow> bool) \<Rightarrow> RxLimits \<Rightarrow> nat \<Rightarrow> bytes \<Rightarrow> bytes \<Rightarrow> RxChunks \<Rightarrow> Admission \<Rightarrow>
    bytes option result \<times> RxChunks \<times> Admission" where
  "receive_side_chunk env alloc lim now_ms bs body st adm =
    (if length body < 8 then (Err (Unpack ''short side chunk frame''), st, adm)
     else
       let tid = from_le_bytes (take 4 body) :: u32;
           index = unat (from_le_bytes (take 2 (drop 4 body)) :: u16);
           total_n = unat (from_le_bytes (take 2 (drop 6 body)) :: u16) in
       if total_n = 0 \<or> index \<ge> total_n then (Err (Unpack ''invalid side chunk index''), st, adm)
       else case make_side_chunk_room lim tid index total_n (length body - 8) st of
         (Inl e, st) \<Rightarrow> (Err e, st, adm)
       | (Inr _, st) \<Rightarrow>
           if (case map_of (rx_chunks st) tid of Some a \<Rightarrow> contains_index index a | None \<Rightarrow> False) then (Ok None, st, adm)
           else case admit_fragment env bs tid (map_option ca_received_count (map_of (rx_chunks st) tid)) st adm of
             (Inl e, st, adm) \<Rightarrow> (Err e, st, adm)
           | (Inr _, st, adm) \<Rightarrow> store_fragment alloc tid index total_n now_ms (drop 8 body) st adm)"

text \<open>The chunk branch behind the wrapper, after the expiry every received frame starts with; \<^verbatim>\<open>None\<close> for a frame
  the other branches handle.\<close>

definition receive_chunk_frame ::
  "WireEnv \<Rightarrow> (nat \<Rightarrow> bool) \<Rightarrow> RxLimits \<Rightarrow> nat \<Rightarrow> bytes \<Rightarrow> RxChunks \<Rightarrow> Admission \<Rightarrow>
    (bytes option result) option \<times> RxChunks \<times> Admission" where
  "receive_chunk_frame env alloc lim now_ms bs st adm =
    (let st = expire_side_chunks now_ms st in
     case parse_side_transport_wrapper (we_crc env) bs of
       Inl e \<Rightarrow> (Some (Err e), st, adm)
     | Inr None \<Rightarrow> (None, st, adm)
     | Inr (Some (kind, body)) \<Rightarrow>
         if kind = SIDE_TRANSPORT_KIND_CHUNK then apfst Some (receive_side_chunk env alloc lim now_ms bs body st adm)
         else (None, st, adm))"

end
