(* ===== verification/Side_Reassembly.thy ===== *)
theory Side_Reassembly
  imports Side_Assembly
begin

text \<open>
  Correctness of reassembly: the accounting and bounds of the chunk cache under arbitrary input,
  and the round trip of a frame through its chunks.
\<close>

section \<open>Entries in key order\<close>

abbreviation ascending_keys :: "('k::linorder \<times> 'v) list \<Rightarrow> bool" where
  "ascending_keys m \<equiv> sorted_wrt (<) (map fst m)"

lemma btree_split:
  "ascending_keys m \<Longrightarrow> btree_remove k m = takeWhile (\<lambda>e. fst e < k) m @ dropWhile (\<lambda>e. fst e \<le> k) m"
proof (induction m)
  case (Cons e m)
  have "btree_remove k m = m" if "k < fst e"
    unfolding btree_remove_def using Cons.prems that by (intro filter_True) force
  moreover have "dropWhile (\<lambda>e. fst e \<le> k) m = m" if "k \<le> fst e"
    using Cons.prems that by (cases m) auto
  moreover have "takeWhile (\<lambda>e. fst e < k) m = []" if "k \<le> fst e"
    using Cons.prems that by (cases m) auto
  ultimately show ?case using Cons by (auto simp: btree_remove_def not_less)
qed (simp add: btree_remove_def)

lemma ascending_distinct: "ascending_keys m \<Longrightarrow> distinct (map fst m)"
  by (simp add: strict_sorted_iff)

lemma ascending_remove [simp]: "ascending_keys m \<Longrightarrow> ascending_keys (btree_remove k m)"
  by (simp add: btree_remove_def sorted_wrt_map sorted_wrt_filter)

lemma map_of_remove [simp]: "map_of (btree_remove k m) i = (if i = k then None else map_of m i)"
  by (induction m) (auto simp: btree_remove_def)

lemma length_remove_le: "length (btree_remove k m) \<le> length m"
  by (simp add: btree_remove_def)

lemma btree_remove_none: "map_of m k = None \<Longrightarrow> btree_remove k m = m"
  by (auto simp: btree_remove_def map_of_eq_None_iff intro!: filter_True)

lemma ascending_insert [simp]:
  assumes "ascending_keys m"
  shows "ascending_keys (btree_insert k v m)"
proof -
  have "fst x < k" if "x \<in> set (takeWhile (\<lambda>e. fst e < k) m)" for x using that by (auto dest: set_takeWhileD)
  moreover have "k < fst x" if "x \<in> set (dropWhile (\<lambda>e. fst e \<le> k) m)" for x
    using assms that
  proof (induction m)
    case (Cons e m)
    then show ?case by (auto split: if_splits)
  qed simp
  ultimately show ?thesis
    using assms ascending_remove [OF assms, of k, unfolded btree_split [OF assms]]
    by (force simp: btree_insert_def sorted_wrt_append)
qed

lemma map_of_insert [simp]:
  assumes "ascending_keys m"
  shows "map_of (btree_insert k v m) i = (if i = k then Some v else map_of m i)"
proof -
  have "k \<notin> fst ` set (takeWhile (\<lambda>e. fst e < k) m)" by (auto dest: set_takeWhileD)
  then have "map_of (takeWhile (\<lambda>e. fst e < k) m) k = None" by (simp add: map_of_eq_None_iff)
  then have "map_of (btree_insert k v m) i = (if i = k then Some v else map_of (btree_remove k m) i)"
    by (auto simp: btree_insert_def btree_split [OF assms] map_add_def split: option.splits)
  then show ?thesis by simp
qed

lemma sum_insert:
  fixes f :: "'v \<Rightarrow> nat"
  assumes "ascending_keys m"
  shows "sum_list (map (\<lambda>e. f (snd e)) (btree_insert k v m)) = f v + sum_list (map (\<lambda>e. f (snd e)) (btree_remove k m))"
  by (simp add: btree_insert_def btree_split [OF assms])

lemma sum_remove:
  fixes f :: "'v \<Rightarrow> nat"
  assumes "distinct (map fst m)" "map_of m k = Some a"
  shows "sum_list (map (\<lambda>e. f (snd e)) m) = f a + sum_list (map (\<lambda>e. f (snd e)) (btree_remove k m))"
  using assms
proof (induction m)
  case (Cons e m)
  show ?case
  proof (cases "fst e = k")
    case True
    then have "map_of m k = None" using Cons.prems(1) by (auto simp: map_of_eq_None_iff)
    then have "btree_remove k (e # m) = m" using True btree_remove_none [of m k] by (simp add: btree_remove_def)
    then show ?thesis using Cons.prems(2) True by (cases e) simp
  next
    case False
    then show ?thesis using Cons by (cases e) (auto simp: btree_remove_def)
  qed
qed simp

lemma length_insert: "ascending_keys m \<Longrightarrow> length (btree_insert k v m) = Suc (length (btree_remove k m))"
  by (simp add: btree_insert_def btree_split)

section \<open>Accounting\<close>

definition raw_cost :: "SideChunkAssembly \<Rightarrow> nat" where
  "raw_cost a = payload_bytes a + ca_received_count a * FRAGMENT_OVERHEAD + length (ca_received a) * DESCRIPTOR_SIZE"

definition assembly_ok :: "SideChunkAssembly \<Rightarrow> bool" where
  "assembly_ok a \<longleftrightarrow> ca_received_count a = length (List.map_filter id (ca_received a)) \<and>
    (ca_received a = [] \<or> length (ca_received a) = ca_total a)"

definition cache_ok :: "nat \<Rightarrow> ChunkMap \<Rightarrow> nat \<Rightarrow> bool" where
  "cache_ok budget chunks buffered \<longleftrightarrow>
    ascending_keys chunks \<and> (\<forall>e \<in> set chunks. assembly_ok (snd e)) \<and>
    buffered = sum_list (map (\<lambda>e. raw_cost (snd e)) chunks) \<and> buffered \<le> budget \<and> budget < USIZE_MAX"

lemma byte_cost_exact: "raw_cost a \<le> USIZE_MAX \<Longrightarrow> assembly_byte_cost a = raw_cost a"
  by (simp add: assembly_byte_cost_def raw_cost_def saturating_add_def saturating_mul_def)

lemma cache_remove:
  assumes "cache_ok budget chunks buffered" "remove_chunk chunks buffered tid = (r, chunks', buffered')"
  shows "cache_ok budget chunks' buffered'" "buffered' \<le> buffered" "r = map_of chunks tid"
    "map_of chunks' i = (if i = tid then None else map_of chunks i)" "length chunks' \<le> length chunks"
    "chunks' = btree_remove tid chunks"
proof -
  have "cache_ok budget chunks' buffered' \<and> buffered' \<le> buffered \<and> r = map_of chunks tid \<and> chunks' = btree_remove tid chunks"
  proof (cases "map_of chunks tid")
    case None
    then show ?thesis using assms by (simp add: remove_chunk_def btree_remove_none)
  next
    case (Some a)
    have s: "buffered = raw_cost a + sum_list (map (\<lambda>e. raw_cost (snd e)) (btree_remove tid chunks))"
      using sum_remove [OF ascending_distinct Some, of raw_cost] assms(1) by (simp add: cache_ok_def)
    then have "assembly_byte_cost a = raw_cost a" using assms(1) by (intro byte_cost_exact) (simp add: cache_ok_def)
    moreover have "set (btree_remove tid chunks) \<subseteq> set chunks" by (auto simp: btree_remove_def)
    ultimately show ?thesis using assms s Some by (auto simp: remove_chunk_def cache_ok_def)
  qed
  then show "cache_ok budget chunks' buffered'" "buffered' \<le> buffered" "r = map_of chunks tid"
    "map_of chunks' i = (if i = tid then None else map_of chunks i)" "length chunks' \<le> length chunks"
    "chunks' = btree_remove tid chunks"
    by (auto simp: length_remove_le)
qed

lemma oldest_fold_some:
  "\<exists>r. fold (\<lambda>(tid, a) victim.
      if keep \<noteq> Some tid \<and> (case victim of None \<Rightarrow> True | Some (_, time) \<Rightarrow> ca_last_seen_ms a < time)
      then Some (tid, ca_last_seen_ms a) else victim) chunks (Some v) = Some r"
  by (induction chunks arbitrary: v) (auto split: prod.splits)

lemma oldest_nonempty: "chunks \<noteq> [] \<Longrightarrow> \<exists>r. oldest chunks None = Some r"
  using oldest_fold_some [of None "List.tl chunks"] by (cases chunks) (auto simp: oldest_def)

text \<open>What the reclaiming operations do: they only remove whole assemblies.\<close>

definition shrinks :: "nat \<Rightarrow> ChunkMap \<Rightarrow> nat \<Rightarrow> ChunkMap \<Rightarrow> nat \<Rightarrow> bool" where
  "shrinks budget chunks buffered chunks' buffered' \<longleftrightarrow>
    cache_ok budget chunks' buffered' \<and> length chunks' \<le> length chunks \<and> map_of chunks' \<subseteq>\<^sub>m map_of chunks \<and> buffered' \<le> buffered"

lemma shrinks_refl: "cache_ok budget chunks buffered \<Longrightarrow> shrinks budget chunks buffered chunks buffered"
  by (simp add: shrinks_def)

lemma shrinks_trans:
  "shrinks budget c1 b1 c2 b2 \<Longrightarrow> shrinks budget c2 b2 c3 b3 \<Longrightarrow> shrinks budget c1 b1 c3 b3"
  unfolding shrinks_def by (auto intro: map_le_trans)

lemma shrinks_cache: "shrinks budget c1 b1 c2 b2 \<Longrightarrow> cache_ok budget c2 b2"
  by (simp add: shrinks_def)

lemma shrinks_remove:
  assumes "cache_ok budget chunks buffered" "remove_chunk chunks buffered tid = (r, chunks', buffered')"
  shows "shrinks budget chunks buffered chunks' buffered'"
  using cache_remove [OF assms] by (auto simp: shrinks_def map_le_def)

lemma shrinks_expire:
  assumes "cache_ok budget chunks buffered" "expire chunks buffered now = (n, chunks', buffered')"
  shows "shrinks budget chunks buffered chunks' buffered'"
  using assms
proof (induction "length chunks" arbitrary: chunks buffered n rule: less_induct)
  case less
  show ?case
  proof (cases "find_expired now chunks")
    case None
    then show ?thesis using less.prems by (simp add: expire.simps [of chunks] shrinks_refl)
  next
    case (Some tid)
    obtain r c b where r: "remove_chunk chunks buffered tid = (r, c, b)" by (metis prod.collapse)
    obtain n1 where e: "expire c b now = (n1, chunks', buffered')"
      using less.prems(2) Some r by (auto simp: expire.simps [of chunks] Let_def split: prod.splits)
    have "length c < length chunks" using remove_chunk_shrinks [OF find_expired_key [OF Some], of buffered] r by simp
    from less.hyps [OF this cache_remove(1) [OF less.prems(1) r] e] show ?thesis
      using shrinks_trans shrinks_remove [OF less.prems(1) r] by blast
  qed
qed

lemma shrinks_evict:
  assumes "cache_ok budget chunks buffered" "evict_until chunks buffered tid cost limit = (r, chunks', buffered')"
  shows "shrinks budget chunks buffered chunks' buffered' \<and>
    (\<forall>c. r = Ok c \<longrightarrow> c = cost \<and> map_of chunks' tid = map_of chunks tid \<and> saturating_add buffered' cost \<le> limit)"
  using assms
proof (induction "length chunks" arbitrary: chunks buffered rule: less_induct)
  case less
  show ?case
  proof (cases "saturating_add buffered cost \<le> limit")
    case True
    then show ?thesis using less.prems by (auto simp: evict_until.simps [of chunks] shrinks_refl)
  next
    case over: False
    show ?thesis
    proof (cases "oldest chunks (Some tid)")
      case None
      obtain x c b where x: "remove_chunk chunks buffered tid = (x, c, b)" by (metis prod.collapse)
      then show ?thesis using less.prems over None shrinks_remove [OF less.prems(1) x]
        by (auto simp: evict_until.simps [of chunks])
    next
      case (Some v)
      obtain victim time where v: "v = (victim, time)" by fastforce
      obtain x c b where x: "remove_chunk chunks buffered victim = (x, c, b)" by (metis prod.collapse)
      have vic: "victim \<noteq> tid" "victim \<in> fst ` set chunks" using oldest_in [of chunks "Some tid" victim time] Some v by auto
      have len: "length c < length chunks" using remove_chunk_shrinks [OF vic(2), of buffered] x by simp
      note rm = cache_remove [OF less.prems(1) x]
      have ev: "evict_until c b tid cost limit = (r, chunks', buffered')"
        using less.prems(2) over Some v x by (simp add: evict_until.simps [of chunks] Let_def)
      from less.hyps [OF len rm(1) ev] show ?thesis
        using rm(4) [of tid] vic(1) shrinks_trans [OF shrinks_remove [OF less.prems(1) x]] by auto
    qed
  qed
qed

definition fragment_cost :: "nat \<Rightarrow> nat \<Rightarrow> SideChunkAssembly option \<Rightarrow> nat" where
  "fragment_cost plen total_n a =
    plen + FRAGMENT_OVERHEAD + (if (case a of None \<Rightarrow> True | Some a \<Rightarrow> ca_received a = []) then total_n * DESCRIPTOR_SIZE else 0)"

definition has_fragment :: "nat \<Rightarrow> SideChunkAssembly option \<Rightarrow> bool" where
  "has_fragment index a = (case a of None \<Rightarrow> False | Some a \<Rightarrow> contains_index index a)"

lemma shrinks_make_room:
  assumes "cache_ok budget chunks buffered"
    "make_room chunks buffered tid index total_n plen budget = (r, chunks', buffered')"
  shows "shrinks budget chunks buffered chunks' buffered' \<and>
    (\<forall>cost. r = Ok cost \<longrightarrow> map_of chunks' tid = map_of chunks tid \<and>
      (if has_fragment index (map_of chunks tid) then cost = 0
       else cost = fragment_cost plen total_n (map_of chunks tid) \<and> buffered' + cost \<le> budget))"
proof -
  define cost where "cost = saturating_add (saturating_add plen 48)
    (if (case map_of chunks tid of None \<Rightarrow> True | Some a \<Rightarrow> ca_received a = []) then descriptor_bytes total_n else 0)"
  note eq = assms(2) [unfolded make_room_def Let_def, folded cost_def, folded has_fragment_def]
  have b: "budget < USIZE_MAX" using assms(1) by (simp add: cache_ok_def)
  show ?thesis
  proof (cases "total_n > budget div 64 \<or> cost > budget")
    case True
    obtain x c d where x: "remove_chunk chunks buffered tid = (x, c, d)" by (metis prod.collapse)
    with True eq shrinks_remove [OF assms(1) x] show ?thesis by auto
  next
    case small: False
    then have exact: "cost = fragment_cost plen total_n (map_of chunks tid)"
      using b by (simp add: cost_def fragment_cost_def descriptor_bytes_def saturating_add_def saturating_mul_def min_def split: if_splits)
    show ?thesis
    proof (cases "has_fragment index (map_of chunks tid)")
      case True
      then show ?thesis using eq small shrinks_refl [OF assms(1)] by auto
    next
      case False
      have ev: "evict_until chunks buffered tid cost budget = (r, chunks', buffered')" using eq small False by simp
      from shrinks_evict [OF assms(1) ev] show ?thesis
        using False exact b by (auto simp: saturating_add_le_iff)
    qed
  qed
qed

section \<open>Placing a fragment\<close>

lemma map_filter_update:
  assumes "i < length xs" "xs ! i = None"
  shows "length (List.map_filter id (xs[i := Some b])) = Suc (length (List.map_filter id xs))"
    "sum_list (map length (List.map_filter id (xs[i := Some b]))) = length b + sum_list (map length (List.map_filter id xs))"
  using assms
proof (induction xs arbitrary: i)
  case (Cons x xs)
  { case 1 then show ?case using Cons.IH(1) by (cases i) (auto simp: map_filter_def split: option.splits) }
  { case 2 then show ?case using Cons.IH(2) by (cases i) (auto simp: map_filter_def split: option.splits) }
qed simp_all

lemma map_filter_replicate: "List.map_filter id (replicate n None) = []"
  by (induction n) (simp_all add: map_filter_def)

lemma insert_with_ok:
  assumes "assembly_ok a" "insert_with alloc index now bs a adm = (r, a', adm')" "length bs + 48 + ca_total a * 16 \<le> USIZE_MAX"
  shows "assembly_ok a' \<and> ca_total a' = ca_total a \<and>
    (case r of Inl e \<Rightarrow> a' = a
     | Inr added \<Rightarrow> raw_cost a' = raw_cost a + added \<and>
         added = (if contains_index index a then 0 else fragment_cost (length bs) (ca_total a) (Some a)))"
proof -
  have ok: "ca_received_count a = length (List.map_filter id (ca_received a))" "ca_received a = [] \<or> length (ca_received a) = ca_total a"
    using assms(1) by (simp_all add: assembly_ok_def)
  have desc: "descriptor_bytes (ca_total a) = ca_total a * 16"
    using assms(3) by (simp add: descriptor_bytes_def saturating_mul_def)
  have sat: "saturating_add (saturating_add (length bs) 48) d = length bs + 48 + d" if "d \<le> ca_total a * 16" for d
    using assms(3) that by (simp add: saturating_add_def)
  show ?thesis
  proof (cases "index < ca_total a \<and> \<not> contains_index index a \<and> ca_received a = []")
    case True
    then have i: "index < length (replicate (ca_total a) None)" "replicate (ca_total a) None ! index = None" by simp_all
    note upd = map_filter_update [OF i, of bs, unfolded map_filter_replicate]
    show ?thesis
      using assms(2) True ok upd
      by (auto simp: insert_with_def desc sat place_fragment_def assembly_ok_def raw_cost_def payload_bytes_def fragment_cost_def
          map_filter_def [of _ "[]"] Let_def split: prod.splits sum.splits if_splits)
  next
    case False
    show ?thesis
    proof (cases "index < ca_total a \<and> \<not> contains_index index a \<and> length (ca_received a) = ca_total a")
      case True
      then have i: "index < length (ca_received a)" "ca_received a ! index = None" by (simp_all add: contains_index_def)
      note upd = map_filter_update [OF i, of bs]
      show ?thesis
        using assms(2, 3) True False ok upd sat [of 0] saturating_add_exact [of "length bs + 48" 0]
        by (auto simp: insert_with_def place_fragment_def assembly_ok_def raw_cost_def payload_bytes_def fragment_cost_def)
    next
      case f: False
      then show ?thesis using assms(1, 2) False ok
        by (auto simp: insert_with_def split: if_splits)
    qed
  qed
qed

section \<open>The receive path\<close>

abbreviation rx_cache :: "nat \<Rightarrow> RxChunks \<Rightarrow> bool" where
  "rx_cache budget st \<equiv> cache_ok budget (rx_chunks st) (rx_chunk_bytes st)"

abbreviation rx_shrinks :: "nat \<Rightarrow> RxChunks \<Rightarrow> RxChunks \<Rightarrow> bool" where
  "rx_shrinks budget st st' \<equiv> shrinks budget (rx_chunks st) (rx_chunk_bytes st) (rx_chunks st') (rx_chunk_bytes st')"

lemma add_reclaims_fields [simp]:
  "rx_chunks (add_reclaims n st) = rx_chunks st" "rx_chunk_bytes (add_reclaims n st) = rx_chunk_bytes st"
  by (simp_all add: add_reclaims_def)

lemma take_chunk_ok:
  assumes "rx_cache budget st" "take_chunk tid reclaimed st = (r, st')"
  shows "rx_shrinks budget st st'" "r = map_of (rx_chunks st) tid" "rx_chunks st' = btree_remove tid (rx_chunks st)"
proof -
  obtain x c b where x: "remove_chunk (rx_chunks st) (rx_chunk_bytes st) tid = (x, c, b)" by (metis prod.collapse)
  note rm = cache_remove [OF assms(1) x] and sh = shrinks_remove [OF assms(1) x]
  have "rx_shrinks budget st st' \<and> r = map_of (rx_chunks st) tid \<and> rx_chunks st' = btree_remove tid (rx_chunks st)"
    using assms(2) x rm(3, 6) sh shrinks_refl [OF assms(1)]
    by (cases "map_of (rx_chunks st) tid") (auto simp: take_chunk_def Let_def btree_remove_none split: if_splits)
  then show "rx_shrinks budget st st'" "r = map_of (rx_chunks st) tid" "rx_chunks st' = btree_remove tid (rx_chunks st)" by blast+
qed

lemma reclaim_oldest_ok:
  assumes "rx_cache budget st" "reclaim_oldest_side_chunk tid st = (r, st')"
  shows "rx_shrinks budget st st'" "map_of (rx_chunks st') tid = map_of (rx_chunks st) tid"
proof -
  have "rx_shrinks budget st st' \<and> map_of (rx_chunks st') tid = map_of (rx_chunks st) tid"
  proof (cases "oldest (rx_chunks st) (Some tid)")
    case None
    then show ?thesis using assms by (simp add: reclaim_oldest_side_chunk_def shrinks_refl)
  next
    case (Some v)
    obtain victim time where v: "v = (victim, time)" by fastforce
    obtain x st1 where x: "take_chunk victim True st = (x, st1)" by fastforce
    have "victim \<noteq> tid" using oldest_in [of "rx_chunks st" "Some tid" victim time] Some v by auto
    then show ?thesis using assms(2) Some v x take_chunk_ok [OF assms(1) x] by (auto simp: reclaim_oldest_side_chunk_def)
  qed
  then show "rx_shrinks budget st st'" "map_of (rx_chunks st') tid = map_of (rx_chunks st) tid" by blast+
qed

lemma shared_room_ok:
  assumes "rx_cache budget st" "shared_room lim tid cost st = (r, st')"
  shows "rx_shrinks budget st st' \<and> map_of (rx_chunks st') tid = map_of (rx_chunks st) tid"
  using assms
proof (induction lim tid cost st rule: shared_room.induct)
  case (1 lim tid cost st)
  obtain x st1 where x: "reclaim_oldest_side_chunk tid st = (x, st1)" by fastforce
  note rc = reclaim_oldest_ok [OF 1(2) x]
  show ?case
  proof (cases "saturating_add (rl_other lim + rx_chunk_bytes st) cost \<le> rl_admission_budget lim")
    case True
    then show ?thesis using 1(2, 3) by (simp add: shared_room.simps [of _ _ _ st] shrinks_refl)
  next
    case False
    show ?thesis
    proof (cases x)
      case True
      then have "shared_room lim tid cost st1 = (r, st')" using 1(3) False x by (simp add: shared_room.simps [of _ _ _ st])
      from 1(1) [OF False x [symmetric] True shrinks_cache [OF rc(1)] this] show ?thesis
        using rc shrinks_trans by metis
    next
      case no: False
      then show ?thesis using 1(3) False x rc by (simp add: shared_room.simps [of _ _ _ st])
    qed
  qed
qed

lemma admit_fragment_ok:
  assumes "rx_cache budget st" "admit_fragment env bs tid retained st adm = (r, st', adm')"
  shows "rx_shrinks budget st st' \<and> map_of (rx_chunks st') tid = map_of (rx_chunks st) tid"
  using assms
proof (induction env bs tid retained st adm rule: admit_fragment.induct)
  case (1 env bs tid retained st adm)
  obtain x st1 where x: "reclaim_oldest_side_chunk tid st = (x, st1)" by fastforce
  obtain c adm1 where c: "check_retained_fragment env bs retained adm = (c, adm1)" by fastforce
  note rc = reclaim_oldest_ok [OF 1(2) x]
  show ?case
  proof (cases "c = Inl (Io ''memory pressure'') \<and> x")
    case True
    then have "admit_fragment env bs tid retained st1 adm1 = (r, st', adm')"
      using 1(3) c x by (simp add: admit_fragment.simps [of _ _ _ _ st])
    from 1(1) [OF c [symmetric] _ refl x [symmetric] _ shrinks_cache [OF rc(1)] this] True show ?thesis
      using rc shrinks_trans by (metis (no_types, lifting))
  next
    case False
    then show ?thesis using 1(2, 3) c x rc
      by (auto simp: admit_fragment.simps [of _ _ _ _ st] shrinks_refl split: sum.splits if_splits)
  qed
qed

lemma make_side_chunk_room_ok:
  assumes "rx_cache budget st" "budget = rl_admission_budget lim - rl_protected lim" "length (rx_chunks st) \<le> 4"
    "make_side_chunk_room lim tid index total_n plen st = (r, st')"
  shows "rx_shrinks budget st st' \<and>
    (is_ok r \<longrightarrow> map_of (rx_chunks st') tid = map_of (rx_chunks st) tid \<and>
      (\<not> has_fragment index (map_of (rx_chunks st) tid) \<longrightarrow>
        rx_chunk_bytes st' + fragment_cost plen total_n (map_of (rx_chunks st) tid) \<le> budget \<and>
        (map_of (rx_chunks st) tid = None \<longrightarrow> length (rx_chunks st') < 4)) \<and>
      (\<forall>a. map_of (rx_chunks st) tid = Some a \<longrightarrow> ca_total a = 0 \<or> ca_total a = total_n))"
proof -
  define existing where "existing = map_option ca_total (map_of (rx_chunks st) tid)"
  show ?thesis
  proof (cases "case existing of Some old \<Rightarrow> old \<noteq> 0 \<and> old \<noteq> total_n | None \<Rightarrow> False")
    case True
    then show ?thesis using assms(4) take_chunk_ok(1) [OF assms(1) prod.collapse [symmetric], of tid True]
      by (auto simp: make_side_chunk_room_def Let_def existing_def [symmetric])
  next
    case same: False
    obtain room c b where m: "make_room (rx_chunks st) (rx_chunk_bytes st) tid index total_n plen budget = (room, c, b)"
      by (metis prod.collapse)
    note mr = shrinks_make_room [OF assms(1) m]
    define st1 where "st1 = (if length (rx_chunks st) \<noteq> length c
      then add_reclaims (length (rx_chunks st) - length c) (st\<lparr>rx_chunks := c, rx_chunk_bytes := b\<rparr>)
      else st\<lparr>rx_chunks := c, rx_chunk_bytes := b\<rparr>)"
    have st1: "rx_chunks st1 = c" "rx_chunk_bytes st1 = b" by (simp_all add: st1_def)
    define st2 where "st2 = (if existing = None \<and> length (rx_chunks st1) \<ge> 4
      then (case oldest (rx_chunks st1) None of Some (v, _) \<Rightarrow> snd (take_chunk v True st1) | None \<Rightarrow> st1) else st1)"
    have eq: "(r, st') = (case room of Inl e \<Rightarrow> (Err e, st1)
        | Inr cost \<Rightarrow> if cost = 0 then (Ok (), st1) else shared_room lim tid cost st2)"
      using assms(4) [symmetric]
      by (simp only: make_side_chunk_room_def Let_def existing_def [symmetric] saturating_sub_eq assms(2) [symmetric] m prod.case
          same if_False st1_def [symmetric] st2_def [symmetric])
    have tot: "\<forall>a. map_of (rx_chunks st) tid = Some a \<longrightarrow> ca_total a = 0 \<or> ca_total a = total_n"
      using same by (auto simp: existing_def)
    show ?thesis
    proof (cases "\<exists>cost. room = Inr cost \<and> cost \<noteq> 0")
      case False
      then show ?thesis using eq mr tot by (auto simp: st1 fragment_cost_def split: sum.splits if_splits)
    next
      case True
      then obtain cost where cost: "room = Inr cost" "cost \<noteq> 0" by blast
      then have new: "\<not> has_fragment index (map_of (rx_chunks st) tid)" "cost = fragment_cost plen total_n (map_of (rx_chunks st) tid)"
        "b + cost \<le> budget" "map_of c tid = map_of (rx_chunks st) tid" using mr by (auto split: if_splits)
      have c1: "rx_cache budget st1" using shrinks_cache [OF conjunct1 [OF mr]] by (simp add: st1)
      have st2: "rx_shrinks budget st1 st2 \<and> map_of (rx_chunks st2) tid = map_of c tid \<and>
        (map_of (rx_chunks st) tid = None \<longrightarrow> length (rx_chunks st2) < 4)"
      proof (cases "existing = None \<and> length c \<ge> 4")
        case True
        then obtain v time where v: "oldest c None = Some (v, time)"
          using oldest_nonempty [of c] by (cases c) auto
        obtain y st3 where y: "take_chunk v True st1 = (y, st3)" by fastforce
        have vin: "v \<in> fst ` set c" using oldest_in [OF v] by simp
        have "map_of c tid = None" using True new(4) by (simp add: existing_def)
        moreover have "length (btree_remove v c) < length c" by (rule btree_remove_shrinks [OF vin])
        moreover have "length c \<le> 4" using mr assms(3) by (simp add: shrinks_def)
        ultimately show ?thesis
          using take_chunk_ok [OF c1 y] v y True by (simp add: st2_def st1)
      next
        case False
        then show ?thesis using shrinks_refl [OF c1] by (auto simp: st2_def st1 existing_def)
      qed
      have sh: "shared_room lim tid cost st2 = (r, st')" using eq cost by simp
      note sr = shared_room_ok [OF shrinks_cache [OF conjunct1 [OF st2]] sh]
      have "rx_shrinks budget st st'" using mr st2 sr shrinks_trans by (metis st1)
      moreover have "rx_chunk_bytes st' \<le> b" "length (rx_chunks st') \<le> length (rx_chunks st2)"
        using st2 sr by (auto simp: shrinks_def st1)
      ultimately show ?thesis using new st2 sr tot by auto
    qed
  qed
qed

lemma cache_insert:
  assumes "cache_ok budget chunks buffered" "assembly_ok a'" "budget < USIZE_MAX"
    "raw_cost a' = (case map_of chunks tid of Some a \<Rightarrow> raw_cost a | None \<Rightarrow> 0) + added" "buffered + added \<le> budget"
  shows "cache_ok budget (btree_insert tid a' chunks) (buffered + added)"
    "length (btree_insert tid a' chunks) \<le> (if map_of chunks tid = None then Suc (length chunks) else length chunks)"
proof -
  have asc: "ascending_keys chunks" using assms(1) by (simp add: cache_ok_def)
  have "sum_list (map (\<lambda>e. raw_cost (snd e)) (btree_insert tid a' chunks)) = buffered + added"
  proof (cases "map_of chunks tid")
    case None
    then show ?thesis using assms(1, 4) sum_insert [OF asc, of raw_cost] by (simp add: btree_remove_none cache_ok_def)
  next
    case (Some a)
    then show ?thesis
      using assms(1, 4) sum_insert [OF asc, of raw_cost] sum_remove [OF ascending_distinct [OF asc] Some, of raw_cost]
      by (simp add: cache_ok_def)
  qed
  moreover have "assembly_ok (snd e)" if "e \<in> set (btree_insert tid a' chunks)" for e
    using that assms(1, 2) by (auto simp: btree_insert_def cache_ok_def dest: set_takeWhileD set_dropWhileD)
  ultimately show "cache_ok budget (btree_insert tid a' chunks) (buffered + added)"
    using assms(3, 5) asc by (simp add: cache_ok_def)
  show "length (btree_insert tid a' chunks) \<le> (if map_of chunks tid = None then Suc (length chunks) else length chunks)"
    using length_insert [OF asc, of tid a'] btree_remove_shrinks [of tid chunks] map_of_eq_None_iff [of chunks tid]
    by (cases "map_of chunks tid") (simp_all add: btree_remove_none Suc_leI)
qed

definition rx_ok :: "nat \<Rightarrow> RxChunks \<Rightarrow> bool" where
  "rx_ok budget st \<longleftrightarrow> rx_cache budget st \<and> length (rx_chunks st) \<le> 4"

lemma rx_ok_shrinks: "rx_ok budget st \<Longrightarrow> rx_shrinks budget st st' \<Longrightarrow> rx_ok budget st'"
  by (auto simp: rx_ok_def shrinks_def)

lemma store_fragment_ok:
  assumes "rx_ok budget st" "store_fragment alloc tid index total_n now bs st adm = (r, st', adm')"
    "\<not> has_fragment index (map_of (rx_chunks st) tid)"
    "rx_chunk_bytes st + fragment_cost (length bs) total_n (map_of (rx_chunks st) tid) \<le> budget"
    "map_of (rx_chunks st) tid = None \<longrightarrow> length (rx_chunks st) < 4"
    "\<forall>a. map_of (rx_chunks st) tid = Some a \<longrightarrow> ca_total a = 0 \<or> ca_total a = total_n"
    "length bs + 48 + total_n * 16 \<le> USIZE_MAX"
  shows "rx_ok budget st'"
proof -
  define old where "old = (case map_of (rx_chunks st) tid of Some a \<Rightarrow> a | None \<Rightarrow> assembly_default)"
  define entry where "entry = old\<lparr>ca_total := total_n\<rparr>"
  have cache: "rx_cache budget st" and len: "length (rx_chunks st) \<le> 4" and bmax: "budget < USIZE_MAX"
    using assms(1) by (simp_all add: rx_ok_def cache_ok_def)
  have dflt: "assembly_ok assembly_default" "raw_cost assembly_default = 0" "ca_received assembly_default = []"
    by (simp_all add: assembly_ok_def assembly_default_def raw_cost_def payload_bytes_def map_filter_def)
  have old: "assembly_ok old"
    using cache dflt by (auto simp: old_def cache_ok_def dest!: map_of_SomeD split: option.splits)
  then have "old = assembly_default \<or> ca_total old = total_n \<or> ca_received old = []"
    using assms(6) by (auto simp: old_def assembly_ok_def split: option.splits)
  with old dflt have ok: "assembly_ok entry" by (auto simp: entry_def assembly_ok_def)
  have raw: "raw_cost entry = (case map_of (rx_chunks st) tid of Some a \<Rightarrow> raw_cost a | None \<Rightarrow> 0)"
    using dflt by (simp add: entry_def old_def raw_cost_def payload_bytes_def split: option.splits)
  have nofrag: "\<not> contains_index index entry"
    using assms(3) dflt by (auto simp: entry_def old_def has_fragment_def contains_index_def split: option.splits)
  have cst: "fragment_cost (length bs) (ca_total entry) (Some entry) = fragment_cost (length bs) total_n (map_of (rx_chunks st) tid)"
    using dflt by (simp add: entry_def old_def fragment_cost_def split: option.splits)
  have tot: "ca_total entry = total_n" by (simp add: entry_def)
  obtain x a adm1 where ins: "insert_with alloc index now bs entry adm = (x, a, adm1)" by (metis prod.collapse)
  note iw = insert_with_ok [OF ok ins, unfolded tot, OF assms(7)]
  note eq = assms(2) [unfolded store_fragment_def Let_def, folded old_def, folded entry_def, unfolded ins prod.case]
  show ?thesis
  proof (cases x)
    case (Inl e)
    have "rx_chunk_bytes st + 0 \<le> budget" using cache by (simp add: cache_ok_def)
    from cache_insert [OF cache conjunct1 [OF iw] bmax _ this, of tid] iw raw Inl
    have "rx_cache budget (st\<lparr>rx_chunks := btree_insert tid a (rx_chunks st)\<rparr>)"
      "length (btree_insert tid a (rx_chunks st)) \<le> (if map_of (rx_chunks st) tid = None then Suc (length (rx_chunks st)) else length (rx_chunks st))"
      by simp_all
    moreover have "st' = st\<lparr>rx_chunks := btree_insert tid a (rx_chunks st)\<rparr>" using eq Inl by simp
    ultimately show ?thesis using assms(5) len by (auto simp: rx_ok_def split: if_splits)
  next
    case (Inr added)
    define st1 where "st1 = st\<lparr>rx_chunks := btree_insert tid a (rx_chunks st), rx_chunk_bytes := saturating_add (rx_chunk_bytes st) added\<rparr>"
    have added: "rx_chunk_bytes st + added \<le> budget" "raw_cost a = raw_cost entry + added"
      using iw Inr nofrag cst assms(4) tot by auto
    from cache_insert [OF cache conjunct1 [OF iw] bmax _ added(1), of tid] added raw
    have "rx_cache budget st1"
      "length (btree_insert tid a (rx_chunks st)) \<le> (if map_of (rx_chunks st) tid = None then Suc (length (rx_chunks st)) else length (rx_chunks st))"
      using bmax by (simp_all add: st1_def)
    then have ok1: "rx_ok budget st1" using assms(5) len by (auto simp: rx_ok_def st1_def split: if_splits)
    obtain y st2 where y: "take_chunk tid False st1 = (y, st2)" by fastforce
    have c1: "rx_cache budget st1" using ok1 by (simp only: rx_ok_def)
    have ok2: "rx_ok budget st2" by (rule rx_ok_shrinks [OF ok1 take_chunk_ok(1) [OF c1 y]])
    have "st' = st1 \<or> st' = st2 \<or> st' = add_reclaims 1 st2"
    proof (cases "ca_received_count a = total_n")
      case False
      then show ?thesis using eq unfolding Inr sum.case st1_def [symmetric] by simp
    next
      case True
      obtain z adm2 where z: "assemble alloc (the y) adm1 = (z, adm2)" by fastforce
      show ?thesis
        using eq z unfolding Inr sum.case st1_def [symmetric] if_P [OF True] y prod.case by (cases y; cases z) simp_all
    qed
    moreover have "rx_ok budget (add_reclaims 1 st2)" using ok2 by (simp add: rx_ok_def)
    ultimately show ?thesis using ok1 ok2 by blast
  qed
qed

lemma receive_side_chunk_ok:
  assumes "rx_ok budget st" "budget = rl_admission_budget lim - rl_protected lim" "length body < 2 ^ 63"
    "receive_side_chunk env alloc lim now bs body st adm = (r, st', adm')"
  shows "rx_ok budget st'"
proof -
  define tid where "tid = (from_le_bytes (take 4 body) :: u32)"
  define index where "index = unat (from_le_bytes (take 2 (drop 4 body)) :: u16)"
  define total_n where "total_n = unat (from_le_bytes (take 2 (drop 6 body)) :: u16)"
  note eq = assms(4) [unfolded receive_side_chunk_def Let_def, folded tid_def, folded index_def total_n_def]
  show ?thesis
  proof (cases "length body < 8 \<or> total_n = 0 \<or> index \<ge> total_n")
    case True
    then show ?thesis using eq assms(1) by (cases "length body < 8") auto
  next
    case valid: False
    obtain x st1 where m: "make_side_chunk_room lim tid index total_n (length body - 8) st = (x, st1)" by fastforce
    have cache: "rx_cache budget st" "length (rx_chunks st) \<le> 4" using assms(1) by (simp_all add: rx_ok_def)
    note room = make_side_chunk_room_ok [OF cache(1) assms(2) cache(2) m]
    have ok1: "rx_ok budget st1" by (rule rx_ok_shrinks [OF assms(1) conjunct1 [OF room]])
    show ?thesis
    proof (cases "is_ok x \<and> \<not> has_fragment index (map_of (rx_chunks st1) tid)")
      case False
      then show ?thesis using eq valid m ok1 by (cases x) (auto simp: has_fragment_def)
    next
      case new: True
      obtain y st2 adm2 where a: "admit_fragment env bs tid (map_option ca_received_count (map_of (rx_chunks st1) tid)) st1 adm = (y, st2, adm2)"
        by (metis prod.collapse)
      have c1: "rx_cache budget st1" using ok1 by (simp only: rx_ok_def)
      note ad = admit_fragment_ok [OF c1 a]
      have ok2: "rx_ok budget st2" by (rule rx_ok_shrinks [OF ok1 conjunct1 [OF ad]])
      show ?thesis
      proof (cases y)
        case (Inl e)
        then show ?thesis using eq valid m new a ok2 by (cases x) (auto simp: has_fragment_def)
      next
        case (Inr u)
        have st: "store_fragment alloc tid index total_n now (drop 8 body) st2 adm2 = (r, st', adm')"
          using eq valid m new a Inr by (cases x) (auto simp: has_fragment_def)
        have "total_n < 2 ^ 16" using unsigned_less [of "from_le_bytes (take 2 (drop 6 body)) :: u16"] by (simp add: total_n_def)
        then have big: "length (drop 8 body) + 48 + total_n * 16 \<le> USIZE_MAX" using assms(3) by (simp add: USIZE_MAX_def)
        have le: "rx_chunk_bytes st2 \<le> rx_chunk_bytes st1" "length (rx_chunks st2) \<le> length (rx_chunks st1)"
          using ad by (simp_all add: shrinks_def)
        show ?thesis
          by (rule store_fragment_ok [OF ok2 st _ _ _ _ big]) (use new room ad le in auto)
      qed
    qed
  qed
qed

lemma receive_chunk_frame_ok:
  assumes "rx_ok budget st" "budget = rl_admission_budget lim - rl_protected lim" "length bs < 2 ^ 63"
    "receive_chunk_frame env alloc lim now bs st adm = (r, st', adm')"
  shows "rx_ok budget st'"
proof -
  define st1 where "st1 = expire_side_chunks now st"
  obtain n c b where e: "expire (rx_chunks st) (rx_chunk_bytes st) now = (n, c, b)" by (metis prod.collapse)
  have cache: "rx_cache budget st" using assms(1) by (simp add: rx_ok_def)
  have ok1: "rx_ok budget st1"
    by (rule rx_ok_shrinks [OF assms(1)]) (use shrinks_expire [OF cache e] e in \<open>simp add: st1_def expire_side_chunks_def\<close>)
  show ?thesis
  proof (cases "parse_side_transport_wrapper (we_crc env) bs")
    case (Inl e)
    then show ?thesis using assms(4) ok1 by (simp add: receive_chunk_frame_def st1_def)
  next
    case (Inr w)
    show ?thesis
    proof (cases "\<exists>body. w = Some (3, body)")
      case False
      then show ?thesis using assms(4) ok1 Inr
        by (auto simp: receive_chunk_frame_def st1_def Let_def split: option.splits prod.splits if_splits)
    next
      case True
      then obtain body where body: "w = Some (3, body)" by blast
      then have "length body \<le> length bs"
        using Inr by (auto simp: parse_side_transport_wrapper_def Let_def split: if_splits)
      moreover obtain r1 where "receive_side_chunk env alloc lim now bs body st1 adm = (r1, st', adm')"
        using assms(4) Inr body by (auto simp: receive_chunk_frame_def st1_def Let_def apfst_def map_prod_def split: prod.splits)
      ultimately show ?thesis using receive_side_chunk_ok [OF ok1 assms(2)] le_less_trans [OF _ assms(3)] by blast
    qed
  qed
qed

text \<open>Frames received one after the other, each with the clock and the answers of the allocator.\<close>

fun receive_frames ::
  "WireEnv \<Rightarrow> RxLimits \<Rightarrow> (nat \<times> (nat \<Rightarrow> bool) \<times> bytes) list \<Rightarrow> RxChunks \<Rightarrow> Admission \<Rightarrow>
    (bytes option result) option list \<times> RxChunks \<times> Admission" where
  "receive_frames env lim [] st adm = ([], st, adm)"
| "receive_frames env lim ((now, alloc, bs) # frames) st adm =
    (case receive_chunk_frame env alloc lim now bs st adm of (r, st, adm) \<Rightarrow>
      apfst ((#) r) (receive_frames env lim frames st adm))"

definition rx_empty :: RxChunks where
  "rx_empty = \<lparr>rx_chunks = [], rx_chunk_bytes = 0, rx_chunk_reclaims = 0\<rparr>"

lemma rx_ok_empty: "budget < USIZE_MAX \<Longrightarrow> rx_ok budget rx_empty"
  by (simp add: rx_ok_def rx_empty_def cache_ok_def)

text \<open>C13: no sequence of received bytes can overrun the chunk cache.  Whatever arrives, in whatever order and at
  whatever times, with any answers of the allocator and the memory probe, the byte counter is exactly the cost of
  the retained assemblies, stays within the receive budget, at most four transfers are held, each under its own
  identifier, and each holds exactly the number of fragments it counts.\<close>

theorem chunk_cache_bounded:
  assumes "budget = rl_admission_budget lim - rl_protected lim" and "budget < USIZE_MAX"
    and "\<forall>(now, alloc, bs) \<in> set frames. length bs < 2 ^ 63"
    and "receive_frames env lim frames rx_empty adm = (results, st, adm')"
  shows "rx_chunk_bytes st = sum_list (map (\<lambda>(_, a). assembly_byte_cost a) (rx_chunks st)) \<and>
    rx_chunk_bytes st \<le> budget \<and> length (rx_chunks st) \<le> 4 \<and> distinct (map fst (rx_chunks st)) \<and>
    list_all (\<lambda>(_, a). ca_received_count a = length (filter (\<lambda>f. f \<noteq> None) (ca_received a)) \<and>
      (ca_received a = [] \<or> length (ca_received a) = ca_total a)) (rx_chunks st)"
proof -
  have "rx_ok budget st" if "rx_ok budget st0" "receive_frames env lim frames st0 adm0 = (rs, st, a)" for st0 adm0 rs a
    using that assms(3)
  proof (induction frames arbitrary: st0 adm0 rs)
    case (Cons f frames)
    obtain now alloc bs where f: "f = (now, alloc, bs)" by (cases f)
    obtain r st1 adm1 where r: "receive_chunk_frame env alloc lim now bs st0 adm0 = (r, st1, adm1)" by (metis prod.collapse)
    have ok: "rx_ok budget st1"
      using receive_chunk_frame_ok [OF Cons.prems(1) assms(1) _ r] Cons.prems(3) f by simp
    obtain rs1 where "receive_frames env lim frames st1 adm1 = (rs1, st, a)"
      using Cons.prems(2) f r by (auto simp: apfst_def map_prod_def split: prod.splits)
    from Cons.IH [OF ok this] Cons.prems(3) show ?case by simp
  qed simp
  from this [OF rx_ok_empty [OF assms(2)] assms(4)] have ok: "rx_ok budget st" .
  have cost: "assembly_byte_cost (snd e) = raw_cost (snd e)" if "e \<in> set (rx_chunks st)" for e
  proof (rule byte_cost_exact)
    have "raw_cost (snd e) \<le> sum_list (map (\<lambda>e. raw_cost (snd e)) (rx_chunks st))"
      using that by (intro member_le_sum_list) auto
    then show "raw_cost (snd e) \<le> USIZE_MAX" using ok by (simp add: rx_ok_def cache_ok_def)
  qed
  have filt: "length (List.map_filter id xs) = length (filter (\<lambda>f. f \<noteq> None) xs)" for xs :: "bytes option list"
    by (induction xs) (auto simp: map_filter_def)
  have "map (\<lambda>(_, a). assembly_byte_cost a) (rx_chunks st) = map (\<lambda>e. raw_cost (snd e)) (rx_chunks st)"
    using cost by (auto simp: case_prod_beta)
  then have "sum_list (map (\<lambda>(_, a). assembly_byte_cost a) (rx_chunks st)) = rx_chunk_bytes st"
    using ok by (simp only: rx_ok_def cache_ok_def)
  then show ?thesis
    using ok ascending_distinct [of "rx_chunks st"]
    by (auto simp: rx_ok_def cache_ok_def assembly_ok_def filt list_all_iff)
qed

section \<open>Assembling\<close>

lemma join_small_joins:
  assumes "None \<notin> set fragments"
  shows "fst (join_small c fragments) @ concat (map the (snd (join_small c fragments))) = c @ concat (map the fragments)"
    "None \<notin> set (snd (join_small c fragments))"
  using assms by (induction c fragments rule: join_small.induct) auto

lemma assemble_loop_free:
  assumes "\<not> has_probe adm" "None \<notin> set fragments" "alloc = (\<lambda>_. True)"
  shows "assemble_loop alloc len step_n fragments out cap adm = (Ok (out @ concat (map the fragments)), adm)"
  using assms
proof (induction alloc len step_n fragments out cap adm rule: assemble_loop.induct)
  case (3 alloc len step_n chunk fragments out cap adm)
  define c rest where "c = fst (join_small chunk fragments)" and "rest = snd (join_small chunk fragments)"
  have j: "c @ concat (map the rest) = chunk @ concat (map the fragments)" "None \<notin> set rest"
    using join_small_joins [of fragments chunk] "3.prems"(2) by (simp_all add: c_def rest_def)
  obtain cap' where a: "append_piece alloc len step_n c (out, cap, adm) = (Ok (out @ c, cap'), adm)"
    using "3.prems"(1, 3) by (cases "saturating_add (length out) (length c) > cap") (auto simp: append_piece_def Let_def check_free)
  have "assemble_loop alloc len step_n rest (out @ c) cap' adm = (Ok ((out @ c) @ concat (map the rest)), adm)"
    using "3.IH" a "3.prems" j(2) by (simp add: c_def rest_def)
  then show ?case using a j(1) by (simp add: c_def [symmetric] rest_def [symmetric])
qed simp_all

lemma assemble_free:
  assumes "\<not> has_probe adm" "alloc = (\<lambda>_. True)" "ca_received_count a = ca_total a" "None \<notin> set (ca_received a)" "payload_bytes a \<le> USIZE_MAX"
  shows "assemble alloc a adm = (Ok (concat (map the (ca_received a))), adm)"
  using assms by (simp add: assemble_def check_free Let_def assemble_loop_free)

section \<open>The chunks of a frame\<close>

lemma take_concat_pieces:
  "concat (map (\<lambda>i. take b (drop (i * b) xs)) [0..<n]) = take (n * b) xs"
proof (induction n)
  case (Suc n)
  have "take (Suc n * b) xs = take (n * b) xs @ take b (drop (n * b) xs)" by (metis mult_Suc add.commute take_add)
  then show ?case using Suc by simp
qed simp

lemma div_ceil_covers: "0 < b \<Longrightarrow> a \<le> div_ceil a b * b"
proof -
  assume "0 < b"
  have "a = a div b * b + a mod b" by simp
  moreover have "a mod b < b" using \<open>0 < b\<close> by simp
  ultimately have "a \<le> a div b * b + b" by linarith
  then show ?thesis by (auto simp: div_ceil_def)
qed

definition piece :: "SideTransportFrames \<Rightarrow> nat \<Rightarrow> bytes" where
  "piece s i = take (stf_payload_budget s) (drop (i * stf_payload_budget s) (stf_frame s))"

definition chunk_body :: "SideTransportFrames \<Rightarrow> nat \<Rightarrow> bytes" where
  "chunk_body s i = le_bytes 4 (stf_transfer_id s) @ le_bytes 2 (of_nat i :: u16) @ le_bytes 2 (of_nat (stf_total s) :: u16) @ piece s i"

lemma parse_wrapped: "parse_side_transport_wrapper crc (wrap_side_transport_frame_parts crc kind parts) = Ok (Some (kind, concat parts))"
proof -
  define d where "d = [0x53, 0x44, 0x54, kind] @ concat parts"
  have w: "wrap_side_transport_frame_parts crc kind parts = d @ le_bytes 4 (crc d)"
    by (simp add: wrap_side_transport_frame_parts_def d_def Let_def)
  have "take 3 (d @ le_bytes 4 (crc d)) = [0x53, 0x44, 0x54]" "length d = 4 + length (concat parts)"
    "d ! 3 = kind" "drop 4 d = concat parts" by (simp_all add: d_def numeral_3_eq_3)
  then show ?thesis
    unfolding w parse_side_transport_wrapper_def by (simp add: Let_def from_le_bytes_le_bytes)
qed

lemma parse_side_chunk:
  "stf_payload_budget s \<noteq> 0 \<Longrightarrow> parse_side_transport_wrapper crc (side_chunk crc s i) = Ok (Some (3, chunk_body s i))"
  by (simp add: side_chunk_def parse_wrapped chunk_body_def piece_def)

text \<open>The assembly of a transfer of which the fragments \<^verbatim>\<open>S\<close> have arrived.\<close>

definition partial_assembly :: "SideTransportFrames \<Rightarrow> nat set \<Rightarrow> nat \<Rightarrow> SideChunkAssembly" where
  "partial_assembly s S seen =
    \<lparr>ca_last_seen_ms = seen, ca_total = stf_total s,
     ca_received = map (\<lambda>i. if i \<in> S then Some (piece s i) else None) [0..<stf_total s], ca_received_count = card S\<rparr>"

definition partial_state :: "SideTransportFrames \<Rightarrow> nat set \<Rightarrow> nat \<Rightarrow> RxChunks" where
  "partial_state s S seen =
    (if S = {} then rx_empty
     else \<lparr>rx_chunks = [(stf_transfer_id s, partial_assembly s S seen)], rx_chunk_bytes = raw_cost (partial_assembly s S seen),
       rx_chunk_reclaims = 0\<rparr>)"

lemma card_filter_upt: "S \<subseteq> {..<n} \<Longrightarrow> length (filter (\<lambda>i. i \<in> S) [0..<n]) = card S"
proof -
  assume "S \<subseteq> {..<n}"
  then have "set (filter (\<lambda>i. i \<in> S) [0..<n]) = S" by auto
  then show ?thesis using distinct_card [of "filter (\<lambda>i. i \<in> S) [0..<n]"] by simp
qed

lemma map_filter_if: "List.map_filter id (map (\<lambda>i. if P i then Some (f i) else None) xs) = map f (filter P xs)"
  by (induction xs) (auto simp: map_filter_def)

lemma partial_assembly_ok:
  assumes "S \<subseteq> {..<stf_total s}"
  shows "assembly_ok (partial_assembly s S seen)"
  using assms by (simp add: assembly_ok_def partial_assembly_def map_filter_if card_filter_upt)

lemma sum_filter_le: "sum_list (map f (filter P xs)) \<le> (sum_list (map f xs) :: nat)"
  by (induction xs) auto

lemma partial_cost:
  assumes "S \<subseteq> {..<stf_total s}"
  shows "raw_cost (partial_assembly s S seen) \<le> length (stf_frame s) + stf_total s * 64"
    "payload_bytes (partial_assembly s S seen) \<le> length (stf_frame s)"
proof -
  have "concat (map (piece s) [0..<stf_total s]) = take (stf_total s * stf_payload_budget s) (stf_frame s)"
    unfolding piece_def by (rule take_concat_pieces)
  then have "sum_list (map length (map (piece s) [0..<stf_total s])) \<le> length (stf_frame s)"
    by (metis length_concat length_take min.cobounded1)
  moreover have "sum_list (map (length \<circ> piece s) (filter (\<lambda>i. i \<in> S) [0..<stf_total s])) \<le> sum_list (map (length \<circ> piece s) [0..<stf_total s])"
    by (rule sum_filter_le)
  ultimately show p: "payload_bytes (partial_assembly s S seen) \<le> length (stf_frame s)"
    by (simp add: payload_bytes_def partial_assembly_def map_filter_if)
  have "card S \<le> stf_total s" using card_mono [OF _ assms] by simp
  then show "raw_cost (partial_assembly s S seen) \<le> length (stf_frame s) + stf_total s * 64"
    using p by (simp add: raw_cost_def partial_assembly_def)
qed

lemma partial_contains: "i < stf_total s \<Longrightarrow> contains_index i (partial_assembly s S seen) \<longleftrightarrow> i \<in> S"
  by (simp add: contains_index_def partial_assembly_def)

lemma partial_insert:
  assumes "i < stf_total s" "i \<notin> S" "finite S"
  shows "(partial_assembly s S seen)\<lparr>ca_received := (ca_received (partial_assembly s S seen))[i := Some (piece s i)],
      ca_received_count := Suc (ca_received_count (partial_assembly s S seen)), ca_last_seen_ms := now\<rparr> =
    partial_assembly s (insert i S) now"
proof -
  have "(map (\<lambda>i. if i \<in> S then Some (piece s i) else None) [0..<stf_total s])[i := Some (piece s i)] =
      map (\<lambda>j. if j \<in> insert i S then Some (piece s j) else None) [0..<stf_total s]"
    using assms(1) by (intro nth_equalityI) (auto simp: nth_list_update)
  then show ?thesis using assms(2, 3) by (simp add: partial_assembly_def)
qed

lemma partial_complete:
  assumes "stf_frame s = take (stf_total s * stf_payload_budget s) (stf_frame s)"
  shows "concat (map the (ca_received (partial_assembly s {..<stf_total s} seen))) = stf_frame s"
    "None \<notin> set (ca_received (partial_assembly s {..<stf_total s} seen))"
proof -
  have "map the (ca_received (partial_assembly s {..<stf_total s} seen)) = map (piece s) [0..<stf_total s]"
    by (simp add: partial_assembly_def)
  then show "concat (map the (ca_received (partial_assembly s {..<stf_total s} seen))) = stf_frame s"
    using take_concat_pieces [of "stf_payload_budget s" "stf_frame s" "stf_total s"] assms by (simp add: piece_def [abs_def])
qed (auto simp: partial_assembly_def)

section \<open>The round trip\<close>

definition transfer_fits :: "RxLimits \<Rightarrow> SideTransportFrames \<Rightarrow> bool" where
  "transfer_fits lim s \<longleftrightarrow>
    length (stf_frame s) + stf_total s * 64 \<le> rl_admission_budget lim - rl_protected lim \<and>
    rl_other lim + length (stf_frame s) + stf_total s * 64 \<le> rl_admission_budget lim \<and> rl_admission_budget lim < USIZE_MAX"

lemma partial_cost_insert:
  assumes "i < stf_total s" "i \<notin> S" "finite S"
  shows "raw_cost (partial_assembly s (insert i S) now) = raw_cost (partial_assembly s S seen) + (length (piece s i) + 48)"
proof -
  have i: "i < length (ca_received (partial_assembly s S seen))" "ca_received (partial_assembly s S seen) ! i = None"
    using assms by (simp_all add: partial_assembly_def)
  note upd = map_filter_update [OF i, of "piece s i"]
  let ?a = "partial_assembly s S seen"
  have "raw_cost (?a\<lparr>ca_received := (ca_received ?a)[i := Some (piece s i)], ca_received_count := Suc (ca_received_count ?a),
      ca_last_seen_ms := now\<rparr>) = raw_cost ?a + (length (piece s i) + 48)"
    unfolding raw_cost_def payload_bytes_def by (simp add: upd)
  then show ?thesis by (simp only: partial_insert [OF assms])
qed

lemma partial_cost_empty: "raw_cost (partial_assembly s {} seen) = stf_total s * 16"
  using map_filter_if [of "\<lambda>_. False" "piece s" "[0..<stf_total s]"]
  by (simp add: raw_cost_def payload_bytes_def partial_assembly_def)

lemma partial_state_bytes:
  "rx_chunk_bytes (partial_state s S seen) = (if S = {} then 0 else raw_cost (partial_assembly s S seen))"
  by (simp add: partial_state_def rx_empty_def)

lemma partial_lookup:
  "map_of (rx_chunks (partial_state s S seen)) (stf_transfer_id s) = (if S = {} then None else Some (partial_assembly s S seen))"
  by (simp add: partial_state_def rx_empty_def)

lemma evict_none: "saturating_add buffered cost \<le> budget \<Longrightarrow> evict_until chunks buffered tid cost budget = (Ok cost, chunks, buffered)"
  by (simp add: evict_until.simps)

lemma partial_room:
  assumes "transfer_fits lim s" "S \<subseteq> {..<stf_total s}" "i < stf_total s"
  shows "make_side_chunk_room lim (stf_transfer_id s) i (stf_total s) (length (piece s i)) (partial_state s S seen) =
    (Ok (), partial_state s S seen)"
proof -
  define budget where "budget = rl_admission_budget lim - rl_protected lim"
  define cost where "cost = length (piece s i) + 48 + (if S = {} then stf_total s * 16 else 0)"
  define st where "st = partial_state s S seen"
  have b: "length (stf_frame s) + stf_total s * 64 \<le> budget" "budget < USIZE_MAX"
    "rl_other lim + length (stf_frame s) + stf_total s * 64 \<le> rl_admission_budget lim" "rl_admission_budget lim < USIZE_MAX"
    using assms(1) by (auto simp: transfer_fits_def budget_def)
  have fin: "finite S" using assms(2) finite_subset by blast
  have look: "map_of (rx_chunks st) (stf_transfer_id s) = (if S = {} then None else Some (partial_assembly s S seen))"
    by (simp add: st_def partial_lookup)
  have tot: "ca_total (partial_assembly s S seen) = stf_total s" by (simp add: partial_assembly_def)
  have piece_le: "length (piece s i) \<le> length (stf_frame s)" by (simp add: piece_def)
  have ne: "ca_received (partial_assembly s S seen) \<noteq> []" using assms(3) by (simp add: partial_assembly_def)
  have exact: "saturating_add (saturating_add (length (piece s i)) 48) (if S = {} then descriptor_bytes (stf_total s) else 0) = cost"
    using b(1, 2) piece_le assms(3) by (simp add: cost_def descriptor_bytes_def saturating_add_def saturating_mul_def)
  have small: "\<not> (stf_total s > budget div 64 \<or> cost > budget)" using b(1) piece_le assms(3) by (auto simp: cost_def)
  have d: "(case (if S = {} then None else Some (partial_assembly s S seen)) of None \<Rightarrow> True | Some a \<Rightarrow> ca_received a = []) = (S = {})"
    "(case (if S = {} then None else Some (partial_assembly s S seen)) of None \<Rightarrow> False | Some a \<Rightarrow> contains_index i a) = (i \<in> S)"
    using ne assms(3) by (auto simp: partial_contains)
  have mr: "make_room (rx_chunks st) (rx_chunk_bytes st) (stf_transfer_id s) i (stf_total s) (length (piece s i)) budget =
      (if i \<in> S then (Ok 0, rx_chunks st, rx_chunk_bytes st)
       else evict_until (rx_chunks st) (rx_chunk_bytes st) (stf_transfer_id s) cost budget)"
    unfolding make_room_def Let_def look d exact if_not_P [OF small] ..
  show ?thesis
  proof (cases "i \<in> S")
    case True
    then have S: "S \<noteq> {}" "contains_index i (partial_assembly s S seen)" using assms(3) by (auto simp: partial_contains)
    have "make_room (rx_chunks st) (rx_chunk_bytes st) (stf_transfer_id s) i (stf_total s) (length (piece s i)) budget =
        (Ok 0, rx_chunks st, rx_chunk_bytes st)"
      using mr True by simp
    then show ?thesis
      unfolding st_def [symmetric] make_side_chunk_room_def Let_def saturating_sub_eq budget_def [symmetric] look
      using S by (simp add: tot)
  next
    case False
    have cst: "rx_chunk_bytes st + cost = raw_cost (partial_assembly s (insert i S) 0)"
      using partial_cost_insert [OF assms(3) False fin, of 0 seen] partial_cost_empty [of s seen]
      by (simp add: st_def partial_state_bytes cost_def)
    also have "\<dots> \<le> length (stf_frame s) + stf_total s * 64" using assms(2, 3) by (intro partial_cost(1)) simp
    finally have le: "rx_chunk_bytes st + cost \<le> length (stf_frame s) + stf_total s * 64" .
    then have ev: "evict_until (rx_chunks st) (rx_chunk_bytes st) (stf_transfer_id s) cost budget = (Ok cost, rx_chunks st, rx_chunk_bytes st)"
      using b by (intro evict_none) (simp add: saturating_add_le_iff)
    have room: "make_room (rx_chunks st) (rx_chunk_bytes st) (stf_transfer_id s) i (stf_total s) (length (piece s i)) budget =
        (Ok cost, rx_chunks st, rx_chunk_bytes st)"
      using mr False ev by simp
    have "shared_room lim (stf_transfer_id s) cost st = (Ok (), st)"
      using le b by (simp add: shared_room.simps [of _ _ _ st] saturating_add_le_iff)
    moreover have "length (rx_chunks st) < 4" "cost \<noteq> 0" by (simp_all add: st_def partial_state_def rx_empty_def cost_def)
    ultimately show ?thesis
      unfolding st_def [symmetric] make_side_chunk_room_def Let_def saturating_sub_eq budget_def [symmetric] look
      using room by (simp add: tot)
  qed
qed

lemma fragment_admitted: "\<not> has_probe adm \<Longrightarrow> admit_fragment env bs tid retained st adm = (Ok (), st, adm)"
  by (simp add: admit_fragment.simps check_retained_fragment_def check_receive_def check_receive_with_role_def check_free)

lemma complete_iff: "insert i S \<subseteq> {..<n} \<Longrightarrow> card (insert i S) = n \<longleftrightarrow> insert i S = {..<n}"
  using card_subset_eq [of "{..<n}" "insert i S"] by auto

lemma partial_store:
  assumes "transfer_fits lim s" "S \<subseteq> {..<stf_total s}" "i < stf_total s" "i \<notin> S" "\<not> has_probe adm"
    and "stf_frame s = take (stf_total s * stf_payload_budget s) (stf_frame s)"
  shows "store_fragment (\<lambda>_. True) (stf_transfer_id s) i (stf_total s) now (piece s i) (partial_state s S seen) adm =
    (if insert i S = {..<stf_total s} then (Ok (Some (stf_frame s)), rx_empty, adm)
     else (Ok None, partial_state s (insert i S) now, adm))"
proof -
  define st where "st = partial_state s S seen"
  define entry where "entry = (case map_of (rx_chunks st) (stf_transfer_id s) of Some a \<Rightarrow> a | None \<Rightarrow> assembly_default)\<lparr>ca_total := stf_total s\<rparr>"
  define new where "new = partial_assembly s (insert i S) now"
  define cost where "cost = length (piece s i) + 48 + (if S = {} then stf_total s * 16 else 0)"
  have fin: "finite S" using assms(2) finite_subset by blast
  have sub: "insert i S \<subseteq> {..<stf_total s}" using assms(2, 3) by simp
  have b: "length (stf_frame s) + stf_total s * 64 < USIZE_MAX" using assms(1) by (auto simp: transfer_fits_def)
  have new_le: "raw_cost new \<le> length (stf_frame s) + stf_total s * 64" unfolding new_def by (rule partial_cost(1) [OF sub])
  have cst: "rx_chunk_bytes st + cost = raw_cost new"
    using partial_cost_insert [OF assms(3, 4) fin, of now seen] partial_cost_empty [of s seen]
    by (simp add: st_def partial_state_bytes cost_def new_def)
  have none_upd: "(replicate (stf_total s) None)[i := Some (piece s i)] = ca_received (partial_assembly s {i} now)"
    using assms(3) by (intro nth_equalityI) (auto simp: partial_assembly_def nth_list_update)
  have ins: "insert_with (\<lambda>_. True) i now (piece s i) entry adm = (Ok cost, new, adm)"
  proof (cases "S = {}")
    case True
    have e: "entry = assembly_default\<lparr>ca_total := stf_total s\<rparr>" using True by (simp add: entry_def st_def partial_lookup)
    have "saturating_add (saturating_add (length (piece s i)) 48) (descriptor_bytes (stf_total s)) = cost"
      using True cst new_le b by (simp add: cost_def descriptor_bytes_def saturating_add_def saturating_mul_def st_def partial_state_bytes)
    then show ?thesis
      using assms(3, 5) True none_upd
      by (simp add: e insert_with_def assembly_default_def contains_index_def place_fragment_def check_free new_def Let_def)
        (simp add: partial_assembly_def)
  next
    case False
    have e: "entry = partial_assembly s S seen" using False by (simp add: entry_def st_def partial_lookup) (simp add: partial_assembly_def)
    have "saturating_add (length (piece s i)) 48 = cost" "saturating_add cost 0 = cost"
      using False cst new_le b by (simp_all add: cost_def saturating_add_def)
    moreover have "length (ca_received entry) = stf_total s" "ca_total entry = stf_total s" "ca_received entry \<noteq> []"
      using assms(3) by (simp_all add: e partial_assembly_def)
    moreover have "\<not> contains_index i entry" using assms(3, 4) by (simp add: e partial_contains)
    ultimately show ?thesis
      using assms(3) partial_insert [OF assms(3, 4) fin, where seen = seen and now = now, folded e new_def] by (simp add: insert_with_def place_fragment_def)
  qed
  have chunks: "btree_insert (stf_transfer_id s) new (rx_chunks st) = [(stf_transfer_id s, new)]"
    by (simp add: st_def partial_state_def rx_empty_def btree_insert_def)
  have sat: "saturating_add (rx_chunk_bytes st) cost = raw_cost new" using cst new_le b by simp
  have cnt: "ca_received_count new = stf_total s \<longleftrightarrow> insert i S = {..<stf_total s}"
    unfolding complete_iff [OF sub, symmetric] by (simp add: new_def partial_assembly_def)
  have recl: "rx_chunk_reclaims st = 0" by (simp add: st_def partial_state_def rx_empty_def)
  define st1 where "st1 = st\<lparr>rx_chunks := [(stf_transfer_id s, new)], rx_chunk_bytes := raw_cost new\<rparr>"
  have st1: "st1 = partial_state s (insert i S) now" using recl by (simp add: st1_def partial_state_def new_def)
  have tk: "take_chunk (stf_transfer_id s) False st1 = (Some new, rx_empty)"
    using new_le b recl byte_cost_exact [of new]
    by (simp add: st1_def take_chunk_def remove_chunk_def btree_remove_def rx_empty_def Let_def)
  have asm: "assemble (\<lambda>_. True) new adm = (Ok (stf_frame s), adm)" if "insert i S = {..<stf_total s}"
    using assemble_free [OF assms(5) refl, of new] partial_complete [OF assms(6), of now] partial_cost(2) [OF sub, of now] b cnt that
    by (simp add: new_def partial_assembly_def)
  show ?thesis
    unfolding store_fragment_def st_def [symmetric] Let_def entry_def [symmetric] ins prod.case sum.case chunks sat st1_def [symmetric]
    using tk asm cnt by (simp add: st1 [symmetric])
qed

lemma partial_expire: "now - seen \<le> 2000 \<Longrightarrow> expire_side_chunks now (partial_state s S seen) = partial_state s S seen"
  by (auto simp: expire_side_chunks_def partial_state_def rx_empty_def add_reclaims_def expire.simps find_expired_def
      partial_assembly_def)

lemma chunk_body_fields:
  assumes "i < stf_total s" "stf_total s \<le> 65535"
  shows "length (chunk_body s i) = 8 + length (piece s i)" "drop 8 (chunk_body s i) = piece s i"
    "from_le_bytes (take 4 (chunk_body s i)) = stf_transfer_id s"
    "unat (from_le_bytes (take 2 (drop 4 (chunk_body s i))) :: u16) = i"
    "unat (from_le_bytes (take 2 (drop 6 (chunk_body s i))) :: u16) = stf_total s"
  using assms by (simp_all add: chunk_body_def from_le_bytes_le_bytes unat_of_nat_small)

lemma receive_step:
  assumes "transfer_fits lim s" "S \<subseteq> {..<stf_total s}" "i < stf_total s" "\<not> has_probe adm" "now - seen \<le> 2000"
    and "stf_frame s = take (stf_total s * stf_payload_budget s) (stf_frame s)" "stf_payload_budget s \<noteq> 0" "stf_total s \<le> 65535"
  shows "receive_chunk_frame env (\<lambda>_. True) lim now (side_chunk (we_crc env) s i) (partial_state s S seen) adm =
    (if i \<in> S then (Some (Ok None), partial_state s S seen, adm)
     else if insert i S = {..<stf_total s} then (Some (Ok (Some (stf_frame s))), rx_empty, adm)
     else (Some (Ok None), partial_state s (insert i S) now, adm))"
proof -
  note body = chunk_body_fields [OF assms(3, 8)]
  have dup: "(case map_of (rx_chunks (partial_state s S seen)) (stf_transfer_id s) of Some a \<Rightarrow> contains_index i a | None \<Rightarrow> False) \<longleftrightarrow> i \<in> S"
    using assms(3) by (simp add: partial_lookup partial_contains)
  have "receive_side_chunk env (\<lambda>_. True) lim now bs (chunk_body s i) (partial_state s S seen) adm =
    (if i \<in> S then (Ok None, partial_state s S seen, adm)
     else if insert i S = {..<stf_total s} then (Ok (Some (stf_frame s)), rx_empty, adm)
     else (Ok None, partial_state s (insert i S) now, adm))" for bs
    unfolding receive_side_chunk_def Let_def body diff_add_inverse partial_room [OF assms(1, 2, 3)] prod.case sum.case dup
      fragment_admitted [OF assms(4)]
    using partial_store [OF assms(1, 2, 3) _ assms(4, 6)] assms(3) by simp
  then show ?thesis
    unfolding receive_chunk_frame_def Let_def partial_expire [OF assms(5)] parse_side_chunk [OF assms(7)] by simp
qed

lemma split_frame_facts:
  assumes "split_frame raw max_frame_bytes sender = Ok s"
  shows "stf_frame s = raw" "stf_payload_budget s \<noteq> 0" "stf_total s \<le> 65535"
    "stf_frame s = take (stf_total s * stf_payload_budget s) (stf_frame s)"
proof -
  have "stf_frame s = raw \<and> stf_payload_budget s \<noteq> 0 \<and> stf_total s \<le> 65535 \<and> stf_total s = div_ceil (length raw) (stf_payload_budget s)"
    using assms by (auto simp: split_frame_def Let_def split: if_splits)
  then show "stf_frame s = raw" "stf_payload_budget s \<noteq> 0" "stf_total s \<le> 65535"
    "stf_frame s = take (stf_total s * stf_payload_budget s) (stf_frame s)"
    using div_ceil_covers [of "stf_payload_budget s" "length raw"] by simp_all
qed

text \<open>C4: a frame survives being cut into chunks.  The chunks of a frame, delivered in any order, with any repetition
  of chunks that have already arrived and within the reassembly timeout, to a side with room for the transfer, are
  all taken without a result until the last missing one, which returns exactly the frame and leaves nothing behind
  in the cache.\<close>

theorem chunks_reassemble:
  assumes "split_frame raw max_frame_bytes sender = Ok s" and "transfer_fits lim s" and "\<not> has_probe adm"
    and "\<forall>(t, i) \<in> set deliveries. base \<le> t \<and> t \<le> base + 2000"
    and "snd ` set (deliveries @ [(t', i')]) = {..<stf_total s}" and "snd ` set deliveries \<noteq> {..<stf_total s}"
    and "base \<le> t'" and "t' \<le> base + 2000"
  shows "receive_frames env lim (map (\<lambda>(t, i). (t, \<lambda>_. True, side_chunk (we_crc env) s i)) (deliveries @ [(t', i')])) rx_empty adm =
    (replicate (length deliveries) (Some (Ok None)) @ [Some (Ok (Some raw))], rx_empty, adm)"
proof -
  note sf = split_frame_facts [OF assms(1)]
  have "receive_frames env lim (map (\<lambda>(t, i). (t, \<lambda>_. True, side_chunk (we_crc env) s i)) (deliveries @ [(t', i')])) (partial_state s S seen) adm =
      (replicate (length deliveries) (Some (Ok None)) @ [Some (Ok (Some raw))], rx_empty, adm)"
    if "S \<subseteq> {..<stf_total s}" "S \<union> snd ` set (deliveries @ [(t', i')]) = {..<stf_total s}" "S \<union> snd ` set deliveries \<noteq> {..<stf_total s}"
      "base \<le> seen" for S seen
    using that assms(4)
  proof (induction deliveries arbitrary: S seen)
    case Nil
    then have i: "i' < stf_total s" "insert i' S = {..<stf_total s}" "i' \<notin> S" by auto
    then show ?case using receive_step [OF assms(2) Nil.prems(1) i(1) assms(3) _ sf(4, 2, 3), of t' seen env] Nil.prems(4) assms(8)
      by (simp add: sf(1))
  next
    case (Cons d ds)
    obtain t i where d: "d = (t, i)" by fastforce
    have i: "i < stf_total s" and t: "base \<le> t" "t \<le> base + 2000" using Cons.prems d by auto
    have open_set: "i \<notin> S \<Longrightarrow> insert i S \<noteq> {..<stf_total s}" using Cons.prems(1, 2, 3) d by auto
    define S' where "S' = insert i S"
    have prems: "S' \<subseteq> {..<stf_total s}" "S' \<union> snd ` set (ds @ [(t', i')]) = {..<stf_total s}" "S' \<union> snd ` set ds \<noteq> {..<stf_total s}"
      "\<forall>(t, i) \<in> set ds. base \<le> t \<and> t \<le> base + 2000"
      using Cons.prems i d by (auto simp: S'_def)
    have step: "receive_chunk_frame env (\<lambda>_. True) lim t (side_chunk (we_crc env) s i) (partial_state s S seen) adm =
        (Some (Ok None), partial_state s S' (if i \<in> S then seen else t), adm)"
      using receive_step [OF assms(2) Cons.prems(1) i assms(3) _ sf(4, 2, 3), of t seen env] Cons.prems(4) t open_set
      by (auto simp: S'_def insert_absorb)
    have "base \<le> (if i \<in> S then seen else t)" using Cons.prems(4) t by simp
    from Cons.IH [OF prems(1-3) this prems(4)] show ?case using step d by simp
  qed
  from this [of "{}" base] show ?thesis using assms(5, 6) by (simp add: partial_state_def)
qed

section \<open>Examples\<close>

definition example_limits :: RxLimits where
  "example_limits = \<lparr>rl_admission_budget = 4096, rl_protected = 256, rl_other = 512\<rparr>"

lemma example_split:
  "\<exists>s. split_frame [1, 2, 3, 4, 5] 18 [7] = Ok s \<and> stf_total s = 3 \<and> stf_frame s = [1, 2, 3, 4, 5]"
  by (simp add: split_frame_def div_ceil_def Let_def)

theorem chunk_cache_bounded_witness:
  "case receive_frames example_wire example_limits [(5, \<lambda>_. True, [0x53, 0x44, 0x54, 3]), (9, \<lambda>_. False, replicate 40 0)] rx_empty idle_admission of
    (results, st, adm') \<Rightarrow>
      rx_chunk_bytes st = sum_list (map (\<lambda>(_, a). assembly_byte_cost a) (rx_chunks st)) \<and>
      rx_chunk_bytes st \<le> 3840 \<and> length (rx_chunks st) \<le> 4 \<and> distinct (map fst (rx_chunks st)) \<and>
      list_all (\<lambda>(_, a). ca_received_count a = length (filter (\<lambda>f. f \<noteq> None) (ca_received a)) \<and>
        (ca_received a = [] \<or> length (ca_received a) = ca_total a)) (rx_chunks st)"
proof -
  obtain results st adm' where r: "receive_frames example_wire example_limits
    [(5, \<lambda>_. True, [0x53, 0x44, 0x54, 3]), (9, \<lambda>_. False, replicate 40 0)] rx_empty idle_admission = (results, st, adm')"
    by (metis prod.collapse)
  show ?thesis unfolding r prod.case
    by (rule chunk_cache_bounded [OF _ _ _ r]) (simp_all add: example_limits_def USIZE_MAX_def)
qed

theorem chunks_reassemble_witness:
  "\<exists>s. split_frame [1, 2, 3, 4, 5] 18 [7] = Ok s \<and>
    receive_frames example_wire example_limits
      (map (\<lambda>(t, i). (t, \<lambda>_. True, side_chunk (we_crc example_wire) s i)) ([(100, 2), (101, 0), (105, 2)] @ [(103, 1)])) rx_empty idle_admission =
    ([Some (Ok None), Some (Ok None), Some (Ok None), Some (Ok (Some [1, 2, 3, 4, 5]))], rx_empty, idle_admission)"
proof -
  obtain s where s: "split_frame [1, 2, 3, 4, 5] 18 [7] = Ok s" "stf_total s = 3" "stf_frame s = [1, 2, 3, 4, 5]" using example_split by blast
  have fits: "transfer_fits example_limits s" using s by (simp add: transfer_fits_def example_limits_def USIZE_MAX_def)
  have three: "{..<3} = insert 2 (insert 1 {0 :: nat})" by (simp add: eval_nat_numeral lessThan_Suc)
  have "1 \<notin> {2, 0, 2 :: nat}" by simp
  then have "{2, 0, 2 :: nat} \<noteq> {..<3}" unfolding three by blast
  then have all: "snd ` set ([(100, 2), (101, 0), (105, 2)] @ [(103, 1)]) = {..<stf_total s}" "snd ` set [(100, 2), (101, 0), (105, 2)] \<noteq> {..<stf_total s}"
    unfolding s(2) by (simp_all add: three insert_commute)
  have "receive_frames example_wire example_limits
      (map (\<lambda>(t, i). (t, \<lambda>_. True, side_chunk (we_crc example_wire) s i)) ([(100, 2), (101, 0), (105, 2)] @ [(103, 1)])) rx_empty idle_admission =
    (replicate (length [(100 :: nat, 2 :: nat), (101, 0), (105, 2)]) (Some (Ok None)) @ [Some (Ok (Some [1, 2, 3, 4, 5]))], rx_empty, idle_admission)"
    by (rule chunks_reassemble [OF s(1) fits example_gps_fits(8), where base = 100]) (use all in simp_all)
  then show ?thesis using s(1) by (simp add: numeral_3_eq_3)
qed

end
