(* ===== verification/Spec2Isabelle.thy ===== *)
theory Spec2Isabelle
  imports Prelude Varint Telemetry_Types Schema_Identity Schema_Registry Schema_Merge Bounded_Queue
    Heap_Sort Small_Map Small_Payload Packet Memory_Admission Wire_Codec Wire_Endpoints Crypto Crypto_Vectors
    Wire_Format Wire_Locality Wire_Routing Wire_View Wire_Rewrite
    Calendar Time_Sync Side_Frames Side_Assembly Side_Reassembly
begin

text \<open>
  A verification development for SEDSnet, a telemetry network library.

  \<^bold>\<open>The program.\<close>  A node registers endpoints and data types in a schema, builds packets of
  those types, and hands them to a router.  The router keeps packets in byte-bounded queues,
  packs them into frames, optionally compressed and sealed end to end, cuts frames that are too
  large for a side into chunks, and forwards frames it receives after reading no more than their
  header.  Nodes merge the schemas they hear of, elect a time source and slew their clocks to
  it.  Every allocation that depends on received data passes a memory check first.

  \<^bold>\<open>Conventions.\<close>  The model follows the default build (features std, compression, timesync,
  discovery, cryptography) on a 64-bit target.  A struct is a record, an enum a datatype, a
  fixed-width integer a word; \<^verbatim>\<open>usize\<close> counts are natural numbers with the saturating and checked
  operations of the code written out; \<^verbatim>\<open>i128\<close> time values are integers with their saturation
  written out.  \<^verbatim>\<open>TelemetryResult\<close> is the sum type \<^verbatim>\<open>result\<close> of the prelude and a panic or failed
  assertion is \<^verbatim>\<open>None\<close>.  State is passed explicitly and a section under one lock is one step.
  Code outside the repository enters as an argument: the checksum (crc32fast), the compressor
  (zstd-safe), registered crypto providers, memory probes, transmit handlers, the allocator's
  answers, the clock.  What the compressor promises is the law \<^verbatim>\<open>zstd_law\<close>; what a sealing provider
  promises is the locale \<^verbatim>\<open>e2e_provider\<close>; both are shown to hold of a concrete instance.

  \<^bold>\<open>Theories and sources\<close> (all sources under \<^verbatim>\<open>src/src/\<close>).

  \<^item> \<^verbatim>\<open>Prelude\<close>: machine types, the error type of \<^verbatim>\<open>lib.rs\<close>, \<^verbatim>\<open>usize\<close> arithmetic, little-endian
    codecs, and the locale \<^verbatim>\<open>stateful_component\<close> of components with an invariant.
  \<^item> \<^verbatim>\<open>Varint\<close> (\<^verbatim>\<open>varint.rs\<close>, the writer in \<^verbatim>\<open>wire_format.rs\<close>): both decoders and the ULEB128
    writer.  Round trip, agreement of the 32-bit decoder with the 64-bit one, exact bounds.
  \<^item> \<^verbatim>\<open>Telemetry_Types\<close> (\<^verbatim>\<open>lib.rs\<close>, \<^verbatim>\<open>macros.rs\<close>, code tables of \<^verbatim>\<open>config.rs\<close>): enums, error codes,
    shapes and their numeric codes.
  \<^item> \<^verbatim>\<open>Schema_Identity\<close> (\<^verbatim>\<open>schema_identity.rs\<close>), \<^verbatim>\<open>Schema_Registry\<close> and \<^verbatim>\<open>Schema_Merge\<close>
    (\<^verbatim>\<open>config.rs\<close>): ids, the registry with its built-in entries, and merging of snapshots from other
    nodes.  The registry is well formed and keeps the protocol entries in every reachable state;
    merging converges and is idempotent.  \<^verbatim>\<open>merge_contract\<close> carries both merges.
  \<^item> \<^verbatim>\<open>Bounded_Queue\<close> (\<^verbatim>\<open>queue.rs\<close>): every operation of the byte-bounded deque.  Budget and order
    invariants over all runs, eviction only when needed, all-or-nothing batches, bounded waiting
    of the fair selector.
  \<^item> \<^verbatim>\<open>Heap_Sort\<close> (\<^verbatim>\<open>small_sort.rs\<close>), \<^verbatim>\<open>Small_Map\<close> (\<^verbatim>\<open>small_map.rs\<close>), \<^verbatim>\<open>Small_Payload\<close>
    (\<^verbatim>\<open>small_payload.rs\<close>): the containers of the embedded build, each equal to its reference.
    \<^verbatim>\<open>keyed_table\<close> is the contract of a map.
  \<^item> \<^verbatim>\<open>Packet\<close> (\<^verbatim>\<open>packet.rs\<close>): construction, validation, identity and typed access.
  \<^item> \<^verbatim>\<open>Memory_Admission\<close> (\<^verbatim>\<open>memory_admission.rs\<close>): probes and checks.
  \<^item> \<^verbatim>\<open>Wire_Codec\<close>, \<^verbatim>\<open>Wire_Endpoints\<close>, \<^verbatim>\<open>Wire_Format\<close> (\<^verbatim>\<open>wire_format.rs\<close>): the cursor, the sections of a
    frame, packing, unpacking and sizes.  Each reader reads back its writer in any context
    (locale \<^verbatim>\<open>wire_codec\<close>); whole frames, plain, compressed or sealed, unpack to the packet packed.
  \<^item> \<^verbatim>\<open>Crypto\<close> (\<^verbatim>\<open>crypto.rs\<close>): SHA-256, HMAC, the software cipher, credentials and provider dispatch;
    \<^verbatim>\<open>Crypto_Vectors\<close> evaluates a published digest.
  \<^item> \<^verbatim>\<open>Wire_Locality\<close>, \<^verbatim>\<open>Wire_Routing\<close>, \<^verbatim>\<open>Wire_View\<close>, \<^verbatim>\<open>Wire_Rewrite\<close> (\<^verbatim>\<open>wire_format.rs\<close>,
    \<^verbatim>\<open>memory_admission.rs\<close>): the header-only view, the packet ID from the wire, header rewriting and
    transcoding.  Readers depend only on the bytes they consume, so the view agrees with the
    unpacked packet and rewriting keeps it.
  \<^item> \<^verbatim>\<open>Calendar\<close> and \<^verbatim>\<open>Time_Sync\<close> (\<^verbatim>\<open>timesync.rs\<close>, \<^verbatim>\<open>peer_record.rs\<close>, time formatting of \<^verbatim>\<open>packet.rs\<close>):
    calendar conversion as a bijection with Gregorian dates, the slewed and assembled clocks,
    source tracking, leader election and the sync packets.
  \<^item> \<^verbatim>\<open>Side_Frames\<close>, \<^verbatim>\<open>Side_Assembly\<close>, \<^verbatim>\<open>Side_Reassembly\<close> (\<^verbatim>\<open>side_transport.rs\<close>, the chunk paths of
    \<^verbatim>\<open>router.rs\<close>): cutting, resumable sending, streaming, and the bounded reassembly of chunks.

  \<^bold>\<open>Loops and bounds.\<close>  Every loop is a total function.  Recursion that is not structural has
  its termination proof; the key stream loop of \<^verbatim>\<open>Crypto\<close> alone takes a bound on its rounds, the
  length of the input, which is enough because every round covers at least one byte.
  A varint has at most ten bytes and a frame at most 255 distinct endpoints, the limits of the
  code; a transfer has at most 65535 chunks.  Sizes are below \<^verbatim>\<open>2 ^ 63\<close> where a theorem needs that
  no \<^verbatim>\<open>usize\<close> sum saturates, the limit of a slice in Rust.

  \<^bold>\<open>Not modelled.\<close>
  \<^item> Header templates and compact frames of \<^verbatim>\<open>side_transport.rs\<close> and their dictionaries in the router.
  \<^item> \<^verbatim>\<open>router.rs\<close> with its companions and \<^verbatim>\<open>relay.rs\<close>, apart from the chunk paths: routing decisions,
    hop and end-to-end reliability, managed variables and prepared publication share one large
    state under a lock and call back into application handlers while it is released.  In the
    receive path of a chunk, the other queues of the router hold a fixed number of bytes.
  \<^item> \<^verbatim>\<open>discovery.rs\<close>, apart from the list of discovery types; \<^verbatim>\<open>payload_codec.rs\<close>,
    \<^verbatim>\<open>admission_fairness.rs\<close>, \<^verbatim>\<open>type_stats.rs\<close>, \<^verbatim>\<open>routing_config.rs\<close>: bookkeeping over the router's state.
  \<^item> \<^verbatim>\<open>packet_store.rs\<close>, \<^verbatim>\<open>shared_bytes.rs\<close> and the latest-value queue: optional features that are
    off by default.
  \<^item> \<^verbatim>\<open>c_api.rs\<close>, \<^verbatim>\<open>python_api.rs\<close>, \<^verbatim>\<open>binding_options.rs\<close>, apart from their error-code tables:
    foreign-function glue over raw pointers and interpreter objects.
  \<^item> \<^verbatim>\<open>lock.rs\<close> and \<^verbatim>\<open>diagnostics.rs\<close>: platform locks and logging.
\<close>

end
